(* ===== verification/Mdp_Prelude.thy ===== *)
theory Mdp_Prelude
  imports Main "HOL-Library.Word"
begin

unbundle bit_operations_syntax

text \<open>
  Shared vocabulary of the development: the fixed-width integers of the C++ code, byte
  strings, fixed-size arrays, the little-endian object representation that
  \<^verbatim>\<open>std::memcpy\<close> reads and writes on the hosts the program is built for (x86-64, AArch64),
  the generic interface of a step system with an invariant, and lemmas on lists and words
  that several components use.

  A fixed-size array (\<^verbatim>\<open>std::array\<close>, \<^verbatim>\<open>Slot slots_[Capacity]\<close>) is a total function
  from its index; each component that indexes an array proves that every index it uses is
  within the declared size.
\<close>

type_synonym u8 = "8 word"
type_synonym u16 = "16 word"
type_synonym u32 = "32 word"
type_synonym u64 = "64 word"
type_synonym bytes = "u8 list"
type_synonym 'a array = "nat \<Rightarrow> 'a"

named_theorems wire_simps \<open>unfolding rules of the wire structures\<close>
named_theorems book_inv_intros \<open>preservation rules of the book invariants\<close>

section \<open>Object representation of integers\<close>

fun of_le :: "bytes \<Rightarrow> 'a::len word" where
  "of_le [] = 0"
| "of_le (b # bs) = ucast b OR push_bit 8 (of_le bs)"

fun to_le :: "nat \<Rightarrow> 'a::len word \<Rightarrow> bytes" where
  "to_le 0 w = []"
| "to_le (Suc n) w = ucast w # to_le n (drop_bit 8 w)"

lemma length_to_le [simp]: "length (to_le n w) = n"
  by (induction n arbitrary: w) auto

lemma of_le_to_le:
  fixes w :: "'a::len word"
  shows "LENGTH('a) \<le> 8 * n \<Longrightarrow> of_le (to_le n w) = w"
proof -
  have gen: "of_le (to_le n w) = take_bit (8 * n) w" for w :: "'a word"
  proof (induction n arbitrary: w)
    case 0
    then show ?case by simp
  next
    case (Suc n)
    show ?case
      by (rule bit_word_eqI) (auto simp: Suc.IH bit_simps)
  qed
  assume "LENGTH('a) \<le> 8 * n"
  then show ?thesis by (simp add: gen take_bit_word_eq_self)
qed

lemma to_le_of_le:
  "length bs = n \<Longrightarrow> 8 * n \<le> LENGTH('a) \<Longrightarrow> to_le n (of_le bs :: 'a::len word) = bs"
proof (induction bs arbitrary: n)
  case Nil
  then show ?case by simp
next
  case (Cons b bs)
  then obtain m where n: "n = Suc m" "length bs = m" by auto
  have lo: "ucast (ucast b OR push_bit 8 (of_le bs :: 'a word)) = b"
    using Cons.prems n by (intro bit_word_eqI) (auto simp: bit_simps)
  have bnd: "bit (of_le bs :: 'a word) k \<Longrightarrow> k < 8 * length bs" for k
  proof (induction bs arbitrary: k)
    case (Cons c cs)
    show ?case
    proof (cases "k < 8")
      case False
      with Cons.prems have "bit (of_le cs :: 'a word) (k - 8)"
        by (auto simp: bit_simps dest: bit_imp_le_length)
      from Cons.IH [OF this] False show ?thesis by simp
    qed simp
  qed simp
  have hi: "drop_bit 8 (ucast b OR push_bit 8 (of_le bs :: 'a word)) = of_le bs"
  proof (rule bit_word_eqI)
    fix k assume "k < LENGTH('a)"
    show "bit (drop_bit 8 (ucast b OR push_bit 8 (of_le bs :: 'a word))) k
       = bit (of_le bs :: 'a word) k"
      using bnd [of k] n Cons.prems by (auto simp: bit_simps dest: bit_imp_le_length)
  qed
  have "to_le m (of_le bs :: 'a word) = bs" using Cons.IH [of m] Cons.prems n by simp
  then show ?case unfolding n to_le.simps of_le.simps lo hi by simp
qed

text \<open>The numeric value of a little-endian byte string.\<close>

fun le_value :: "bytes \<Rightarrow> nat" where
  "le_value [] = 0"
| "le_value (b # bs) = unat b + 256 * le_value bs"

lemma unat_u8_less: "unat (b :: u8) < 256"
  by (rule order_less_le_trans [OF unsigned_less]) simp

lemma le_value_bound: "le_value bs < 256 ^ length bs"
proof (induction bs)
  case (Cons b bs)
  have "unat b < 256" by (rule unat_u8_less)
  with Cons show ?case by simp
qed simp

lemma le_value_append: "le_value (xs @ ys) = le_value xs + 256 ^ length xs * le_value ys"
  by (induction xs) (auto simp: algebra_simps)

lemma unat_of_le:
  "8 * length bs \<le> LENGTH('a) \<Longrightarrow> unat (of_le bs :: 'a::len word) = le_value bs"
proof (induction bs)
  case (Cons b bs)
  let ?x = "of_le bs :: 'a word"
  have IH: "unat ?x = le_value bs" using Cons by simp
  have "(256::nat) ^ length bs * 256 = 2 ^ (8 * Suc (length bs))"
    by (simp add: power_mult power_add)
  also have "\<dots> \<le> 2 ^ LENGTH('a)" using Cons.prems by (intro power_increasing) auto
  finally have pw: "(256::nat) ^ length bs * 256 \<le> 2 ^ LENGTH('a)" .
  have b: "unat b < 256" by (rule unat_u8_less)
  have sum: "unat b + 256 * le_value bs < 2 ^ LENGTH('a)"
    using le_value_bound [of "b # bs"] pw by simp
  have ub: "unat (ucast b :: 'a word) = unat b"
    using sum by (simp add: unsigned_ucast_eq take_bit_nat_eq_self)
  have ux: "unat (push_bit 8 ?x) = 256 * le_value bs"
    using sum by (simp add: push_bit_eq_mult unat_word_ariths IH mult.commute take_bit_eq_mod
        mod_mult_right_eq)
  have "ucast b OR push_bit 8 ?x = ucast b + push_bit 8 ?x"
    by (rule disjunctive_add_eq_or [symmetric], rule bit_word_eqI)
      (auto simp: bit_simps dest: bit_imp_le_length)
  then show ?case using sum by (simp add: unat_word_ariths ub ux)
qed simp

section \<open>Lists\<close>

lemma take_length_append [simp]: "length xs = n \<Longrightarrow> take n (xs @ ys) = xs"
  by simp

lemma drop_length_append [simp]: "length xs = n \<Longrightarrow> drop n (xs @ ys) = ys"
  by simp

section \<open>Step systems\<close>

text \<open>
  Several components are a start state and a step relation: the reorder buffer under a
  stream of datagrams, the book under a stream of messages, the ring under the interleaved
  actions of its two threads. The interface asks for an invariant that the start state
  has and every step keeps; what it gives is the invariant in every reachable state.
\<close>

locale step_system =
  fixes init :: "'s \<Rightarrow> bool"
    and step :: "'s \<Rightarrow> 's \<Rightarrow> bool"
    and inv :: "'s \<Rightarrow> bool"
  assumes inv_init: "init s \<Longrightarrow> inv s"
    and inv_step: "inv s \<Longrightarrow> step s t \<Longrightarrow> inv t"
begin

lemma inv_run: "step\<^sup>*\<^sup>* s t \<Longrightarrow> inv s \<Longrightarrow> inv t"
  by (induction rule: rtranclp_induct) (auto intro: inv_step)

lemma inv_reachable: "init s \<Longrightarrow> step\<^sup>*\<^sup>* s t \<Longrightarrow> inv t"
  by (blast intro: inv_run inv_init)

end

end
