(* ===== verification/Bytes.thy ===== *)
theory Bytes
  imports Mdp_Prelude
begin

text \<open>
  The endian helpers of \<^verbatim>\<open>include/mdp/bytes.hpp\<close>. A pointer argument is the byte string
  it points at; a store returns the bytes it writes there. The byte-swap expressions are
  those of the source, mask by mask; the lemmas show that on a little-endian host they
  read and write network byte order and that loads and stores are inverse.
\<close>

section \<open>Definitions\<close>

definition bswap16 :: "u16 \<Rightarrow> u16" where
  "bswap16 v = (drop_bit 8 v) OR (push_bit 8 v)"

definition bswap32 :: "u32 \<Rightarrow> u32" where
  "bswap32 v =
     (push_bit 24 (v AND 0x000000FF)) OR (push_bit 8 (v AND 0x0000FF00)) OR
     (drop_bit 8 (v AND 0x00FF0000)) OR (drop_bit 24 (v AND 0xFF000000))"

definition bswap64 :: "u64 \<Rightarrow> u64" where
  "bswap64 v =
     (push_bit 56 (v AND 0x00000000000000FF)) OR (push_bit 40 (v AND 0x000000000000FF00)) OR
     (push_bit 24 (v AND 0x0000000000FF0000)) OR (push_bit 8 (v AND 0x00000000FF000000)) OR
     (drop_bit 8 (v AND 0x000000FF00000000)) OR (drop_bit 24 (v AND 0x0000FF0000000000)) OR
     (drop_bit 40 (v AND 0x00FF000000000000)) OR (drop_bit 56 (v AND 0xFF00000000000000))"

definition load_be16 :: "bytes \<Rightarrow> u16" where
  "load_be16 p = (let v = of_le (take 2 p) in bswap16 v)"

definition load_be32 :: "bytes \<Rightarrow> u32" where
  "load_be32 p = (let v = of_le (take 4 p) in bswap32 v)"

definition load_be64 :: "bytes \<Rightarrow> u64" where
  "load_be64 p = (let v = of_le (take 8 p) in bswap64 v)"

definition store_be16 :: "u16 \<Rightarrow> bytes" where
  "store_be16 v = (let be = bswap16 v in to_le 2 be)"

definition store_be32 :: "u32 \<Rightarrow> bytes" where
  "store_be32 v = (let be = bswap32 v in to_le 4 be)"

definition store_be64 :: "u64 \<Rightarrow> bytes" where
  "store_be64 v = (let be = bswap64 v in to_le 8 be)"

section \<open>Byte order\<close>

text \<open>The masks of the source as shifted runs of eight ones, so that bit lemmas apply.\<close>

lemma bswap_masks:
  "(0x000000FF :: u32) = mask 8" "(0x0000FF00 :: u32) = push_bit 8 (mask 8)"
  "(0x00FF0000 :: u32) = push_bit 16 (mask 8)" "(0xFF000000 :: u32) = push_bit 24 (mask 8)"
  "(0x00000000000000FF :: u64) = mask 8" "(0x000000000000FF00 :: u64) = push_bit 8 (mask 8)"
  "(0x0000000000FF0000 :: u64) = push_bit 16 (mask 8)"
  "(0x00000000FF000000 :: u64) = push_bit 24 (mask 8)"
  "(0x000000FF00000000 :: u64) = push_bit 32 (mask 8)"
  "(0x0000FF0000000000 :: u64) = push_bit 40 (mask 8)"
  "(0x00FF000000000000 :: u64) = push_bit 48 (mask 8)"
  "(0xFF00000000000000 :: u64) = push_bit 56 (mask 8)"
  by (simp_all add: mask_eq_exp_minus_1 push_bit_eq_mult)

lemma to_le_16: "to_le 2 (v :: u16) = [ucast v, ucast (drop_bit 8 v)]"
  by (simp add: numeral_eq_Suc)

lemma to_le_32:
  "to_le 4 (v :: u32) =
     [ucast v, ucast (drop_bit 8 v), ucast (drop_bit 16 v), ucast (drop_bit 24 v)]"
  by (simp add: eval_nat_numeral)

lemma to_le_64:
  "to_le 8 (v :: u64) =
     [ucast v, ucast (drop_bit 8 v), ucast (drop_bit 16 v), ucast (drop_bit 24 v),
      ucast (drop_bit 32 v), ucast (drop_bit 40 v), ucast (drop_bit 48 v), ucast (drop_bit 56 v)]"
  by (simp add: eval_nat_numeral)

lemma byte_bswap16:
  "ucast (bswap16 v) = (ucast (drop_bit 8 v) :: u8)" "ucast (drop_bit 8 (bswap16 v)) = (ucast v :: u8)"
  by (rule bit_word_eqI, auto simp: bswap16_def bit_simps dest: bit_imp_le_length)+

lemma byte_bswap32:
  "k \<in> {0, 8, 16, 24} \<Longrightarrow> ucast (drop_bit k (bswap32 v)) = (ucast (drop_bit (24 - k) v) :: u8)"
  by (elim insertE emptyE; rule bit_word_eqI; simp add: bswap32_def bswap_masks bit_simps)

lemma byte_bswap64:
  "k \<in> {0, 8, 16, 24, 32, 40, 48, 56} \<Longrightarrow>
     ucast (drop_bit k (bswap64 v)) = (ucast (drop_bit (56 - k) v) :: u8)"
  by (elim insertE emptyE; rule bit_word_eqI; simp add: bswap64_def bswap_masks bit_simps)

lemma rev_store_be:
  "store_be16 v = rev (to_le 2 v)" "store_be32 w = rev (to_le 4 w)" "store_be64 x = rev (to_le 8 x)"
  using byte_bswap32 [of 0 w] byte_bswap64 [of 0 x]
  by (simp_all add: store_be16_def store_be32_def store_be64_def to_le_16 to_le_32 to_le_64
      byte_bswap16 byte_bswap32 byte_bswap64)

text \<open>A swap of a loaded integer is the integer loaded from the reversed bytes.\<close>

lemma bswap_of_le:
  "length bs = 2 \<Longrightarrow> bswap16 (of_le bs) = of_le (rev bs)"
  "length bs = 4 \<Longrightarrow> bswap32 (of_le bs) = of_le (rev bs)"
  "length bs = 8 \<Longrightarrow> bswap64 (of_le bs) = of_le (rev bs)"
proof -
  have swap: "to_le 2 (bswap16 v) = rev (to_le 2 v)" "to_le 4 (bswap32 w) = rev (to_le 4 w)"
    "to_le 8 (bswap64 x) = rev (to_le 8 x)" for v w x
    using rev_store_be(1) [of v] rev_store_be(2) [of w] rev_store_be(3) [of x]
    by (simp_all add: store_be16_def store_be32_def store_be64_def)
  have "of_le (to_le 2 (bswap16 (of_le bs))) = (of_le (rev (to_le 2 (of_le bs :: u16))) :: u16)"
    "of_le (to_le 4 (bswap32 (of_le bs))) = (of_le (rev (to_le 4 (of_le bs :: u32))) :: u32)"
    "of_le (to_le 8 (bswap64 (of_le bs))) = (of_le (rev (to_le 8 (of_le bs :: u64))) :: u64)"
    by (simp_all only: swap)
  then show "length bs = 2 \<Longrightarrow> bswap16 (of_le bs) = of_le (rev bs)"
    "length bs = 4 \<Longrightarrow> bswap32 (of_le bs) = of_le (rev bs)"
    "length bs = 8 \<Longrightarrow> bswap64 (of_le bs) = of_le (rev bs)"
    by (simp_all add: of_le_to_le to_le_of_le)
qed

lemma rev_load_be:
  "2 \<le> length p \<Longrightarrow> load_be16 p = of_le (rev (take 2 p))"
  "4 \<le> length p \<Longrightarrow> load_be32 p = of_le (rev (take 4 p))"
  "8 \<le> length p \<Longrightarrow> load_be64 p = of_le (rev (take 8 p))"
  by (simp_all add: load_be16_def load_be32_def load_be64_def bswap_of_le)

section \<open>The codec interface\<close>

text \<open>
  What the wire structures rely on: a store writes a fixed number of bytes, a load returns
  what a store wrote whatever follows it, and storing a loaded value writes the bytes back.
\<close>

locale wire_int =
  fixes load :: "bytes \<Rightarrow> 'v"
    and store :: "'v \<Rightarrow> bytes"
    and width :: nat
  assumes length_store: "length (store v) = width"
    and load_store_append: "load (store v @ rest) = v"
    and store_load: "width \<le> length p \<Longrightarrow> store (load p) = take width p"
begin

lemma load_store: "load (store v) = v"
  using load_store_append [of v "[]"] by simp

lemma store_inject: "store v = store w \<longleftrightarrow> v = w"
  by (metis load_store)

lemma load_append: "width \<le> length p \<Longrightarrow> load (p @ q) = load p"
proof -
  assume w: "width \<le> length p"
  have "p @ q = store (load p) @ (drop width p @ q)"
    using w by (simp add: store_load)
  then show ?thesis by (metis load_store_append)
qed

lemma load_take: "width \<le> n \<Longrightarrow> n \<le> length p \<Longrightarrow> load (take n p) = load p"
  using load_append [of "take n p" "drop n p"] by simp

end

interpretation be16: wire_int load_be16 store_be16 2
  by unfold_locales
    (simp_all add: rev_store_be rev_load_be of_le_to_le to_le_of_le)

interpretation be32: wire_int load_be32 store_be32 4
  by unfold_locales
    (simp_all add: rev_store_be rev_load_be of_le_to_le to_le_of_le)

interpretation be64: wire_int load_be64 store_be64 8
  by unfold_locales
    (simp_all add: rev_store_be rev_load_be of_le_to_le to_le_of_le)

lemmas length_store_be [simp] = be16.length_store be32.length_store be64.length_store
lemmas load_store_be [simp] = be16.load_store be32.load_store be64.load_store
  be16.load_store_append be32.load_store_append be64.load_store_append

section \<open>Properties\<close>

lemma store_be_bytes:
  "store_be64 v = map (\<lambda>k. ucast (drop_bit (56 - 8 * k) v)) [0..<8]"
  "store_be32 w = map (\<lambda>k. ucast (drop_bit (24 - 8 * k) w)) [0..<4]"
  "store_be16 x = map (\<lambda>k. ucast (drop_bit (8 - 8 * k) x)) [0..<2]"
  by (simp_all add: rev_store_be to_le_16 to_le_32 to_le_64 upt_conv_Cons)

lemma unat_load_be:
  "2 \<le> length p \<Longrightarrow> unat (load_be16 p) = le_value (rev (take 2 p))"
  "4 \<le> length p \<Longrightarrow> unat (load_be32 p) = le_value (rev (take 4 p))"
  "8 \<le> length p \<Longrightarrow> unat (load_be64 p) = le_value (rev (take 8 p))"
  by (simp_all add: rev_load_be unat_of_le)

text \<open>
  C24: on a little-endian host \<^verbatim>\<open>store_be64\<close> writes the eight bytes of its argument most
  significant byte first and \<^verbatim>\<open>load_be64\<close> reads them back whatever bytes follow; the
  16- and 32-bit helpers do the same at their width; and a load returns the number whose
  base-256 digits, most significant first, are the bytes it reads.
\<close>

theorem be_network_order:
  "store_be64 v = map (\<lambda>k. ucast (drop_bit (56 - 8 * k) v)) [0..<8] \<and>
   store_be32 w = map (\<lambda>k. ucast (drop_bit (24 - 8 * k) w)) [0..<4] \<and>
   store_be16 x = map (\<lambda>k. ucast (drop_bit (8 - 8 * k) x)) [0..<2] \<and>
   load_be64 (store_be64 v @ rest) = v \<and> load_be32 (store_be32 w @ rest) = w \<and>
   load_be16 (store_be16 x @ rest) = x \<and>
   unat (load_be16 ([a, b] @ rest)) = 256 * unat a + unat b \<and>
   unat (load_be32 ([a, b, c, d] @ rest)) =
     256 ^ 3 * unat a + 256 ^ 2 * unat b + 256 * unat c + unat d \<and>
   unat (load_be64 ([a, b, c, d, e, f, g, h] @ rest)) =
     256 ^ 7 * unat a + 256 ^ 6 * unat b + 256 ^ 5 * unat c + 256 ^ 4 * unat d +
     256 ^ 3 * unat e + 256 ^ 2 * unat f + 256 * unat g + unat h"
  by (intro conjI store_be_bytes load_store_be) (simp_all add: unat_load_be)

end
