(* ===== verification/Protocol.thy ===== *)
theory Protocol
  imports Bytes
begin

text \<open>
  The wire protocol of \<^verbatim>\<open>include/mdp/protocol.hpp\<close>: the message types, the packed wire
  structures with their object representation, the decoded host structures, and the
  encoders. A wire structure is a record of host integers, as the packed struct is; a call
  \<^verbatim>\<open>store_be64(&s.f, v)\<close> sets field \<open>f\<close> to the host integer whose bytes the store
  writes, and \<^verbatim>\<open>load_be64(&s.f)\<close> loads from the bytes of the field.
\<close>

section \<open>Enumerations\<close>

text \<open>
  An \<^verbatim>\<open>enum class\<close> with a fixed underlying type may hold any value of that type, and
  \<^verbatim>\<open>static_cast<MsgType>\<close> of a wire byte makes such values: \<open>MT_Other\<close> is a byte that is
  none of the seven enumerators.
\<close>

datatype MsgType = MT_AddOrder | MT_ModifyOrder | MT_DeleteOrder | MT_Trade | MT_Heartbeat
  | MT_GapRequest | MT_GapResponse | MT_Other u8

datatype Side = Buy | Sell

fun u8_of_MsgType :: "MsgType \<Rightarrow> u8" where
  "u8_of_MsgType MT_AddOrder = 1"
| "u8_of_MsgType MT_ModifyOrder = 2"
| "u8_of_MsgType MT_DeleteOrder = 3"
| "u8_of_MsgType MT_Trade = 4"
| "u8_of_MsgType MT_Heartbeat = 5"
| "u8_of_MsgType MT_GapRequest = 6"
| "u8_of_MsgType MT_GapResponse = 7"
| "u8_of_MsgType (MT_Other b) = b"

definition MsgType_of_u8 :: "u8 \<Rightarrow> MsgType" where
  "MsgType_of_u8 b =
     (if b = 1 then MT_AddOrder else if b = 2 then MT_ModifyOrder
      else if b = 3 then MT_DeleteOrder else if b = 4 then MT_Trade
      else if b = 5 then MT_Heartbeat else if b = 6 then MT_GapRequest
      else if b = 7 then MT_GapResponse else MT_Other b)"

fun u8_of_Side :: "Side \<Rightarrow> u8" where
  "u8_of_Side Buy = 0"
| "u8_of_Side Sell = 1"

section \<open>Wire structures\<close>

record WireHeader =
  wh_type :: u8
  wh_pad :: u8
  wh_length :: u16
  wh_seq :: u64
  wh_ts_ns :: u64

record WireAddOrder =
  wa_hdr :: WireHeader
  wa_order_id :: u64
  wa_symbol_id :: u32
  wa_side :: u8
  wa_pad :: bytes
  wa_price :: u32
  wa_qty :: u32

record WireModifyOrder =
  wm_hdr :: WireHeader
  wm_order_id :: u64
  wm_symbol_id :: u32
  wm_side :: u8
  wm_pad :: bytes
  wm_price :: u32
  wm_qty :: u32

record WireDeleteOrder =
  wd_hdr :: WireHeader
  wd_order_id :: u64
  wd_symbol_id :: u32
  wd_pad :: bytes

record WireTrade =
  wt_hdr :: WireHeader
  wt_trade_id :: u64
  wt_symbol_id :: u32
  wt_side :: u8
  wt_pad :: bytes
  wt_price :: u32
  wt_qty :: u32

record WireHeartbeat =
  whb_hdr :: WireHeader
  whb_exchange_ts_ns :: u64

record WireGapRequest =
  wq_hdr :: WireHeader
  wq_start_seq :: u64
  wq_end_seq :: u64

record WireGapResponse =
  wr_hdr :: WireHeader
  wr_start_seq :: u64
  wr_end_seq :: u64
  wr_payload_bytes :: u32
  wr_pad :: u32

definition kMaxMessageSize :: nat where "kMaxMessageSize = 44"

definition kMinMessageSize :: nat where "kMinMessageSize = 20"

subsection \<open>Object representation\<close>

text \<open>
  \<open>field_at i n b\<close> is the field of \<open>n\<close> bytes at offset \<open>i\<close>. The packed structures have no
  padding of their own, so the representation is the concatenation of the fields.
\<close>

definition field_at :: "nat \<Rightarrow> nat \<Rightarrow> bytes \<Rightarrow> bytes" where
  "field_at i n b = take n (drop i b)"

definition WireHeader_bytes :: "WireHeader \<Rightarrow> bytes" where
  "WireHeader_bytes w =
     [wh_type w] @ [wh_pad w] @ to_le 2 (wh_length w) @ to_le 8 (wh_seq w) @ to_le 8 (wh_ts_ns w)"

definition bytes_WireHeader :: "bytes \<Rightarrow> WireHeader" where
  "bytes_WireHeader b =
     \<lparr>wh_type = b ! 0, wh_pad = b ! 1, wh_length = of_le (field_at 2 2 b),
      wh_seq = of_le (field_at 4 8 b), wh_ts_ns = of_le (field_at 12 8 b)\<rparr>"

definition WireAddOrder_bytes :: "WireAddOrder \<Rightarrow> bytes" where
  "WireAddOrder_bytes w =
     WireHeader_bytes (wa_hdr w) @ to_le 8 (wa_order_id w) @ to_le 4 (wa_symbol_id w) @
     [wa_side w] @ wa_pad w @ to_le 4 (wa_price w) @ to_le 4 (wa_qty w)"

definition bytes_WireAddOrder :: "bytes \<Rightarrow> WireAddOrder" where
  "bytes_WireAddOrder b =
     \<lparr>wa_hdr = bytes_WireHeader b, wa_order_id = of_le (field_at 20 8 b),
      wa_symbol_id = of_le (field_at 28 4 b), wa_side = b ! 32, wa_pad = field_at 33 3 b,
      wa_price = of_le (field_at 36 4 b), wa_qty = of_le (field_at 40 4 b)\<rparr>"

definition WireModifyOrder_bytes :: "WireModifyOrder \<Rightarrow> bytes" where
  "WireModifyOrder_bytes w =
     WireHeader_bytes (wm_hdr w) @ to_le 8 (wm_order_id w) @ to_le 4 (wm_symbol_id w) @
     [wm_side w] @ wm_pad w @ to_le 4 (wm_price w) @ to_le 4 (wm_qty w)"

definition bytes_WireModifyOrder :: "bytes \<Rightarrow> WireModifyOrder" where
  "bytes_WireModifyOrder b =
     \<lparr>wm_hdr = bytes_WireHeader b, wm_order_id = of_le (field_at 20 8 b),
      wm_symbol_id = of_le (field_at 28 4 b), wm_side = b ! 32, wm_pad = field_at 33 3 b,
      wm_price = of_le (field_at 36 4 b), wm_qty = of_le (field_at 40 4 b)\<rparr>"

definition WireDeleteOrder_bytes :: "WireDeleteOrder \<Rightarrow> bytes" where
  "WireDeleteOrder_bytes w =
     WireHeader_bytes (wd_hdr w) @ to_le 8 (wd_order_id w) @ to_le 4 (wd_symbol_id w) @ wd_pad w"

definition bytes_WireDeleteOrder :: "bytes \<Rightarrow> WireDeleteOrder" where
  "bytes_WireDeleteOrder b =
     \<lparr>wd_hdr = bytes_WireHeader b, wd_order_id = of_le (field_at 20 8 b),
      wd_symbol_id = of_le (field_at 28 4 b), wd_pad = field_at 32 4 b\<rparr>"

definition WireTrade_bytes :: "WireTrade \<Rightarrow> bytes" where
  "WireTrade_bytes w =
     WireHeader_bytes (wt_hdr w) @ to_le 8 (wt_trade_id w) @ to_le 4 (wt_symbol_id w) @
     [wt_side w] @ wt_pad w @ to_le 4 (wt_price w) @ to_le 4 (wt_qty w)"

definition bytes_WireTrade :: "bytes \<Rightarrow> WireTrade" where
  "bytes_WireTrade b =
     \<lparr>wt_hdr = bytes_WireHeader b, wt_trade_id = of_le (field_at 20 8 b),
      wt_symbol_id = of_le (field_at 28 4 b), wt_side = b ! 32, wt_pad = field_at 33 3 b,
      wt_price = of_le (field_at 36 4 b), wt_qty = of_le (field_at 40 4 b)\<rparr>"

definition WireHeartbeat_bytes :: "WireHeartbeat \<Rightarrow> bytes" where
  "WireHeartbeat_bytes w = WireHeader_bytes (whb_hdr w) @ to_le 8 (whb_exchange_ts_ns w)"

definition bytes_WireHeartbeat :: "bytes \<Rightarrow> WireHeartbeat" where
  "bytes_WireHeartbeat b =
     \<lparr>whb_hdr = bytes_WireHeader b, whb_exchange_ts_ns = of_le (field_at 20 8 b)\<rparr>"

definition WireGapRequest_bytes :: "WireGapRequest \<Rightarrow> bytes" where
  "WireGapRequest_bytes w =
     WireHeader_bytes (wq_hdr w) @ to_le 8 (wq_start_seq w) @ to_le 8 (wq_end_seq w)"

definition bytes_WireGapRequest :: "bytes \<Rightarrow> WireGapRequest" where
  "bytes_WireGapRequest b =
     \<lparr>wq_hdr = bytes_WireHeader b, wq_start_seq = of_le (field_at 20 8 b),
      wq_end_seq = of_le (field_at 28 8 b)\<rparr>"

definition WireGapResponse_bytes :: "WireGapResponse \<Rightarrow> bytes" where
  "WireGapResponse_bytes w =
     WireHeader_bytes (wr_hdr w) @ to_le 8 (wr_start_seq w) @ to_le 8 (wr_end_seq w) @
     to_le 4 (wr_payload_bytes w) @ to_le 4 (wr_pad w)"

definition bytes_WireGapResponse :: "bytes \<Rightarrow> WireGapResponse" where
  "bytes_WireGapResponse b =
     \<lparr>wr_hdr = bytes_WireHeader b, wr_start_seq = of_le (field_at 20 8 b),
      wr_end_seq = of_le (field_at 28 8 b), wr_payload_bytes = of_le (field_at 36 4 b),
      wr_pad = of_le (field_at 40 4 b)\<rparr>"

section \<open>Host structures\<close>

record Header =
  hdr_type :: MsgType
  hdr_length :: u16
  hdr_seq :: u64
  hdr_ts_ns :: u64

record AddOrder =
  ao_hdr :: Header
  ao_order_id :: u64
  ao_symbol_id :: u32
  ao_side :: Side
  ao_price :: u32
  ao_qty :: u32

record ModifyOrder =
  mo_hdr :: Header
  mo_order_id :: u64
  mo_symbol_id :: u32
  mo_side :: Side
  mo_price :: u32
  mo_qty :: u32

record DeleteOrder =
  do_hdr :: Header
  do_order_id :: u64
  do_symbol_id :: u32

record Trade =
  tr_hdr :: Header
  tr_trade_id :: u64
  tr_symbol_id :: u32
  tr_side :: Side
  tr_price :: u32
  tr_qty :: u32

record Heartbeat =
  hb_hdr :: Header
  hb_exchange_ts_ns :: u64

record GapRequest =
  gq_hdr :: Header
  gq_start_seq :: u64
  gq_end_seq :: u64

record GapResponse =
  gr_hdr :: Header
  gr_start_seq :: u64
  gr_end_seq :: u64
  gr_payload_bytes :: u32

section \<open>Encoders\<close>

fun wire_length_for :: "MsgType \<Rightarrow> u16" where
  "wire_length_for MT_AddOrder = 44"
| "wire_length_for MT_ModifyOrder = 44"
| "wire_length_for MT_DeleteOrder = 36"
| "wire_length_for MT_Trade = 44"
| "wire_length_for MT_Heartbeat = 28"
| "wire_length_for MT_GapRequest = 36"
| "wire_length_for MT_GapResponse = 44"
| "wire_length_for (MT_Other b) = 0"

text \<open>A big-endian store into, and load from, an integer field of a wire structure.\<close>

definition set_be16 :: "u16 \<Rightarrow> u16" where "set_be16 v = of_le (store_be16 v)"
definition set_be32 :: "u32 \<Rightarrow> u32" where "set_be32 v = of_le (store_be32 v)"
definition set_be64 :: "u64 \<Rightarrow> u64" where "set_be64 v = of_le (store_be64 v)"
definition get_be16 :: "u16 \<Rightarrow> u16" where "get_be16 f = load_be16 (to_le 2 f)"
definition get_be32 :: "u32 \<Rightarrow> u32" where "get_be32 f = load_be32 (to_le 4 f)"
definition get_be64 :: "u64 \<Rightarrow> u64" where "get_be64 f = load_be64 (to_le 8 f)"

definition write_header :: "WireHeader \<Rightarrow> MsgType \<Rightarrow> u64 \<Rightarrow> u64 \<Rightarrow> WireHeader" where
  "write_header wh type seq ts_ns =
     wh\<lparr>wh_type := u8_of_MsgType type, wh_pad := 0,
        wh_length := set_be16 (wire_length_for type),
        wh_seq := set_be64 seq, wh_ts_ns := set_be64 ts_ns\<rparr>"

definition decode_header :: "WireHeader \<Rightarrow> Header" where
  "decode_header wh =
     \<lparr>hdr_type = MsgType_of_u8 (wh_type wh), hdr_length = get_be16 (wh_length wh),
      hdr_seq = get_be64 (wh_seq wh), hdr_ts_ns = get_be64 (wh_ts_ns wh)\<rparr>"

definition encode_add ::
  "WireAddOrder \<Rightarrow> u64 \<Rightarrow> u64 \<Rightarrow> u64 \<Rightarrow> u32 \<Rightarrow> Side \<Rightarrow> u32 \<Rightarrow> u32 \<Rightarrow> WireAddOrder" where
  "encode_add out seq ts_ns order_id symbol_id side price qty =
     out\<lparr>wa_hdr := write_header (wa_hdr out) MT_AddOrder seq ts_ns,
         wa_order_id := set_be64 order_id, wa_symbol_id := set_be32 symbol_id,
         wa_side := u8_of_Side side, wa_pad := replicate 3 0,
         wa_price := set_be32 price, wa_qty := set_be32 qty\<rparr>"

definition encode_modify ::
  "WireModifyOrder \<Rightarrow> u64 \<Rightarrow> u64 \<Rightarrow> u64 \<Rightarrow> u32 \<Rightarrow> Side \<Rightarrow> u32 \<Rightarrow> u32 \<Rightarrow> WireModifyOrder" where
  "encode_modify out seq ts_ns order_id symbol_id side price qty =
     out\<lparr>wm_hdr := write_header (wm_hdr out) MT_ModifyOrder seq ts_ns,
         wm_order_id := set_be64 order_id, wm_symbol_id := set_be32 symbol_id,
         wm_side := u8_of_Side side, wm_pad := replicate 3 0,
         wm_price := set_be32 price, wm_qty := set_be32 qty\<rparr>"

definition encode_delete ::
  "WireDeleteOrder \<Rightarrow> u64 \<Rightarrow> u64 \<Rightarrow> u64 \<Rightarrow> u32 \<Rightarrow> WireDeleteOrder" where
  "encode_delete out seq ts_ns order_id symbol_id =
     out\<lparr>wd_hdr := write_header (wd_hdr out) MT_DeleteOrder seq ts_ns,
         wd_order_id := set_be64 order_id, wd_symbol_id := set_be32 symbol_id,
         wd_pad := replicate 4 0\<rparr>"

definition encode_trade ::
  "WireTrade \<Rightarrow> u64 \<Rightarrow> u64 \<Rightarrow> u64 \<Rightarrow> u32 \<Rightarrow> Side \<Rightarrow> u32 \<Rightarrow> u32 \<Rightarrow> WireTrade" where
  "encode_trade out seq ts_ns trade_id symbol_id side price qty =
     out\<lparr>wt_hdr := write_header (wt_hdr out) MT_Trade seq ts_ns,
         wt_trade_id := set_be64 trade_id, wt_symbol_id := set_be32 symbol_id,
         wt_side := u8_of_Side side, wt_pad := replicate 3 0,
         wt_price := set_be32 price, wt_qty := set_be32 qty\<rparr>"

definition encode_heartbeat ::
  "WireHeartbeat \<Rightarrow> u64 \<Rightarrow> u64 \<Rightarrow> u64 \<Rightarrow> WireHeartbeat" where
  "encode_heartbeat out seq ts_ns exchange_ts_ns =
     out\<lparr>whb_hdr := write_header (whb_hdr out) MT_Heartbeat seq ts_ns,
         whb_exchange_ts_ns := set_be64 exchange_ts_ns\<rparr>"

definition encode_gap_request ::
  "WireGapRequest \<Rightarrow> u64 \<Rightarrow> u64 \<Rightarrow> u64 \<Rightarrow> u64 \<Rightarrow> WireGapRequest" where
  "encode_gap_request out seq ts_ns start finish =
     out\<lparr>wq_hdr := write_header (wq_hdr out) MT_GapRequest seq ts_ns,
         wq_start_seq := set_be64 start, wq_end_seq := set_be64 finish\<rparr>"

definition encode_gap_response ::
  "WireGapResponse \<Rightarrow> u64 \<Rightarrow> u64 \<Rightarrow> u64 \<Rightarrow> u64 \<Rightarrow> u32 \<Rightarrow> WireGapResponse" where
  "encode_gap_response out seq ts_ns start finish payload_bytes =
     out\<lparr>wr_hdr := write_header (wr_hdr out) MT_GapResponse seq ts_ns,
         wr_start_seq := set_be64 start, wr_end_seq := set_be64 finish,
         wr_payload_bytes := set_be32 payload_bytes, wr_pad := 0\<rparr>"

text \<open>
  \<^verbatim>\<open>encode_message_bytes\<close> returns \<open>None\<close> for \<^verbatim>\<open>false\<close>; on success it returns the
  destination after the writes and the number stored through \<^verbatim>\<open>written\<close>. The body
  argument is ignored, as in the source.
\<close>

definition encode_message_bytes ::
  "bytes \<Rightarrow> MsgType \<Rightarrow> u64 \<Rightarrow> u64 \<Rightarrow> bytes \<Rightarrow> (bytes \<times> nat) option" where
  "encode_message_bytes dst type seq ts_ns body_host =
     (let need = unat (wire_length_for type) in
      if need = 0 \<or> length dst < need then None
      else let dst = replicate need 0 @ drop need dst;
               hdr = write_header (bytes_WireHeader dst) type seq ts_ns
           in Some (WireHeader_bytes hdr @ drop 20 dst, need))"

section \<open>Laws of the representation\<close>

lemma get_set_be [simp]:
  "get_be16 (set_be16 v) = v" "get_be32 (set_be32 w) = w" "get_be64 (set_be64 x) = x"
  by (simp_all add: get_be16_def get_be32_def get_be64_def set_be16_def set_be32_def set_be64_def
      to_le_of_le)

lemma set_get_be [simp]:
  "set_be16 (get_be16 v) = v" "set_be32 (get_be32 w) = w" "set_be64 (get_be64 x) = x"
  by (simp_all add: get_be16_def get_be32_def get_be64_def set_be16_def set_be32_def set_be64_def
      be16.store_load be32.store_load be64.store_load of_le_to_le)

lemma to_le_set_be [simp]:
  "to_le 2 (set_be16 v) = store_be16 v" "to_le 4 (set_be32 w) = store_be32 w"
  "to_le 8 (set_be64 x) = store_be64 x"
  by (simp_all add: set_be16_def set_be32_def set_be64_def to_le_of_le)

lemma MsgType_of_u8_inverse [simp]: "u8_of_MsgType (MsgType_of_u8 b) = b"
  by (simp add: MsgType_of_u8_def)

lemma wire_length_for_bounds:
  "wire_length_for t = 0 \<or> unat (wire_length_for t) \<in> {28, 36, 44}"
  by (cases t) auto

lemma field_at_append: "i = length xs \<Longrightarrow> field_at i n (xs @ ys) = take n ys"
  by (simp add: field_at_def)

lemma length_field_at [simp]: "i + n \<le> length b \<Longrightarrow> length (field_at i n b) = n"
  by (simp add: field_at_def)

lemma take_field: "take (i + n) b = take i b @ field_at i n b"
  by (simp add: field_at_def take_add)

lemma field_at_take [simp]: "i + n \<le> m \<Longrightarrow> field_at i n (take m b) = field_at i n b"
  by (simp add: field_at_def drop_take min_def)

lemma take_split_nth: "i < length b \<Longrightarrow> take (Suc i) b = take i b @ [b ! i]"
  by (rule take_Suc_conv_app_nth)

lemma length_WireHeader_bytes [simp]: "length (WireHeader_bytes w) = 20"
  by (simp add: WireHeader_bytes_def)

lemma bytes_WireHeader_append [simp]: "bytes_WireHeader (WireHeader_bytes w @ r) = w"
  by (simp add: bytes_WireHeader_def WireHeader_bytes_def field_at_def of_le_to_le)

lemma WireHeader_bytes_inverse [simp]:
  "20 \<le> length b \<Longrightarrow> WireHeader_bytes (bytes_WireHeader b) = take 20 b"
proof -
  assume "20 \<le> length b"
  then have "take 2 b = [b ! 0, b ! 1]"
    by (cases b; cases "tl b") auto
  then show ?thesis using \<open>20 \<le> length b\<close>
      take_field [of 12 8 b] take_field [of 4 8 b] take_field [of 2 2 b]
    by (simp add: WireHeader_bytes_def bytes_WireHeader_def to_le_of_le)
qed

lemmas wire_layouts [wire_simps] =
  WireAddOrder_bytes_def WireModifyOrder_bytes_def WireDeleteOrder_bytes_def WireTrade_bytes_def
  WireHeartbeat_bytes_def WireGapRequest_bytes_def WireGapResponse_bytes_def
  bytes_WireAddOrder_def bytes_WireModifyOrder_def bytes_WireDeleteOrder_def bytes_WireTrade_def
  bytes_WireHeartbeat_def bytes_WireGapRequest_def bytes_WireGapResponse_def

text \<open>Reading back a structure from its own bytes, and from the front of a longer buffer.\<close>

lemma bytes_wire_append [simp]:
  "length (wa_pad a) = 3 \<Longrightarrow> bytes_WireAddOrder (WireAddOrder_bytes a @ r) = a"
  "length (wm_pad m) = 3 \<Longrightarrow> bytes_WireModifyOrder (WireModifyOrder_bytes m @ r) = m"
  "length (wd_pad d) = 4 \<Longrightarrow> bytes_WireDeleteOrder (WireDeleteOrder_bytes d @ r) = d"
  "length (wt_pad t) = 3 \<Longrightarrow> bytes_WireTrade (WireTrade_bytes t @ r) = t"
  "bytes_WireHeartbeat (WireHeartbeat_bytes h @ r) = h"
  "bytes_WireGapRequest (WireGapRequest_bytes q @ r) = q"
  "bytes_WireGapResponse (WireGapResponse_bytes p @ r) = p"
  by (simp_all add: wire_simps field_at_def nth_append of_le_to_le)

lemma length_wire_bytes [simp]:
  "length (wa_pad a) = 3 \<Longrightarrow> length (WireAddOrder_bytes a) = 44"
  "length (wm_pad m) = 3 \<Longrightarrow> length (WireModifyOrder_bytes m) = 44"
  "length (wd_pad d) = 4 \<Longrightarrow> length (WireDeleteOrder_bytes d) = 36"
  "length (wt_pad t) = 3 \<Longrightarrow> length (WireTrade_bytes t) = 44"
  "length (WireHeartbeat_bytes h) = 28"
  "length (WireGapRequest_bytes q) = 36"
  "length (WireGapResponse_bytes p) = 44"
  by (simp_all add: wire_simps)

text \<open>The layout of a 44-byte order message and of the shorter ones, field by field.\<close>

lemma take_44_order:
  "44 \<le> length b \<Longrightarrow>
   take 44 b = take 20 b @ field_at 20 8 b @ field_at 28 4 b @ b ! 32 # field_at 33 3 b @
     field_at 36 4 b @ field_at 40 4 b"
  using take_field [of 40 4 b] take_field [of 36 4 b] take_field [of 33 3 b]
    take_split_nth [of 32 b] take_field [of 28 4 b] take_field [of 20 8 b] by simp

lemma take_44_gap:
  "take 44 b = take 20 b @ field_at 20 8 b @ field_at 28 8 b @ field_at 36 4 b @ field_at 40 4 b"
  using take_field [of 40 4 b] take_field [of 36 4 b] take_field [of 28 8 b]
    take_field [of 20 8 b] by simp

lemma take_36_delete:
  "take 36 b = take 20 b @ field_at 20 8 b @ field_at 28 4 b @ field_at 32 4 b"
  using take_field [of 32 4 b] take_field [of 28 4 b] take_field [of 20 8 b] by simp

lemma take_36_gap: "take 36 b = take 20 b @ field_at 20 8 b @ field_at 28 8 b"
  using take_field [of 28 8 b] take_field [of 20 8 b] by simp

lemma take_28: "take 28 b = take 20 b @ field_at 20 8 b"
  using take_field [of 20 8 b] by simp

lemma wire_bytes_inverse [simp]:
  "44 \<le> length b \<Longrightarrow> WireAddOrder_bytes (bytes_WireAddOrder b) = take 44 b"
  "44 \<le> length b \<Longrightarrow> WireModifyOrder_bytes (bytes_WireModifyOrder b) = take 44 b"
  "36 \<le> length b \<Longrightarrow> WireDeleteOrder_bytes (bytes_WireDeleteOrder b) = take 36 b"
  "44 \<le> length b \<Longrightarrow> WireTrade_bytes (bytes_WireTrade b) = take 44 b"
  "28 \<le> length b \<Longrightarrow> WireHeartbeat_bytes (bytes_WireHeartbeat b) = take 28 b"
  "36 \<le> length b \<Longrightarrow> WireGapRequest_bytes (bytes_WireGapRequest b) = take 36 b"
  "44 \<le> length b \<Longrightarrow> WireGapResponse_bytes (bytes_WireGapResponse b) = take 44 b"
  by (simp_all add: wire_simps to_le_of_le
      flip: take_44_order take_44_gap take_36_delete take_36_gap take_28)

lemma decode_write_header [simp]:
  "MsgType_of_u8 (u8_of_MsgType t) = t \<Longrightarrow>
   decode_header (write_header w t s ts) =
     \<lparr>hdr_type = t, hdr_length = wire_length_for t, hdr_seq = s, hdr_ts_ns = ts\<rparr>"
  by (simp add: decode_header_def write_header_def)

lemma MsgType_roundtrip [simp]:
  "MsgType_of_u8 1 = MT_AddOrder" "MsgType_of_u8 2 = MT_ModifyOrder"
  "MsgType_of_u8 3 = MT_DeleteOrder" "MsgType_of_u8 4 = MT_Trade"
  "MsgType_of_u8 5 = MT_Heartbeat" "MsgType_of_u8 6 = MT_GapRequest"
  "MsgType_of_u8 7 = MT_GapResponse"
  by (simp_all add: MsgType_of_u8_def)

end
