(* ===== verification/Parser.thy ===== *)
theory Parser
  imports Protocol
begin

text \<open>
  The parser of \<^verbatim>\<open>include/mdp/parser.hpp\<close> and \<^verbatim>\<open>src/parser.cpp\<close>: one frame from the front
  of a buffer, with a status instead of an exception. The theorems give the exact
  condition of every status, the round trip with every encoder in both directions, and
  that the result depends on the consumed bytes only.
\<close>

section \<open>Definitions\<close>

datatype ParseStatus = Ok | Truncated | BadLength | UnknownType | BadSide

datatype ParsedPayload = Monostate | P_AddOrder AddOrder | P_ModifyOrder ModifyOrder
  | P_DeleteOrder DeleteOrder | P_Trade Trade | P_Heartbeat Heartbeat
  | P_GapRequest GapRequest | P_GapResponse GapResponse

record ParsedMessage =
  pm_status :: ParseStatus
  pm_payload :: ParsedPayload
  pm_consumed :: nat

definition init_ParsedMessage :: ParsedMessage where
  "init_ParsedMessage = \<lparr>pm_status = Truncated, pm_payload = Monostate, pm_consumed = 0\<rparr>"

text \<open>\<^verbatim>\<open>decode_side\<close> returns its status and, when it is \<open>Ok\<close>, the side it stored.\<close>

definition decode_side :: "u8 \<Rightarrow> ParseStatus \<times> Side option" where
  "decode_side raw =
     (if raw = u8_of_Side Buy \<or> raw = u8_of_Side Sell
      then (Ok, Some (if raw = u8_of_Side Buy then Buy else Sell))
      else (BadSide, None))"

text \<open>The body of the \<^verbatim>\<open>switch\<close>, with the header decoded and its length checked.\<close>

fun parse_body :: "ParsedMessage \<Rightarrow> Header \<Rightarrow> MsgType \<Rightarrow> bytes \<Rightarrow> ParsedMessage" where
  "parse_body out hdr MT_AddOrder bs =
     (let w = bytes_WireAddOrder bs in
      case decode_side (wa_side w) of
        (Ok, Some side) \<Rightarrow>
          out\<lparr>pm_payload := P_AddOrder \<lparr>ao_hdr = hdr, ao_order_id = get_be64 (wa_order_id w),
                ao_symbol_id = get_be32 (wa_symbol_id w), ao_side = side,
                ao_price = get_be32 (wa_price w), ao_qty = get_be32 (wa_qty w)\<rparr>,
              pm_status := Ok\<rparr>
      | _ \<Rightarrow> out\<lparr>pm_status := BadSide\<rparr>)"
| "parse_body out hdr MT_ModifyOrder bs =
     (let w = bytes_WireModifyOrder bs in
      case decode_side (wm_side w) of
        (Ok, Some side) \<Rightarrow>
          out\<lparr>pm_payload := P_ModifyOrder \<lparr>mo_hdr = hdr, mo_order_id = get_be64 (wm_order_id w),
                mo_symbol_id = get_be32 (wm_symbol_id w), mo_side = side,
                mo_price = get_be32 (wm_price w), mo_qty = get_be32 (wm_qty w)\<rparr>,
              pm_status := Ok\<rparr>
      | _ \<Rightarrow> out\<lparr>pm_status := BadSide\<rparr>)"
| "parse_body out hdr MT_DeleteOrder bs =
     (let w = bytes_WireDeleteOrder bs in
      out\<lparr>pm_payload := P_DeleteOrder \<lparr>do_hdr = hdr, do_order_id = get_be64 (wd_order_id w),
            do_symbol_id = get_be32 (wd_symbol_id w)\<rparr>,
          pm_status := Ok\<rparr>)"
| "parse_body out hdr MT_Trade bs =
     (let w = bytes_WireTrade bs in
      case decode_side (wt_side w) of
        (Ok, Some side) \<Rightarrow>
          out\<lparr>pm_payload := P_Trade \<lparr>tr_hdr = hdr, tr_trade_id = get_be64 (wt_trade_id w),
                tr_symbol_id = get_be32 (wt_symbol_id w), tr_side = side,
                tr_price = get_be32 (wt_price w), tr_qty = get_be32 (wt_qty w)\<rparr>,
              pm_status := Ok\<rparr>
      | _ \<Rightarrow> out\<lparr>pm_status := BadSide\<rparr>)"
| "parse_body out hdr MT_Heartbeat bs =
     (let w = bytes_WireHeartbeat bs in
      out\<lparr>pm_payload := P_Heartbeat \<lparr>hb_hdr = hdr,
            hb_exchange_ts_ns = get_be64 (whb_exchange_ts_ns w)\<rparr>,
          pm_status := Ok\<rparr>)"
| "parse_body out hdr MT_GapRequest bs =
     (let w = bytes_WireGapRequest bs in
      out\<lparr>pm_payload := P_GapRequest \<lparr>gq_hdr = hdr, gq_start_seq = get_be64 (wq_start_seq w),
            gq_end_seq = get_be64 (wq_end_seq w)\<rparr>,
          pm_status := Ok\<rparr>)"
| "parse_body out hdr MT_GapResponse bs =
     (let w = bytes_WireGapResponse bs in
      out\<lparr>pm_payload := P_GapResponse \<lparr>gr_hdr = hdr, gr_start_seq = get_be64 (wr_start_seq w),
            gr_end_seq = get_be64 (wr_end_seq w),
            gr_payload_bytes = get_be32 (wr_payload_bytes w)\<rparr>,
          pm_status := Ok\<rparr>)"
| "parse_body out hdr (MT_Other b) bs = out\<lparr>pm_status := UnknownType\<rparr>"

definition parse_message :: "bytes \<Rightarrow> ParsedMessage" where
  "parse_message bs =
     (let out = init_ParsedMessage in
      if length bs < 20 then out\<lparr>pm_status := Truncated\<rparr>
      else
        let hdr = decode_header (bytes_WireHeader bs) in
        if unat (hdr_length hdr) < 20 \<or> unat (hdr_length hdr) > kMaxMessageSize
        then out\<lparr>pm_status := BadLength\<rparr>
        else if length bs < unat (hdr_length hdr) then out\<lparr>pm_status := Truncated\<rparr>
        else
          let expected = wire_length_for (hdr_type hdr) in
          if expected = 0 then out\<lparr>pm_status := UnknownType\<rparr>
          else if hdr_length hdr \<noteq> expected then out\<lparr>pm_status := BadLength\<rparr>
          else parse_body (out\<lparr>pm_consumed := unat (hdr_length hdr)\<rparr>) hdr (hdr_type hdr) bs)"

fun payload_header :: "ParsedPayload \<Rightarrow> Header option" where
  "payload_header Monostate = None"
| "payload_header (P_AddOrder m) = Some (ao_hdr m)"
| "payload_header (P_ModifyOrder m) = Some (mo_hdr m)"
| "payload_header (P_DeleteOrder m) = Some (do_hdr m)"
| "payload_header (P_Trade m) = Some (tr_hdr m)"
| "payload_header (P_Heartbeat m) = Some (hb_hdr m)"
| "payload_header (P_GapRequest m) = Some (gq_hdr m)"
| "payload_header (P_GapResponse m) = Some (gr_hdr m)"

definition message_header :: "ParsedMessage \<Rightarrow> Header option" where
  "message_header m = payload_header (pm_payload m)"

section \<open>What the encoders write\<close>

text \<open>
  The frame of a payload: the bytes that the matching encoder writes into a zeroed
  structure for the payload's fields. This is how the simulator, the recovery client and
  the tests produce frames.
\<close>

definition zero_WireHeader :: WireHeader where
  "zero_WireHeader = \<lparr>wh_type = 0, wh_pad = 0, wh_length = 0, wh_seq = 0, wh_ts_ns = 0\<rparr>"

definition add_frame :: "u64 \<Rightarrow> u64 \<Rightarrow> u64 \<Rightarrow> u32 \<Rightarrow> Side \<Rightarrow> u32 \<Rightarrow> u32 \<Rightarrow> bytes" where
  "add_frame seq ts oid sid side px qty =
     WireAddOrder_bytes (encode_add
       \<lparr>wa_hdr = zero_WireHeader, wa_order_id = 0, wa_symbol_id = 0, wa_side = 0,
        wa_pad = replicate 3 0, wa_price = 0, wa_qty = 0\<rparr> seq ts oid sid side px qty)"

definition modify_frame :: "u64 \<Rightarrow> u64 \<Rightarrow> u64 \<Rightarrow> u32 \<Rightarrow> Side \<Rightarrow> u32 \<Rightarrow> u32 \<Rightarrow> bytes" where
  "modify_frame seq ts oid sid side px qty =
     WireModifyOrder_bytes (encode_modify
       \<lparr>wm_hdr = zero_WireHeader, wm_order_id = 0, wm_symbol_id = 0, wm_side = 0,
        wm_pad = replicate 3 0, wm_price = 0, wm_qty = 0\<rparr> seq ts oid sid side px qty)"

definition delete_frame :: "u64 \<Rightarrow> u64 \<Rightarrow> u64 \<Rightarrow> u32 \<Rightarrow> bytes" where
  "delete_frame seq ts oid sid =
     WireDeleteOrder_bytes (encode_delete
       \<lparr>wd_hdr = zero_WireHeader, wd_order_id = 0, wd_symbol_id = 0, wd_pad = replicate 4 0\<rparr>
       seq ts oid sid)"

definition trade_frame :: "u64 \<Rightarrow> u64 \<Rightarrow> u64 \<Rightarrow> u32 \<Rightarrow> Side \<Rightarrow> u32 \<Rightarrow> u32 \<Rightarrow> bytes" where
  "trade_frame seq ts tid sid side px qty =
     WireTrade_bytes (encode_trade
       \<lparr>wt_hdr = zero_WireHeader, wt_trade_id = 0, wt_symbol_id = 0, wt_side = 0,
        wt_pad = replicate 3 0, wt_price = 0, wt_qty = 0\<rparr> seq ts tid sid side px qty)"

definition heartbeat_frame :: "u64 \<Rightarrow> u64 \<Rightarrow> u64 \<Rightarrow> bytes" where
  "heartbeat_frame seq ts ets =
     WireHeartbeat_bytes (encode_heartbeat
       \<lparr>whb_hdr = zero_WireHeader, whb_exchange_ts_ns = 0\<rparr> seq ts ets)"

definition gap_request_frame :: "u64 \<Rightarrow> u64 \<Rightarrow> u64 \<Rightarrow> u64 \<Rightarrow> bytes" where
  "gap_request_frame seq ts start finish =
     WireGapRequest_bytes (encode_gap_request
       \<lparr>wq_hdr = zero_WireHeader, wq_start_seq = 0, wq_end_seq = 0\<rparr> seq ts start finish)"

definition gap_response_frame :: "u64 \<Rightarrow> u64 \<Rightarrow> u64 \<Rightarrow> u64 \<Rightarrow> u32 \<Rightarrow> bytes" where
  "gap_response_frame seq ts start finish n =
     WireGapResponse_bytes (encode_gap_response
       \<lparr>wr_hdr = zero_WireHeader, wr_start_seq = 0, wr_end_seq = 0, wr_payload_bytes = 0,
        wr_pad = 0\<rparr> seq ts start finish n)"

lemmas frame_defs = add_frame_def modify_frame_def delete_frame_def trade_frame_def
  heartbeat_frame_def gap_request_frame_def gap_response_frame_def

lemmas encode_defs = encode_add_def encode_modify_def encode_delete_def encode_trade_def
  encode_heartbeat_def encode_gap_request_def encode_gap_response_def

fun payload_type :: "ParsedPayload \<Rightarrow> MsgType option" where
  "payload_type Monostate = None"
| "payload_type (P_AddOrder m) = Some MT_AddOrder"
| "payload_type (P_ModifyOrder m) = Some MT_ModifyOrder"
| "payload_type (P_DeleteOrder m) = Some MT_DeleteOrder"
| "payload_type (P_Trade m) = Some MT_Trade"
| "payload_type (P_Heartbeat m) = Some MT_Heartbeat"
| "payload_type (P_GapRequest m) = Some MT_GapRequest"
| "payload_type (P_GapResponse m) = Some MT_GapResponse"

text \<open>A payload whose header carries its own type and that type's length.\<close>

definition payload_wf :: "ParsedPayload \<Rightarrow> bool" where
  "payload_wf p =
     (case (payload_type p, payload_header p) of
        (Some t, Some h) \<Rightarrow> hdr_type h = t \<and> hdr_length h = wire_length_for t
      | _ \<Rightarrow> False)"

fun payload_frame :: "ParsedPayload \<Rightarrow> bytes" where
  "payload_frame Monostate = []"
| "payload_frame (P_AddOrder m) = add_frame (hdr_seq (ao_hdr m)) (hdr_ts_ns (ao_hdr m))
     (ao_order_id m) (ao_symbol_id m) (ao_side m) (ao_price m) (ao_qty m)"
| "payload_frame (P_ModifyOrder m) = modify_frame (hdr_seq (mo_hdr m)) (hdr_ts_ns (mo_hdr m))
     (mo_order_id m) (mo_symbol_id m) (mo_side m) (mo_price m) (mo_qty m)"
| "payload_frame (P_DeleteOrder m) = delete_frame (hdr_seq (do_hdr m)) (hdr_ts_ns (do_hdr m))
     (do_order_id m) (do_symbol_id m)"
| "payload_frame (P_Trade m) = trade_frame (hdr_seq (tr_hdr m)) (hdr_ts_ns (tr_hdr m))
     (tr_trade_id m) (tr_symbol_id m) (tr_side m) (tr_price m) (tr_qty m)"
| "payload_frame (P_Heartbeat m) = heartbeat_frame (hdr_seq (hb_hdr m)) (hdr_ts_ns (hb_hdr m))
     (hb_exchange_ts_ns m)"
| "payload_frame (P_GapRequest m) = gap_request_frame (hdr_seq (gq_hdr m)) (hdr_ts_ns (gq_hdr m))
     (gq_start_seq m) (gq_end_seq m)"
| "payload_frame (P_GapResponse m) = gap_response_frame (hdr_seq (gr_hdr m))
     (hdr_ts_ns (gr_hdr m)) (gr_start_seq m) (gr_end_seq m) (gr_payload_bytes m)"

section \<open>Locality\<close>

lemma field_at_append_front [simp]: "i + n \<le> length b \<Longrightarrow> field_at i n (b @ r) = field_at i n b"
  by (simp add: field_at_def)

lemma bytes_WireHeader_front [simp]:
  "20 \<le> length b \<Longrightarrow> bytes_WireHeader (b @ r) = bytes_WireHeader b"
  by (auto simp: bytes_WireHeader_def nth_append)

lemma parse_body_front:
  "unat (wire_length_for t) \<le> length b \<Longrightarrow> parse_body out hdr t (b @ r) = parse_body out hdr t b"
  by (cases t) (simp_all add: bytes_WireAddOrder_def bytes_WireModifyOrder_def
      bytes_WireDeleteOrder_def bytes_WireTrade_def bytes_WireHeartbeat_def
      bytes_WireGapRequest_def bytes_WireGapResponse_def nth_append)

lemma parse_message_short:
  "length b < 20 \<Longrightarrow> parse_message b = init_ParsedMessage\<lparr>pm_status := Truncated\<rparr>"
  by (simp add: parse_message_def)

lemma parse_message_long:
  assumes "20 \<le> length b" "h = decode_header (bytes_WireHeader b)"
  shows "parse_message b =
     (if unat (hdr_length h) < 20 \<or> unat (hdr_length h) > kMaxMessageSize
      then init_ParsedMessage\<lparr>pm_status := BadLength\<rparr>
      else if length b < unat (hdr_length h) then init_ParsedMessage\<lparr>pm_status := Truncated\<rparr>
      else if wire_length_for (hdr_type h) = 0 then init_ParsedMessage\<lparr>pm_status := UnknownType\<rparr>
      else if hdr_length h \<noteq> wire_length_for (hdr_type h)
      then init_ParsedMessage\<lparr>pm_status := BadLength\<rparr>
      else parse_body (init_ParsedMessage\<lparr>pm_consumed := unat (hdr_length h)\<rparr>) h (hdr_type h) b)"
  using assms by (simp only: parse_message_def Let_def not_less [symmetric] if_False)

lemma parse_message_front:
  assumes "pm_status (parse_message b) \<noteq> Truncated"
  shows "parse_message (b @ r) = parse_message b"
proof -
  have len: "20 \<le> length b"
    using assms by (cases "20 \<le> length b") (auto simp: parse_message_short init_ParsedMessage_def)
  let ?h = "decode_header (bytes_WireHeader b)"
  have hdr: "?h = decode_header (bytes_WireHeader (b @ r))" and len': "20 \<le> length (b @ r)"
    using len by simp_all
  note eq = parse_message_long [OF len refl] and eq' = parse_message_long [OF len' hdr]
  show ?thesis
    using assms unfolding eq eq'
    by (auto simp: parse_body_front init_ParsedMessage_def split: if_splits)
qed

lemma decode_side_simps [simp]:
  "decode_side (u8_of_Side s) = (Ok, Some s)"
  "fst (decode_side raw) = Ok \<longleftrightarrow> raw = 0 \<or> raw = 1"
  by (cases s) (auto simp: decode_side_def)

lemma decode_side_cases:
  obtains (ok) s where "raw = u8_of_Side s" "raw = 0 \<or> raw = 1" "decode_side raw = (Ok, Some s)"
  | (bad) "raw \<noteq> 0" "raw \<noteq> 1" "decode_side raw = (BadSide, None)"
proof (cases "raw = 0 \<or> raw = 1")
  case True
  then obtain s where "raw = u8_of_Side s" by (metis u8_of_Side.simps)
  then show thesis using ok decode_side_simps(1) True by metis
next
  case False
  then show thesis using bad by (simp add: decode_side_def)
qed

text \<open>The bytes at which a message of a type carries padding, which the parser ignores.\<close>

fun pad_offsets :: "MsgType \<Rightarrow> nat list" where
  "pad_offsets MT_AddOrder = [1, 33, 34, 35]"
| "pad_offsets MT_ModifyOrder = [1, 33, 34, 35]"
| "pad_offsets MT_DeleteOrder = [1, 32, 33, 34, 35]"
| "pad_offsets MT_Trade = [1, 33, 34, 35]"
| "pad_offsets MT_Heartbeat = [1]"
| "pad_offsets MT_GapRequest = [1]"
| "pad_offsets MT_GapResponse = [1, 40, 41, 42, 43]"
| "pad_offsets (MT_Other b) = []"

definition clear_at :: "nat list \<Rightarrow> bytes \<Rightarrow> bytes" where
  "clear_at is b = foldl (\<lambda>b i. b[i := 0]) b is"

definition has_side :: "MsgType \<Rightarrow> bool" where
  "has_side t \<longleftrightarrow> t = MT_AddOrder \<or> t = MT_ModifyOrder \<or> t = MT_Trade"

lemma parse_body_status:
  "wire_length_for t \<noteq> 0 \<Longrightarrow>
   pm_status (parse_body out hdr t b) = (if has_side t \<and> b ! 32 \<notin> {0, 1} then BadSide else Ok)"
  by (cases t; cases rule: decode_side_cases [of "b ! 32"])
    (auto simp: has_side_def bytes_WireAddOrder_def bytes_WireModifyOrder_def
      bytes_WireTrade_def Let_def)

lemma parse_body_consumed [simp]: "pm_consumed (parse_body out hdr t b) = pm_consumed out"
  by (cases t) (auto simp: Let_def split: prod.splits ParseStatus.splits option.splits)

lemma parse_body_not_ok:
  "pm_status (parse_body out hdr t b) \<noteq> Ok \<Longrightarrow> pm_payload (parse_body out hdr t b) = pm_payload out"
  by (cases t) (auto simp: Let_def split: prod.splits ParseStatus.splits option.splits)

lemma frame_header:
  "bytes_WireHeader (WireAddOrder_bytes a @ r) = wa_hdr a"
  "bytes_WireHeader (WireModifyOrder_bytes m @ r) = wm_hdr m"
  "bytes_WireHeader (WireDeleteOrder_bytes d @ r) = wd_hdr d"
  "bytes_WireHeader (WireTrade_bytes t @ r) = wt_hdr t"
  "bytes_WireHeader (WireHeartbeat_bytes h @ r) = whb_hdr h"
  "bytes_WireHeader (WireGapRequest_bytes q @ r) = wq_hdr q"
  "bytes_WireHeader (WireGapResponse_bytes p @ r) = wr_hdr p"
  by (simp_all add: WireAddOrder_bytes_def WireModifyOrder_bytes_def WireDeleteOrder_bytes_def
      WireTrade_bytes_def WireHeartbeat_bytes_def WireGapRequest_bytes_def
      WireGapResponse_bytes_def)

lemma header_eta:
  "h = \<lparr>hdr_type = hdr_type h, hdr_length = hdr_length h, hdr_seq = hdr_seq h,
        hdr_ts_ns = hdr_ts_ns h\<rparr>"
  by simp

lemma length_payload_frame:
  "payload_wf p \<Longrightarrow> length (payload_frame p) = unat (wire_length_for (the (payload_type p)))"
  by (cases p) (simp_all add: payload_wf_def frame_defs encode_defs)

lemma parse_payload_frame:
  assumes "payload_wf p"
  shows "parse_message (payload_frame p @ rest) =
    \<lparr>pm_status = Ok, pm_payload = p, pm_consumed = length (payload_frame p)\<rparr>"
proof -
  obtain t h where t: "payload_type p = Some t" and h: "payload_header p = Some h"
    and th: "hdr_type h = t" "hdr_length h = wire_length_for t"
    using assms by (auto simp: payload_wf_def split: option.splits)
  have len: "length (payload_frame p) = unat (wire_length_for t)"
    using length_payload_frame [OF assms] t by simp
  have pos: "wire_length_for t \<noteq> 0" "20 \<le> unat (wire_length_for t)"
      "unat (wire_length_for t) \<le> 44"
    using t by (cases p; auto)+
  have hdr: "h = decode_header (bytes_WireHeader (payload_frame p @ rest))"
    using t h th by (cases p) (simp_all add: frame_defs frame_header encode_defs)
  have "parse_message (payload_frame p @ rest) =
    parse_body (init_ParsedMessage\<lparr>pm_consumed := unat (wire_length_for t)\<rparr>) h t
      (payload_frame p @ rest)"
    using parse_message_long [of "payload_frame p @ rest", OF _ hdr] len pos th
    by (simp add: kMaxMessageSize_def not_less)
  also have "\<dots> = \<lparr>pm_status = Ok, pm_payload = p, pm_consumed = length (payload_frame p)\<rparr>"
    using t h th by (cases p)
      (simp_all add: frame_defs encode_defs len init_ParsedMessage_def)
  finally show ?thesis .
qed

text \<open>Re-encoding what the switch decoded: the frame's bytes with the padding cleared.\<close>

lemma store_get_be [simp]:
  "store_be16 (get_be16 v) = to_le 2 v" "store_be32 (get_be32 w) = to_le 4 w"
  "store_be64 (get_be64 x) = to_le 8 x"
  by (simp_all add: get_be16_def get_be32_def get_be64_def be16.store_load be32.store_load
      be64.store_load)

lemma clear_pad3: "length xs = 3 \<Longrightarrow> xs[0 := a, Suc 0 := a, 2 := a] = replicate 3 a"
  by (auto simp: numeral_3_eq_3 numeral_2_eq_2 length_Suc_conv)

lemma clear_pad4: "length xs = 4 \<Longrightarrow> xs[0 := a, Suc 0 := a, 2 := a, 3 := a] = replicate 4 a"
  by (auto simp: eval_nat_numeral length_Suc_conv)

lemma write_header_bytes:
  assumes "20 \<le> length b" "h = decode_header (bytes_WireHeader b)" "hdr_type h = t"
    "hdr_length h = wire_length_for t"
  shows "WireHeader_bytes (write_header z t (hdr_seq h) (hdr_ts_ns h)) = (take 20 b)[Suc 0 := 0]"
proof -
  let ?w = "bytes_WireHeader b"
  have "u8_of_MsgType t = wh_type ?w"
    using assms(2) by (simp add: decode_header_def flip: assms(3))
  moreover have "wire_length_for t = get_be16 (wh_length ?w)"
    unfolding assms(4) [symmetric] assms(2) decode_header_def by simp
  ultimately have "write_header z t (hdr_seq h) (hdr_ts_ns h) = ?w\<lparr>wh_pad := 0\<rparr>"
    unfolding write_header_def assms(2) decode_header_def by simp
  moreover have "WireHeader_bytes (?w\<lparr>wh_pad := 0\<rparr>) = (WireHeader_bytes ?w)[Suc 0 := 0]"
    by (simp add: WireHeader_bytes_def)
  ultimately show ?thesis using assms(1) by simp
qed

lemma clear_at_simps [simp]: "clear_at [] b = b" "clear_at (i # is) b = clear_at is (b[i := 0])"
  by (simp_all add: clear_at_def)

lemma parse_body_frame:
  assumes len: "unat (wire_length_for t) \<le> length b" and t: "wire_length_for t \<noteq> 0"
    and h: "h = decode_header (bytes_WireHeader b)" "hdr_type h = t"
      "hdr_length h = wire_length_for t"
    and ok: "pm_status (parse_body out h t b) = Ok"
  shows "payload_frame (pm_payload (parse_body out h t b)) =
      clear_at (pad_offsets t) (take (unat (wire_length_for t)) b)"
proof -
  have "20 \<le> length b" using len t wire_length_for_bounds [of t] by auto
  note hdr = write_header_bytes [OF this h]
  show ?thesis
  proof (cases t)
    case MT_AddOrder
    obtain s where "b ! 32 = u8_of_Side s" "decode_side (b ! 32) = (Ok, Some s)"
      using ok MT_AddOrder
      by (cases rule: decode_side_cases [of "b ! 32"]) (auto simp: bytes_WireAddOrder_def)
    then show ?thesis using len hdr MT_AddOrder
      by (simp add: frame_defs encode_defs wire_simps take_44_order list_update_append
          to_le_of_le clear_pad3)
  next
    case MT_ModifyOrder
    obtain s where "b ! 32 = u8_of_Side s" "decode_side (b ! 32) = (Ok, Some s)"
      using ok MT_ModifyOrder
      by (cases rule: decode_side_cases [of "b ! 32"]) (auto simp: bytes_WireModifyOrder_def)
    then show ?thesis using len hdr MT_ModifyOrder
      by (simp add: frame_defs encode_defs wire_simps take_44_order list_update_append
          to_le_of_le clear_pad3)
  next
    case MT_Trade
    obtain s where "b ! 32 = u8_of_Side s" "decode_side (b ! 32) = (Ok, Some s)"
      using ok MT_Trade
      by (cases rule: decode_side_cases [of "b ! 32"]) (auto simp: bytes_WireTrade_def)
    then show ?thesis using len hdr MT_Trade
      by (simp add: frame_defs encode_defs wire_simps take_44_order list_update_append
          to_le_of_le clear_pad3)
  next
    case MT_DeleteOrder
    then show ?thesis using len hdr
      by (simp add: frame_defs encode_defs wire_simps take_36_delete list_update_append
          to_le_of_le clear_pad4)
  next
    case MT_GapResponse
    have "to_le 4 (0 :: u32) = replicate 4 0" by (simp add: eval_nat_numeral)
    then show ?thesis using len hdr MT_GapResponse
      by (simp add: frame_defs encode_defs wire_simps take_44_gap list_update_append
          to_le_of_le clear_pad4)
  qed (use t len hdr in \<open>simp_all add: frame_defs encode_defs wire_simps take_28 take_36_gap
      list_update_append to_le_of_le\<close>)
qed

lemma parse_body_wf:
  assumes "hdr_type h = t" "hdr_length h = wire_length_for t" "wire_length_for t \<noteq> 0"
    and "pm_status (parse_body out h t b) = Ok"
  shows "payload_wf (pm_payload (parse_body out h t b)) \<and>
    payload_type (pm_payload (parse_body out h t b)) = Some t \<and>
    payload_header (pm_payload (parse_body out h t b)) = Some h"
  using assms
  by (cases t) (auto simp: payload_wf_def Let_def
      split: prod.splits ParseStatus.splits option.splits)

lemma decode_header_bytes:
  "20 \<le> length b \<Longrightarrow> decode_header (bytes_WireHeader b) =
     \<lparr>hdr_type = MsgType_of_u8 (b ! 0), hdr_length = load_be16 (drop 2 b),
      hdr_seq = load_be64 (drop 4 b), hdr_ts_ns = load_be64 (drop 12 b)\<rparr>"
  by (simp add: decode_header_def bytes_WireHeader_def get_be16_def get_be64_def to_le_of_le
      field_at_def be16.load_take be64.load_take)

lemma parse_okD:
  assumes "pm_status (parse_message b) = Ok"
  defines "h \<equiv> decode_header (bytes_WireHeader b)"
  shows "20 \<le> length b" "hdr_length h = wire_length_for (hdr_type h)"
    "wire_length_for (hdr_type h) \<noteq> 0"
    "unat (wire_length_for (hdr_type h)) \<le> length b"
    "parse_message b = parse_body (init_ParsedMessage\<lparr>pm_consumed :=
       unat (wire_length_for (hdr_type h))\<rparr>) h (hdr_type h) b"
proof -
  show "20 \<le> length b"
    using assms(1) by (cases "20 \<le> length b") (auto simp: parse_message_short)
  note eq = parse_message_long [OF this h_def [THEN meta_eq_to_obj_eq]]
  show "hdr_length h = wire_length_for (hdr_type h)"
    "wire_length_for (hdr_type h) \<noteq> 0"
    "unat (wire_length_for (hdr_type h)) \<le> length b"
    "parse_message b = parse_body (init_ParsedMessage\<lparr>pm_consumed :=
       unat (wire_length_for (hdr_type h))\<rparr>) h (hdr_type h) b"
    using assms(1) unfolding eq by (auto split: if_splits)
qed

lemma parse_ok_consumed:
  assumes ok: "pm_status (parse_message b) = Ok"
  shows "20 \<le> pm_consumed (parse_message b)" "pm_consumed (parse_message b) \<le> length b"
    "pm_consumed (parse_message b) \<le> kMaxMessageSize"
    "parse_message (take (pm_consumed (parse_message b)) b) = parse_message b"
proof -
  define h where "h = decode_header (bytes_WireHeader b)"
  define n where "n = unat (wire_length_for (hdr_type h))"
  note d = parse_okD [OF ok, folded h_def, folded n_def]
  have c: "pm_consumed (parse_message b) = n" by (subst d(5)) simp
  have n: "20 \<le> n" "n \<le> kMaxMessageSize"
    using d(3) wire_length_for_bounds [of "hdr_type h"] by (auto simp: n_def kMaxMessageSize_def)
  have b: "b = take n b @ drop n b" and l: "length (take n b) = n" using d(4) by simp_all
  have hh: "h = decode_header (bytes_WireHeader (take n b))"
    using bytes_WireHeader_front [of "take n b" "drop n b"] l n by (simp add: h_def)
  have "parse_message (take n b) =
      parse_body (init_ParsedMessage\<lparr>pm_consumed := n\<rparr>) h (hdr_type h) (take n b)"
    using parse_message_long [OF _ hh] l n d by (simp add: n_def not_less)
  also have "\<dots> = parse_message b"
    using parse_body_front [of "hdr_type h" "take n b" _ h "drop n b"] l d(5)
    by (simp add: n_def)
  finally show "parse_message (take (pm_consumed (parse_message b)) b) = parse_message b"
    by (simp add: c)
  show "20 \<le> pm_consumed (parse_message b)" "pm_consumed (parse_message b) \<le> length b"
    "pm_consumed (parse_message b) \<le> kMaxMessageSize"
    using n d(4) by (simp_all add: c)
qed

lemma parse_ok_header:
  "pm_status (parse_message b) = Ok \<Longrightarrow>
   message_header (parse_message b) = Some (decode_header (bytes_WireHeader b))"
  using parse_okD [of b] parse_body_wf unfolding message_header_def by metis

section \<open>Properties\<close>

text \<open>
  C22: the parser accepts exactly the buffers that start with a well-formed frame: a full
  header, one of the seven types, the length field equal to that type's wire length, that
  many bytes present and, for the three types with a side, a side byte of 0 or 1.
\<close>

theorem parse_accepts_exactly:
  "pm_status (parse_message b) = Ok \<longleftrightarrow>
     20 \<le> length b \<and> wire_length_for (MsgType_of_u8 (b ! 0)) \<noteq> 0 \<and>
     load_be16 (drop 2 b) = wire_length_for (MsgType_of_u8 (b ! 0)) \<and>
     unat (load_be16 (drop 2 b)) \<le> length b \<and>
     (if has_side (MsgType_of_u8 (b ! 0)) then b ! 32 \<in> {0, 1} else True)"
proof (cases "20 \<le> length b")
  case True
  have "wire_length_for t \<noteq> 0 \<Longrightarrow> 20 \<le> unat (wire_length_for t) \<and> unat (wire_length_for t) \<le> 44" for t
    using wire_length_for_bounds [of t] by auto
  then show ?thesis
    using parse_message_long [OF True refl] True
    by (auto simp: decode_header_bytes parse_body_status kMaxMessageSize_def
        init_ParsedMessage_def not_less split: if_splits)
qed (simp add: parse_message_short)

text \<open>
  A rejected buffer leaves no payload, and nothing is reported as consumed unless the
  frame was complete and only its side byte was wrong; an accepted frame carries a payload
  and its exact wire length is consumed.
\<close>

theorem parse_reject_reports:
  "(pm_payload (parse_message b) = Monostate \<longleftrightarrow> pm_status (parse_message b) \<noteq> Ok) \<and>
   pm_consumed (parse_message b) =
     (case pm_status (parse_message b) of
        Ok \<Rightarrow> unat (wire_length_for (MsgType_of_u8 (b ! 0)))
      | BadSide \<Rightarrow> 44 | _ \<Rightarrow> 0)"
proof (cases "20 \<le> length b")
  case True
  define h where "h = decode_header (bytes_WireHeader b)"
  have t: "hdr_type h = MsgType_of_u8 (b ! 0)"
    using True by (simp add: h_def decode_header_bytes)
  have side: "has_side t \<Longrightarrow> wire_length_for t = 44" for t by (auto simp: has_side_def)
  let ?out = "init_ParsedMessage\<lparr>pm_consumed := unat (hdr_length h)\<rparr>"
  have body: "(pm_payload (parse_body ?out h (hdr_type h) b) = Monostate) =
      (pm_status (parse_body ?out h (hdr_type h) b) \<noteq> Ok)"
    if "hdr_length h = wire_length_for (hdr_type h)" "wire_length_for (hdr_type h) \<noteq> 0"
    using parse_body_wf [OF refl that, of ?out b] parse_body_not_ok [of ?out h "hdr_type h" b]
    by (auto simp: init_ParsedMessage_def payload_wf_def)
  show ?thesis
    using body side [of "hdr_type h"] unfolding parse_message_long [OF True h_def]
    by (simp add: parse_body_status t) (simp add: init_ParsedMessage_def)
qed (simp add: parse_message_short init_ParsedMessage_def)

text \<open>
  C14: parsing what an encoder wrote returns the encoded message, whatever bytes follow the
  frame, and consumes exactly the frame. This holds for all seven message types.
\<close>

theorem parse_encode_roundtrip:
  "payload_wf p \<Longrightarrow>
   parse_message (payload_frame p @ rest) =
     \<lparr>pm_status = Ok, pm_payload = p, pm_consumed = length (payload_frame p)\<rparr>"
  by (rule parse_payload_frame)

theorem parse_encode_roundtrip_witness:
  "pm_payload (parse_message (add_frame 10 1000 55 2 Sell 1200 40 @ [1, 2])) =
     P_AddOrder \<lparr>ao_hdr = \<lparr>hdr_type = MT_AddOrder, hdr_length = 44, hdr_seq = 10, hdr_ts_ns = 1000\<rparr>,
       ao_order_id = 55, ao_symbol_id = 2, ao_side = Sell, ao_price = 1200, ao_qty = 40\<rparr>"
  using parse_encode_roundtrip [of "P_AddOrder \<lparr>ao_hdr = \<lparr>hdr_type = MT_AddOrder,
      hdr_length = 44, hdr_seq = 10, hdr_ts_ns = 1000\<rparr>, ao_order_id = 55, ao_symbol_id = 2,
      ao_side = Sell, ao_price = 1200, ao_qty = 40\<rparr>" "[1, 2]"]
  by (simp add: payload_wf_def)

text \<open>
  C23: conversely an accepted frame determines its message up to padding: encoding the
  parsed payload again writes the consumed bytes back with the padding bytes zeroed, and
  the result depends on the consumed bytes only.
\<close>

theorem parse_reencodes:
  assumes "pm_status (parse_message b) = Ok"
  shows "payload_wf (pm_payload (parse_message b)) \<and>
    pm_consumed (parse_message b) \<le> length b \<and>
    payload_frame (pm_payload (parse_message b)) =
      clear_at (pad_offsets (MsgType_of_u8 (b ! 0))) (take (pm_consumed (parse_message b)) b) \<and>
    parse_message (take (pm_consumed (parse_message b)) b @ rest) = parse_message b"
proof -
  define h where "h = decode_header (bytes_WireHeader b)"
  note d = parse_okD [OF assms, folded h_def]
  have t: "hdr_type h = MsgType_of_u8 (b ! 0)"
    using d(1) by (simp add: h_def decode_header_bytes)
  have c: "pm_consumed (parse_message b) = unat (wire_length_for (hdr_type h))"
    by (subst d(5)) simp
  note frame = parse_body_frame [OF d(4,3) h_def refl d(2) assms [unfolded d(5)]]
  have "payload_wf (pm_payload (parse_message b))"
    using parse_body_wf [OF refl d(2,3) assms [unfolded d(5)]] d(5) by simp
  moreover have "parse_message (take (pm_consumed (parse_message b)) b @ rest) = parse_message b"
    using parse_message_front [of "take (pm_consumed (parse_message b)) b"]
      parse_ok_consumed(4) [OF assms] assms by simp
  ultimately show ?thesis
    using frame d(4,5) c t by simp
qed

theorem parse_reencodes_witness:
  "payload_frame (pm_payload (parse_message ([5, 99, 0, 28] @ replicate 24 1 @ [6, 7]))) =
   [5, 0, 0, 28] @ replicate 24 1"
proof -
  let ?b = "[5, 99, 0, 28] @ replicate 24 1 @ [6, 7] :: bytes"
  have p: "parse_message ?b = parse_body (init_ParsedMessage\<lparr>pm_consumed := 28\<rparr>)
      (decode_header (bytes_WireHeader ?b)) MT_Heartbeat ?b"
    using parse_message_long [OF _ refl, of ?b]
    by (simp add: decode_header_bytes load_be16_def bswap16_def kMaxMessageSize_def)
  have ok: "pm_status (parse_message ?b) = Ok" unfolding p by simp
  have "pm_consumed (parse_message ?b) = 28" unfolding p by simp
  then show ?thesis using parse_reencodes [OF ok] by (simp add: clear_at_def)
qed

end
