(* ===== verification/Sequence_Tracker.thy ===== *)
theory Sequence_Tracker
  imports Parser
begin

text \<open>
  The reorder buffer of \<^verbatim>\<open>include/mdp/sequence_tracker.hpp\<close> and
  \<^verbatim>\<open>src/sequence_tracker.cpp\<close>: a window of 64 slots indexed by the sequence number modulo
  64, the list of frames ready in order, and the pending gap. Sequence numbers are 64-bit
  words and wrap; the delivery theorem holds across the wrap.
\<close>

section \<open>State\<close>

definition kReorderWindow :: nat where "kReorderWindow = 64"

definition kMaxStoredMessage :: nat where "kMaxStoredMessage = kMaxMessageSize"

record SequenceStats =
  ss_next_expected :: u64
  ss_drops :: u64
  ss_recovered :: u64
  ss_out_of_order :: u64
  ss_recovery_latency_ns :: u64
  ss_recovery_events :: u64

record Slot =
  sl_occupied :: bool
  sl_length :: u16
  sl_data :: bytes

record SequenceTracker =
  st_stats :: SequenceStats
  st_window :: "Slot array"
  st_ready :: "bytes list"
  st_gap_start :: u64
  st_gap_end :: u64

definition init_SequenceStats :: SequenceStats where
  "init_SequenceStats = \<lparr>ss_next_expected = 1, ss_drops = 0, ss_recovered = 0,
     ss_out_of_order = 0, ss_recovery_latency_ns = 0, ss_recovery_events = 0\<rparr>"

definition init_Slot :: Slot where
  "init_Slot = \<lparr>sl_occupied = False, sl_length = 0, sl_data = replicate kMaxStoredMessage 0\<rparr>"

definition init_SequenceTracker :: SequenceTracker where
  "init_SequenceTracker = \<lparr>st_stats = init_SequenceStats, st_window = (\<lambda>_. init_Slot),
     st_ready = [], st_gap_start = 0, st_gap_end = 0\<rparr>"

abbreviation next_expected :: "SequenceTracker \<Rightarrow> u64" where
  "next_expected t \<equiv> ss_next_expected (st_stats t)"

section \<open>Operations\<close>

text \<open>Reading the sequence number out of the header at the front of a byte array.\<close>

definition frame_seq :: "bytes \<Rightarrow> u64" where
  "frame_seq framed = get_be64 (wh_seq (bytes_WireHeader framed))"

definition window_index :: "u64 \<Rightarrow> nat" where
  "window_index seq = unat (seq mod 64)"

definition clear_ready :: "SequenceTracker \<Rightarrow> SequenceTracker" where
  "clear_ready t = t\<lparr>st_ready := []\<rparr>"

definition gap_pending :: "SequenceTracker \<Rightarrow> bool" where
  "gap_pending t \<longleftrightarrow> st_gap_start t \<noteq> 0"

definition clear_gap :: "SequenceTracker \<Rightarrow> SequenceTracker" where
  "clear_gap t = t\<lparr>st_gap_start := 0, st_gap_end := 0\<rparr>"

definition note_recovery :: "SequenceTracker \<Rightarrow> u64 \<Rightarrow> SequenceTracker" where
  "note_recovery t latency_ns =
     t\<lparr>st_stats := (st_stats t)\<lparr>
         ss_recovery_latency_ns := ss_recovery_latency_ns (st_stats t) + latency_ns,
         ss_recovery_events := ss_recovery_events (st_stats t) + 1\<rparr>\<rparr>"

definition note_drop :: "SequenceTracker \<Rightarrow> SequenceTracker" where
  "note_drop t = t\<lparr>st_stats := (st_stats t)\<lparr>ss_drops := ss_drops (st_stats t) + 1\<rparr>\<rparr>"

definition store_ooo :: "SequenceTracker \<Rightarrow> u64 \<Rightarrow> bytes \<Rightarrow> SequenceTracker" where
  "store_ooo t seq framed =
     (let idx = window_index seq; slot = st_window t idx;
          put = (\<lambda>t. t\<lparr>st_window := (st_window t)(idx :=
                   \<lparr>sl_occupied = True, sl_length = of_nat (length framed),
                    sl_data = framed @ drop (length framed) (sl_data slot)\<rparr>)\<rparr>)
      in if sl_occupied slot
         then (if frame_seq (sl_data slot) = seq then t else put (note_drop t))
         else put t)"

text \<open>
  One turn of the \<^verbatim>\<open>while (true)\<close> loop of \<^verbatim>\<open>flush_contiguous\<close> moves the slot of the next
  expected sequence number to the ready list. The loop ends because each turn frees a slot.
\<close>

definition take_slot :: "SequenceTracker \<Rightarrow> SequenceTracker" where
  "take_slot t =
     (let idx = window_index (next_expected t); slot = st_window t idx in
      t\<lparr>st_ready := st_ready t @ [take (unat (sl_length slot)) (sl_data slot)],
        st_window := (st_window t)(idx := slot\<lparr>sl_occupied := False, sl_length := 0\<rparr>),
        st_stats := (st_stats t)\<lparr>ss_next_expected := next_expected t + 1,
          ss_recovered := ss_recovered (st_stats t) + 1\<rparr>\<rparr>)"

definition occupied_slots :: "SequenceTracker \<Rightarrow> nat set" where
  "occupied_slots t = {i. i < kReorderWindow \<and> sl_occupied (st_window t i)}"

lemma finite_occupied_slots [simp]: "finite (occupied_slots t)"
  by (simp add: occupied_slots_def)

lemma window_index_less [simp]: "window_index s < 64"
proof -
  have "unat (s mod 64) < unat (64 :: u64)"
    by (simp only: unat_mod_distrib) simp
  then show ?thesis by (simp add: window_index_def)
qed

lemma window_index_mod: "window_index s = unat s mod 64"
  by (simp add: window_index_def unat_mod_distrib)

lemma occupied_slots_take_slot:
  "occupied_slots (take_slot t) = occupied_slots t - {window_index (next_expected t)}"
  by (auto simp: occupied_slots_def take_slot_def Let_def)

lemma card_occupied_take_slot:
  "sl_occupied (st_window t (window_index (next_expected t))) \<Longrightarrow>
   card (occupied_slots (take_slot t)) < card (occupied_slots t)"
  unfolding occupied_slots_take_slot
  by (rule card_Diff1_less) (simp_all add: occupied_slots_def kReorderWindow_def)

function flush_loop :: "SequenceTracker \<Rightarrow> SequenceTracker" where
  "flush_loop t =
     (let slot = st_window t (window_index (next_expected t)) in
      if \<not> sl_occupied slot then t
      else if frame_seq (sl_data slot) \<noteq> next_expected t then t
      else flush_loop (take_slot t))"
  by pat_completeness auto
termination
  by (relation "measure (\<lambda>t. card (occupied_slots t))") (simp_all add: card_occupied_take_slot)

declare flush_loop.simps [simp del]

definition flush_contiguous :: "SequenceTracker \<Rightarrow> SequenceTracker" where
  "flush_contiguous t =
     (let t = flush_loop t in
      if st_gap_start t \<noteq> 0 \<and> next_expected t > st_gap_end t then clear_gap t else t)"

definition push :: "SequenceTracker \<Rightarrow> bytes \<Rightarrow> bool \<times> SequenceTracker" where
  "push t framed =
     (if length framed < 20 \<or> length framed > kMaxStoredMessage then (False, t)
      else
        let seq = frame_seq framed in
        if seq = next_expected t then
          (True, flush_contiguous (t\<lparr>st_ready := st_ready t @ [framed],
             st_stats := (st_stats t)\<lparr>ss_next_expected := next_expected t + 1\<rparr>\<rparr>))
        else if seq < next_expected t then (False, note_drop t)
        else
          let t = t\<lparr>st_stats := (st_stats t)\<lparr>ss_out_of_order := ss_out_of_order (st_stats t) + 1\<rparr>\<rparr>;
              t = store_ooo t seq framed
          in (True,
              if st_gap_start t = 0
              then t\<lparr>st_gap_start := next_expected t, st_gap_end := seq - 1\<rparr>
              else if seq - 1 > st_gap_end t then t\<lparr>st_gap_end := seq - 1\<rparr> else t))"

section \<open>The client's view\<close>

text \<open>
  The feed handler drives the tracker with four operations and reads the ready frames
  before clearing them: the second component of the state is the log of the frames it has
  read so far.
\<close>

datatype tracker_op = Push bytes | Note_recovery u64 | Drain | Clear_gap

type_synonym tracker_state = "SequenceTracker \<times> bytes list"

fun tracker_step :: "tracker_op \<Rightarrow> tracker_state \<Rightarrow> tracker_state" where
  "tracker_step (Push f) (t, log) = (snd (push t f), log)"
| "tracker_step (Note_recovery ns) (t, log) = (note_recovery t ns, log)"
| "tracker_step Drain (t, log) = (clear_ready t, log @ st_ready t)"
| "tracker_step Clear_gap (t, log) = (clear_gap t, log)"

fun tracker_run :: "tracker_op list \<Rightarrow> tracker_state \<Rightarrow> tracker_state" where
  "tracker_run [] s = s"
| "tracker_run (p # ps) s = tracker_run ps (tracker_step p s)"

definition start_state :: tracker_state where
  "start_state = (init_SequenceTracker, [])"

section \<open>Invariant\<close>

text \<open>
  Every slot's array has its full size; an occupied slot holds a frame of legal length
  whose sequence number maps to that slot and has not been delivered yet.
\<close>

definition window_wf :: "SequenceTracker \<Rightarrow> bool" where
  "window_wf t \<longleftrightarrow> (\<forall>i<64. length (sl_data (st_window t i)) = 44 \<and>
     (sl_occupied (st_window t i) \<longrightarrow>
        20 \<le> unat (sl_length (st_window t i)) \<and> unat (sl_length (st_window t i)) \<le> 44 \<and>
        window_index (frame_seq (sl_data (st_window t i))) = i))"

definition window_ge :: "SequenceTracker \<Rightarrow> bool" where
  "window_ge t \<longleftrightarrow> (\<forall>i<64. sl_occupied (st_window t i) \<longrightarrow>
     next_expected t \<le> frame_seq (sl_data (st_window t i)))"

definition window_gt :: "SequenceTracker \<Rightarrow> bool" where
  "window_gt t \<longleftrightarrow> (\<forall>i<64. sl_occupied (st_window t i) \<longrightarrow>
     next_expected t < frame_seq (sl_data (st_window t i)))"

definition gap_wf :: "SequenceTracker \<Rightarrow> bool" where
  "gap_wf t \<longleftrightarrow> (st_gap_start t \<noteq> 0 \<longrightarrow>
     st_gap_start t \<le> next_expected t \<and> next_expected t \<le> st_gap_end t \<and>
     st_gap_end t < - 1)"

text \<open>The frames handed out so far carry the numbers 1, 2, 3 and so on, modulo the wrap.\<close>

definition seq_log :: "bytes list \<Rightarrow> u64 \<Rightarrow> bool" where
  "seq_log fs nx \<longleftrightarrow> (\<exists>n\<ge>1. map frame_seq fs = map of_nat [1..<n] \<and> nx = of_nat n)"

definition from_source :: "(bytes \<Rightarrow> bool) \<Rightarrow> SequenceTracker \<Rightarrow> bool" where
  "from_source P t \<longleftrightarrow> (\<forall>f\<in>set (st_ready t). P f) \<and>
     (\<forall>i<64. sl_occupied (st_window t i) \<longrightarrow>
        P (take (unat (sl_length (st_window t i))) (sl_data (st_window t i))))"

lemmas window_defs = window_wf_def window_ge_def window_gt_def

lemma frame_seq_front [simp]: "20 \<le> length f \<Longrightarrow> frame_seq (f @ r) = frame_seq f"
  by (simp add: frame_seq_def)

lemma frame_seq_take: "20 \<le> n \<Longrightarrow> n \<le> length d \<Longrightarrow> frame_seq (take n d) = frame_seq d"
  using frame_seq_front [of "take n d" "drop n d"] by simp

lemma seq_log_snoc: "seq_log fs nx \<Longrightarrow> frame_seq f = nx \<Longrightarrow> seq_log (fs @ [f]) (nx + 1)"
proof -
  assume "seq_log fs nx" "frame_seq f = nx"
  then obtain n where "n \<ge> 1" "map frame_seq fs = map of_nat [1..<n]" "nx = of_nat n"
    by (auto simp: seq_log_def)
  with \<open>frame_seq f = nx\<close> show ?thesis
    unfolding seq_log_def by (intro exI [of _ "Suc n"]) simp
qed

section \<open>The flush loop\<close>

lemma take_slot_fields [simp]:
  "next_expected (take_slot t) = next_expected t + 1"
  "st_gap_start (take_slot t) = st_gap_start t" "st_gap_end (take_slot t) = st_gap_end t"
  by (simp_all add: take_slot_def Let_def)

lemma take_slot_window:
  "st_window (take_slot t) i = (if i = window_index (next_expected t)
     then (st_window t i)\<lparr>sl_occupied := False, sl_length := 0\<rparr> else st_window t i)"
  by (simp add: take_slot_def Let_def)

lemma take_slot_inv:
  assumes wf: "window_wf t" and ge: "window_ge t"
    and "sl_occupied (st_window t (window_index (next_expected t)))"
    and "frame_seq (sl_data (st_window t (window_index (next_expected t)))) = next_expected t"
  shows "window_wf (take_slot t)" "window_ge (take_slot t)"
proof -
  show "window_wf (take_slot t)" using wf by (auto simp: window_wf_def take_slot_window)
  show "window_ge (take_slot t)"
    unfolding window_ge_def
  proof (intro allI impI)
    fix i :: nat assume i: "i < 64" "sl_occupied (st_window (take_slot t) i)"
    then have occ: "sl_occupied (st_window t i)" "i \<noteq> window_index (next_expected t)"
      by (auto simp: take_slot_window split: if_splits)
    then have "next_expected t \<le> frame_seq (sl_data (st_window t i))"
      "frame_seq (sl_data (st_window t i)) \<noteq> next_expected t"
      using wf ge i by (auto simp: window_defs)
    then have "next_expected t < frame_seq (sl_data (st_window t i))" by simp
    then show "next_expected (take_slot t) \<le> frame_seq (sl_data (st_window (take_slot t) i))"
      using occ by (simp add: take_slot_window inc_le)
  qed
qed

text \<open>The frame a turn of the loop appends is the stored one, and its number is the expected one.\<close>

lemma take_slot_ready:
  "st_ready (take_slot t) = st_ready t @ [take (unat (sl_length (st_window t
     (window_index (next_expected t))))) (sl_data (st_window t (window_index (next_expected t))))]"
  by (simp add: take_slot_def Let_def)

lemma flush_loop_induct:
  assumes Q: "Q t"
    and step: "\<And>t. Q t \<Longrightarrow> sl_occupied (st_window t (window_index (next_expected t))) \<Longrightarrow>
      frame_seq (sl_data (st_window t (window_index (next_expected t)))) = next_expected t \<Longrightarrow>
      Q (take_slot t)"
  shows "Q (flush_loop t)"
  using Q
proof (induction t rule: flush_loop.induct)
  case (1 t)
  show ?case
    using 1 step [of t] by (subst flush_loop.simps) (simp add: Let_def)
qed

lemma flush_loop_stops:
  "let s = st_window (flush_loop t) (window_index (next_expected (flush_loop t))) in
   sl_occupied s \<longrightarrow> frame_seq (sl_data s) \<noteq> next_expected (flush_loop t)"
proof (induction t rule: flush_loop.induct)
  case (1 t)
  show ?case
    using 1 by (subst (1 2 3) flush_loop.simps) (simp add: Let_def)
qed

lemma flush_loop_window:
  assumes "window_wf t" "window_ge t"
  shows "window_wf (flush_loop t)" "window_gt (flush_loop t)"
proof -
  have *: "window_wf (flush_loop t) \<and> window_ge (flush_loop t)"
    by (rule flush_loop_induct) (use assms take_slot_inv in auto)
  then show "window_wf (flush_loop t)" ..
  show "window_gt (flush_loop t)"
    using * flush_loop_stops [of t] by (auto simp: window_defs Let_def order_less_le)
qed

lemma flush_loop_log:
  assumes "window_wf t" "seq_log (log @ st_ready t) (next_expected t)"
  shows "seq_log (log @ st_ready (flush_loop t)) (next_expected (flush_loop t))"
proof -
  have "window_wf (flush_loop t) \<and>
      seq_log (log @ st_ready (flush_loop t)) (next_expected (flush_loop t))"
  proof (rule flush_loop_induct)
    fix t :: SequenceTracker
    let ?s = "st_window t (window_index (next_expected t))"
    assume t: "window_wf t \<and> seq_log (log @ st_ready t) (next_expected t)"
      "sl_occupied ?s" "frame_seq (sl_data ?s) = next_expected t"
    have "frame_seq (take (unat (sl_length ?s)) (sl_data ?s)) = next_expected t"
      using t by (subst frame_seq_take) (auto simp: window_wf_def)
    then have "seq_log ((log @ st_ready t) @ [take (unat (sl_length ?s)) (sl_data ?s)])
        (next_expected t + 1)"
      using t seq_log_snoc by blast
    then show "window_wf (take_slot t) \<and> seq_log (log @ st_ready (take_slot t))
        (next_expected (take_slot t))"
      using t by (auto simp: take_slot_ready window_wf_def take_slot_window)
  qed (use assms in simp)
  then show ?thesis ..
qed

lemma flush_loop_source:
  assumes "from_source P t"
  shows "from_source P (flush_loop t)"
proof (rule flush_loop_induct [where Q = "from_source P"])
  fix t :: SequenceTracker
  assume "from_source P t" "sl_occupied (st_window t (window_index (next_expected t)))"
  then show "from_source P (take_slot t)"
    by (auto simp: from_source_def take_slot_ready take_slot_window)
qed (rule assms)

text \<open>
  The gap bounds need the sequence numbers to stay below the last 64-bit value: past it the
  expected number wraps to 0 and the comparison with the end of the gap means nothing.
\<close>

definition gap_low :: "SequenceTracker \<Rightarrow> bool" where
  "gap_low t \<longleftrightarrow> (st_gap_start t \<noteq> 0 \<longrightarrow>
     st_gap_start t \<le> next_expected t \<and> st_gap_end t < - 1)"

lemma le_Suc_word: "(x :: u64) \<noteq> - 1 \<Longrightarrow> x \<le> x + 1"
proof -
  assume "x \<noteq> - 1"
  then have "1 + x \<noteq> 0" by (simp add: add_eq_0_iff)
  then have "unat (1 + x) = Suc (unat x)" by (rule unatSuc)
  then show ?thesis by (simp add: word_le_nat_alt add.commute)
qed

lemma flush_loop_gap:
  assumes "window_wf t" "from_source P t" "gap_low t"
    and last: "\<And>f. P f \<Longrightarrow> frame_seq f \<noteq> - 1"
  shows "gap_low (flush_loop t)"
proof -
  have "window_wf (flush_loop t) \<and> from_source P (flush_loop t) \<and> gap_low (flush_loop t)"
  proof (rule flush_loop_induct)
    fix t :: SequenceTracker
    let ?s = "st_window t (window_index (next_expected t))"
    assume t: "window_wf t \<and> from_source P t \<and> gap_low t"
      "sl_occupied ?s" "frame_seq (sl_data ?s) = next_expected t"
    have "frame_seq (take (unat (sl_length ?s)) (sl_data ?s)) = next_expected t"
      using t by (subst frame_seq_take) (auto simp: window_wf_def)
    moreover have "P (take (unat (sl_length ?s)) (sl_data ?s))"
      using t by (auto simp: from_source_def)
    ultimately have "next_expected t \<noteq> - 1" using last by metis
    then have "next_expected t \<le> next_expected t + 1" by (rule le_Suc_word)
    then show "window_wf (take_slot t) \<and> from_source P (take_slot t) \<and> gap_low (take_slot t)"
      using t by (auto simp: take_slot_ready window_wf_def take_slot_window from_source_def
          gap_low_def intro: order_trans)
  qed (use assms in simp)
  then show ?thesis by blast
qed

lemma flush_contiguous_fields [simp]:
  "st_window (flush_contiguous t) = st_window (flush_loop t)"
  "st_ready (flush_contiguous t) = st_ready (flush_loop t)"
  "st_stats (flush_contiguous t) = st_stats (flush_loop t)"
  by (simp_all add: flush_contiguous_def Let_def clear_gap_def)

lemma flush_contiguous_gap:
  "gap_low (flush_loop t) \<Longrightarrow> gap_wf (flush_contiguous t)"
  by (auto simp: flush_contiguous_def Let_def clear_gap_def gap_low_def gap_wf_def not_less)

section \<open>Storing a frame out of order\<close>

lemma store_ooo_fields [simp]:
  "next_expected (store_ooo t seq f) = next_expected t"
  "st_ready (store_ooo t seq f) = st_ready t"
  "st_gap_start (store_ooo t seq f) = st_gap_start t" "st_gap_end (store_ooo t seq f) = st_gap_end t"
  by (simp_all add: store_ooo_def Let_def note_drop_def)

lemma store_ooo_window:
  "st_window (store_ooo t seq f) =
     (let slot = st_window t (window_index seq) in
      if sl_occupied slot \<and> frame_seq (sl_data slot) = seq then st_window t
      else (st_window t)(window_index seq :=
        \<lparr>sl_occupied = True, sl_length = of_nat (length f),
         sl_data = f @ drop (length f) (sl_data slot)\<rparr>))"
  by (auto simp: store_ooo_def Let_def note_drop_def)

lemma unat_length_u16: "length f \<le> 44 \<Longrightarrow> unat (of_nat (length f) :: u16) = length f"
  by (simp add: unat_of_nat)

lemma store_ooo_inv:
  assumes "window_wf t" "window_gt t" "20 \<le> length f" "length f \<le> 44"
    and "frame_seq f = seq" "next_expected t < seq"
  shows "window_wf (store_ooo t seq f)" "window_gt (store_ooo t seq f)"
    and "from_source P t \<Longrightarrow> P f \<Longrightarrow> from_source P (store_ooo t seq f)"
  using assms unat_length_u16 [of f]
  by (auto simp: window_defs from_source_def store_ooo_window Let_def)

section \<open>Every operation keeps the invariant\<close>

fun tracker_inv :: "(bytes \<Rightarrow> bool) \<Rightarrow> tracker_state \<Rightarrow> bool" where
  "tracker_inv P (t, log) \<longleftrightarrow> window_wf t \<and> window_gt t \<and>
     seq_log (log @ st_ready t) (next_expected t) \<and> from_source P t \<and> (\<forall>f\<in>set log. P f)"

text \<open>The four ways through \<^verbatim>\<open>push\<close>.\<close>

definition deliver :: "SequenceTracker \<Rightarrow> bytes \<Rightarrow> SequenceTracker" where
  "deliver t f = t\<lparr>st_ready := st_ready t @ [f],
     st_stats := (st_stats t)\<lparr>ss_next_expected := next_expected t + 1\<rparr>\<rparr>"

definition buffer_ooo :: "SequenceTracker \<Rightarrow> bytes \<Rightarrow> SequenceTracker" where
  "buffer_ooo t f = store_ooo (t\<lparr>st_stats := (st_stats t)\<lparr>
     ss_out_of_order := ss_out_of_order (st_stats t) + 1\<rparr>\<rparr>) (frame_seq f) f"

definition widen_gap :: "SequenceTracker \<Rightarrow> u64 \<Rightarrow> SequenceTracker" where
  "widen_gap t seq =
     (if st_gap_start t = 0 then t\<lparr>st_gap_start := next_expected t, st_gap_end := seq - 1\<rparr>
      else if seq - 1 > st_gap_end t then t\<lparr>st_gap_end := seq - 1\<rparr> else t)"

lemma push_cases [consumes 0, case_names size in_order stale ahead]:
  obtains (size) "length f < 20 \<or> 44 < length f" "push t f = (False, t)"
  | (in_order) "20 \<le> length f" "length f \<le> 44" "frame_seq f = next_expected t"
      "push t f = (True, flush_contiguous (deliver t f))"
  | (stale) "20 \<le> length f" "length f \<le> 44" "frame_seq f < next_expected t"
      "push t f = (False, note_drop t)"
  | (ahead) "20 \<le> length f" "length f \<le> 44" "next_expected t < frame_seq f"
      "push t f = (True, widen_gap (buffer_ooo t f) (frame_seq f))"
  unfolding push_def Let_def deliver_def buffer_ooo_def widen_gap_def kMaxStoredMessage_def
    kMaxMessageSize_def
  by (metis (no_types, lifting) linorder_cases not_less)

lemma deliver_fields [simp]:
  "st_window (deliver t f) = st_window t" "st_ready (deliver t f) = st_ready t @ [f]"
  "next_expected (deliver t f) = next_expected t + 1"
  "st_gap_start (deliver t f) = st_gap_start t" "st_gap_end (deliver t f) = st_gap_end t"
  by (simp_all add: deliver_def)

lemma widen_gap_fields [simp]:
  "st_window (widen_gap t q) = st_window t" "st_ready (widen_gap t q) = st_ready t"
  "st_stats (widen_gap t q) = st_stats t"
  by (simp_all add: widen_gap_def)

lemma buffer_ooo_fields [simp]:
  "st_ready (buffer_ooo t f) = st_ready t" "next_expected (buffer_ooo t f) = next_expected t"
  "st_gap_start (buffer_ooo t f) = st_gap_start t" "st_gap_end (buffer_ooo t f) = st_gap_end t"
  by (simp_all add: buffer_ooo_def)

lemma note_drop_fields [simp]:
  "st_window (note_drop t) = st_window t" "st_ready (note_drop t) = st_ready t"
  "next_expected (note_drop t) = next_expected t"
  "st_gap_start (note_drop t) = st_gap_start t" "st_gap_end (note_drop t) = st_gap_end t"
  by (simp_all add: note_drop_def)

lemma window_gt_deliver: "window_gt t \<Longrightarrow> window_ge (deliver t f)"
  by (auto simp: window_defs inc_le)

lemma push_inv:
  assumes inv: "tracker_inv P (t, log)" and "P f"
  shows "tracker_inv P (snd (push t f), log)"
proof (cases rule: push_cases [of f t])
  case in_order
  let ?d = "deliver t f"
  have d: "window_wf ?d" "window_ge ?d" "from_source P ?d"
    "seq_log (log @ st_ready ?d) (next_expected ?d)"
    using inv \<open>P f\<close> in_order(3) window_gt_deliver seq_log_snoc [of "log @ st_ready t" _ f]
    by (auto simp: window_wf_def from_source_def)
  then have "window_wf (flush_loop ?d)" "window_gt (flush_loop ?d)" "from_source P (flush_loop ?d)"
    "seq_log (log @ st_ready (flush_loop ?d)) (next_expected (flush_loop ?d))"
    by (simp_all add: flush_loop_window flush_loop_source flush_loop_log)
  then show ?thesis
    using inv in_order(4) by (auto simp: window_defs from_source_def)
next
  case ahead
  let ?t = "t\<lparr>st_stats := (st_stats t)\<lparr>ss_out_of_order := ss_out_of_order (st_stats t) + 1\<rparr>\<rparr>"
  have "window_wf ?t" "window_gt ?t" "from_source P ?t" "next_expected ?t < frame_seq f"
    using inv ahead by (auto simp: window_defs from_source_def)
  then have "window_wf (buffer_ooo t f)" "window_gt (buffer_ooo t f)" "from_source P (buffer_ooo t f)"
    using ahead(1,2) \<open>P f\<close> store_ooo_inv [of ?t f "frame_seq f"] by (simp_all add: buffer_ooo_def)
  then show ?thesis
    using inv ahead(4) by (auto simp: window_defs from_source_def)
qed (use inv in \<open>auto simp: window_defs from_source_def\<close>)

lemma other_ops_inv:
  "tracker_inv P (t, log) \<Longrightarrow> tracker_inv P (note_recovery t ns, log)"
  "tracker_inv P (t, log) \<Longrightarrow> tracker_inv P (clear_gap t, log)"
  "tracker_inv P (t, log) \<Longrightarrow> tracker_inv P (clear_ready t, log @ st_ready t)"
  by (auto simp: note_recovery_def clear_gap_def clear_ready_def window_defs from_source_def)

lemma start_inv: "tracker_inv P start_state"
  by (auto simp: start_state_def init_SequenceTracker_def init_SequenceStats_def init_Slot_def
      window_defs from_source_def seq_log_def kMaxStoredMessage_def kMaxMessageSize_def
      intro!: exI [of _ "1 :: nat"])

fun op_from :: "(bytes \<Rightarrow> bool) \<Rightarrow> tracker_op \<Rightarrow> bool" where
  "op_from P (Push f) \<longleftrightarrow> P f"
| "op_from P _ \<longleftrightarrow> True"

definition tracker_move :: "(bytes \<Rightarrow> bool) \<Rightarrow> tracker_state \<Rightarrow> tracker_state \<Rightarrow> bool" where
  "tracker_move P s s' \<longleftrightarrow> (\<exists>p. op_from P p \<and> s' = tracker_step p s)"

interpretation trk: step_system "\<lambda>s. s = start_state" "tracker_move P" "tracker_inv P"
  for P :: "bytes \<Rightarrow> bool"
proof unfold_locales
  fix s t assume "tracker_inv P s" "tracker_move P s t"
  then obtain p u log where "op_from P p" "t = tracker_step p (u, log)" "tracker_inv P (u, log)"
    by (cases s) (auto simp: tracker_move_def)
  then show "tracker_inv P t"
    by (cases p) (auto simp del: tracker_inv.simps simp: push_inv other_ops_inv)
qed (use start_inv in simp)

lemma tracker_run_moves:
  "\<forall>p\<in>set ps. op_from P p \<Longrightarrow> (tracker_move P)\<^sup>*\<^sup>* s (tracker_run ps s)"
proof (induction ps arbitrary: s)
  case (Cons p ps)
  then have "tracker_move P s (tracker_step p s)" by (auto simp: tracker_move_def)
  moreover have "(tracker_move P)\<^sup>*\<^sup>* (tracker_step p s) (tracker_run ps (tracker_step p s))"
    using Cons by simp
  ultimately show ?case by (simp add: converse_rtranclp_into_rtranclp)
qed simp

lemma op_from_pushes: "p \<in> set ps \<Longrightarrow> op_from (\<lambda>f. Push f \<in> set ps) p"
  by (cases p) auto

lemma tracker_run_inv:
  "\<forall>p\<in>set ps. op_from P p \<Longrightarrow> tracker_inv P (tracker_run ps start_state)"
  by (blast intro: trk.inv_reachable tracker_run_moves)

lemma word_pred_bounds:
  assumes "(a :: u64) < b"
  shows "a \<le> b - 1" "b - 1 < - 1"
proof -
  have "b \<noteq> 0" using assms by auto
  then have "unat (b - 1) = unat b - 1" "unat b > 0"
    by (simp_all add: unat_minus_one unat_gt_0)
  with assms show "a \<le> b - 1" by (simp add: word_le_nat_alt word_less_nat_alt)
  have "b - 1 < b" using \<open>unat (b - 1) = _\<close> \<open>unat b > 0\<close> by (simp add: word_less_nat_alt)
  then show "b - 1 < - 1" by (rule order_less_le_trans) simp
qed

lemma push_gap:
  assumes inv: "tracker_inv P (t, log)" and gap: "gap_wf t" and "P f"
    and last: "\<And>f. P f \<Longrightarrow> frame_seq f \<noteq> - 1"
  shows "gap_wf (snd (push t f))"
proof (cases rule: push_cases [of f t])
  case in_order
  have "next_expected t \<le> next_expected t + 1"
    using last [OF \<open>P f\<close>] in_order(3) by (simp add: le_Suc_word)
  then have "gap_low (deliver t f)" "window_wf (deliver t f)" "from_source P (deliver t f)"
    using gap inv \<open>P f\<close> by (auto simp: gap_low_def gap_wf_def window_wf_def from_source_def)
  then have "gap_low (flush_loop (deliver t f))" using flush_loop_gap last by blast
  then show ?thesis using in_order(4) flush_contiguous_gap by simp
next
  case ahead
  note b = word_pred_bounds [OF ahead(3)]
  show ?thesis using gap ahead(4) b
    by (auto simp: gap_wf_def widen_gap_def)
qed (use gap in \<open>auto simp: gap_wf_def\<close>)

definition gapped_inv :: "(bytes \<Rightarrow> bool) \<Rightarrow> tracker_state \<Rightarrow> bool" where
  "gapped_inv P s \<longleftrightarrow> tracker_inv (\<lambda>f. P f \<and> frame_seq f \<noteq> - 1) s \<and> gap_wf (fst s)"

interpretation trk_gap: step_system "\<lambda>s. s = start_state"
  "tracker_move (\<lambda>f. P f \<and> frame_seq f \<noteq> - 1)" "gapped_inv P"
  for P :: "bytes \<Rightarrow> bool"
proof unfold_locales
  let ?P = "\<lambda>f. P f \<and> frame_seq f \<noteq> - 1"
  show "s = start_state \<Longrightarrow> gapped_inv P s" for s
    using start_inv [of ?P]
    by (simp add: gapped_inv_def start_state_def init_SequenceTracker_def gap_wf_def)
  fix s t assume s: "gapped_inv P s" "tracker_move ?P s t"
  then obtain p u log where p: "op_from ?P p" "t = tracker_step p (u, log)" "s = (u, log)"
    by (cases s) (auto simp: tracker_move_def)
  then have "gap_wf (fst t)"
    using s push_gap [of ?P u log]
    by (cases p) (auto simp del: tracker_inv.simps
        simp: gapped_inv_def gap_wf_def note_recovery_def clear_gap_def clear_ready_def)
  then show "gapped_inv P t"
    using s trk.inv_step [of ?P s t] by (simp add: gapped_inv_def)
qed

section \<open>Reordering within the window\<close>

text \<open>
  A supply of numbered frames, and the state after the frames with numbers in \<open>R\<close> have been
  pushed, with everything below \<open>m\<close> handed out.
\<close>

definition numbered_frames :: "(nat \<Rightarrow> bytes) \<Rightarrow> nat \<Rightarrow> nat \<Rightarrow> bool" where
  "numbered_frames F a b \<longleftrightarrow>
     (\<forall>i\<in>{a..<b}. 20 \<le> length (F i) \<and> length (F i) \<le> 44 \<and> frame_seq (F i) = of_nat i)"

definition reordering ::
  "(nat \<Rightarrow> bytes) \<Rightarrow> nat \<Rightarrow> nat \<Rightarrow> bytes list \<Rightarrow> nat set \<Rightarrow> nat \<Rightarrow> SequenceTracker \<Rightarrow> bool" where
  "reordering F n k r0 R m t \<longleftrightarrow>
     window_wf t \<and> next_expected t = of_nat m \<and> n \<le> m \<and> {n..<m} \<subseteq> R \<and> R \<subseteq> {n..<n + k} \<and>
     st_ready t = r0 @ map F [n..<m] \<and>
     (\<forall>s\<in>R. m \<le> s \<longrightarrow> sl_occupied (st_window t (s mod 64)) \<and>
        take (unat (sl_length (st_window t (s mod 64)))) (sl_data (st_window t (s mod 64))) = F s) \<and>
     (\<forall>i<64. sl_occupied (st_window t i) \<longrightarrow> (\<exists>s\<in>R. m \<le> s \<and> s mod 64 = i))"

lemma window_index_of_nat [simp]: "s < 2 ^ 64 \<Longrightarrow> window_index (of_nat s) = s mod 64"
  by (simp add: window_index_mod unat_of_nat)

lemma mod_window_eq:
  assumes "a mod 64 = b mod (64::nat)" "n \<le> a" "a < n + 64" "n \<le> b" "b < n + 64"
  shows "a = b"
proof -
  have "x = y" if "x mod 64 = y mod (64::nat)" "x \<le> y" "y < x + 64" for x y
    using that mod_eq_dvd_iff_nat [of x y 64] dvd_imp_le [of 64 "y - x"] by fastforce
  from this [of a b] this [of b a] show ?thesis using assms by linarith
qed

lemma reordering_occupied:
  "reordering F n k r0 R m t \<Longrightarrow> i < 64 \<Longrightarrow> sl_occupied (st_window t i) \<Longrightarrow>
   \<exists>s\<in>R. m \<le> s \<and> s mod 64 = i"
  by (simp add: reordering_def)

lemma reordering_take_slot:
  assumes r: "reordering F n k r0 R m t" and k: "k \<le> 64" "n + k < 2 ^ 64"
    and occ: "sl_occupied (st_window t (window_index (next_expected t)))"
  shows "reordering F n k r0 R (Suc m) (take_slot t)"
proof -
  have nx: "next_expected t = of_nat m" and nm: "n \<le> m" and R: "R \<subseteq> {n..<n + k}"
    and wf: "window_wf t" using r by (auto simp: reordering_def)
  have "{n..<m} \<subseteq> {n..<n + k}" using r unfolding reordering_def by blast
  then have "m \<le> n + k" using nm by (cases "n = m") auto
  then have idx: "window_index (next_expected t) = m mod 64" using nx k by simp
  obtain s where s: "s \<in> R" "m \<le> s" "s mod 64 = m mod 64"
    using reordering_occupied [OF r, of "m mod 64"] occ idx by auto
  then have "s = m" using R nm k by (intro mod_window_eq [of s m n]) auto
  with s have mR: "m \<in> R" by simp
  have other: "s mod 64 \<noteq> m mod 64" if "s \<in> R" "Suc m \<le> s" for s
    using mod_window_eq [of s m n] that R nm k by auto
  have fr: "take (unat (sl_length (st_window t (m mod 64)))) (sl_data (st_window t (m mod 64))) = F m"
    using r mR by (auto simp: reordering_def)
  have win: "st_window (take_slot t) i = (if i = m mod 64
     then (st_window t i)\<lparr>sl_occupied := False, sl_length := 0\<rparr> else st_window t i)" for i
    using idx by (simp add: take_slot_window)
  show ?thesis
    unfolding reordering_def
  proof (intro conjI)
    show "window_wf (take_slot t)" using wf by (auto simp: window_wf_def win)
    show "next_expected (take_slot t) = of_nat (Suc m)" using nx by simp
    show "n \<le> Suc m" using nm by simp
    show "{n..<Suc m} \<subseteq> R" using r mR by (auto simp: reordering_def less_Suc_eq)
    show "R \<subseteq> {n..<n + k}" by (rule R)
    show "st_ready (take_slot t) = r0 @ map F [n..<Suc m]"
      using r nm fr idx by (simp add: take_slot_ready reordering_def)
    show "\<forall>s\<in>R. Suc m \<le> s \<longrightarrow> sl_occupied (st_window (take_slot t) (s mod 64)) \<and>
        take (unat (sl_length (st_window (take_slot t) (s mod 64))))
          (sl_data (st_window (take_slot t) (s mod 64))) = F s"
      using r other by (auto simp: reordering_def win)
    show "\<forall>i<64. sl_occupied (st_window (take_slot t) i) \<longrightarrow> (\<exists>s\<in>R. Suc m \<le> s \<and> s mod 64 = i)"
      using r unfolding reordering_def by (auto simp: win split: if_splits)
        (metis Suc_leI le_neq_implies_less)
  qed
qed

lemma reordering_flush:
  assumes r: "reordering F n k r0 R m t" and k: "k \<le> 64" "n + k < 2 ^ 64"
    and F: "numbered_frames F n (n + k)"
  shows "\<exists>m'. m' \<notin> R \<and> reordering F n k r0 R m' (flush_loop t)"
proof -
  have "\<exists>m'. reordering F n k r0 R m' (flush_loop t)"
    by (rule flush_loop_induct [where Q = "\<lambda>t. \<exists>m. reordering F n k r0 R m t"])
      (use r reordering_take_slot k in blast)+
  then obtain m' where m': "reordering F n k r0 R m' (flush_loop t)" ..
  have "m' \<notin> R"
  proof
    assume "m' \<in> R"
    let ?s = "st_window (flush_loop t) (m' mod 64)"
    have "m' < n + k" "n \<le> m'" using m' \<open>m' \<in> R\<close> by (auto simp: reordering_def)
    then have idx: "window_index (next_expected (flush_loop t)) = m' mod 64"
      using m' k by (simp add: reordering_def)
    have s: "sl_occupied ?s" "take (unat (sl_length ?s)) (sl_data ?s) = F m'"
      using m' \<open>m' \<in> R\<close> by (auto simp: reordering_def)
    then have "frame_seq (sl_data ?s) = frame_seq (F m')"
      using m' frame_seq_take [of "unat (sl_length ?s)" "sl_data ?s"]
      by (auto simp: reordering_def window_wf_def)
    also have "\<dots> = next_expected (flush_loop t)"
      using F m' \<open>m' < n + k\<close> \<open>n \<le> m'\<close> by (auto simp: numbered_frames_def reordering_def)
    finally show False using flush_loop_stops [of t] s idx by (simp add: Let_def)
  qed
  with m' show ?thesis by blast
qed
lemma reordering_push:
  assumes r: "reordering F n k r0 R m t" "m \<notin> R" and k: "k \<le> 64" "n + k < 2 ^ 64"
    and F: "numbered_frames F n (n + k)" and j: "j \<notin> R" "j \<in> {n..<n + k}"
  shows "\<exists>m'. m' \<notin> insert j R \<and> reordering F n k r0 (insert j R) m' (snd (push t (F j)))"
proof -
  have nx: "next_expected t = of_nat m" and R: "R \<subseteq> {n..<n + k}" "{n..<m} \<subseteq> R"
    using r by (auto simp: reordering_def)
  have Fj: "20 \<le> length (F j)" "length (F j) \<le> 44" "frame_seq (F j) = of_nat j"
    using F j by (auto simp: numbered_frames_def)
  have "m \<le> j" using R(2) j by (meson atLeastLessThan_iff not_le subsetD)
  have lt: "m < 2 ^ 64" "j < 2 ^ 64" using \<open>m \<le> j\<close> j k by auto
  have less: "next_expected t < frame_seq (F j)" if "m < j"
    using lt that by (simp add: nx Fj word_less_nat_alt unat_of_nat)
  show ?thesis
  proof (cases "j = m")
    case True
    have "reordering F n k r0 (insert m R) (Suc m) (deliver t (F m))"
      using r j True nx unfolding reordering_def
      by (auto simp: window_wf_def less_Suc_eq) (metis Suc_leI le_neq_implies_less)
    from reordering_flush [OF this k F] True Fj nx show ?thesis
      by (cases rule: push_cases [of "F j" t]) (auto simp: reordering_def window_wf_def)
  next
    case False
    with \<open>m \<le> j\<close> have "m < j" by simp
    let ?u = "buffer_ooo t (F j)"
    have free: "\<not> sl_occupied (st_window t (j mod 64))"
    proof
      assume "sl_occupied (st_window t (j mod 64))"
      then obtain s where s: "s \<in> R" "s mod 64 = j mod 64"
        using reordering_occupied [OF r(1), of "j mod 64"] by auto
      then have "s = j" using R(1) j k by (intro mod_window_eq [of s j n]) auto
      with s j show False by simp
    qed
    have win: "st_window ?u = (st_window t)(j mod 64 := \<lparr>sl_occupied = True,
        sl_length = of_nat (length (F j)),
        sl_data = F j @ drop (length (F j)) (sl_data (st_window t (j mod 64)))\<rparr>)"
      using free lt by (simp add: buffer_ooo_def store_ooo_window Fj Let_def)
    have other: "s mod 64 \<noteq> j mod 64" if "s \<in> R" for s
      using that R(1) j k mod_window_eq [of s j n] by auto
    have "reordering F n k r0 (insert j R) m (snd (push t (F j)))"
      using less [OF \<open>m < j\<close>] Fj
    proof (cases rule: push_cases [of "F j" t])
      case ahead
      have wf: "window_wf ?u"
        using r Fj lt unfolding reordering_def
        by (auto simp: window_wf_def win unat_length_u16)
      show ?thesis
        using ahead(4) r nx wf \<open>m < j\<close> j other Fj
        unfolding reordering_def by (auto simp: win unat_length_u16 window_wf_def)
    qed auto
    then show ?thesis using r(2) False by (intro exI [of _ m]) auto
  qed
qed

definition push_all :: "bytes list \<Rightarrow> SequenceTracker \<Rightarrow> SequenceTracker" where
  "push_all fs t = fold (\<lambda>f t. snd (push t f)) fs t"

lemma reordering_push_all:
  assumes "k \<le> 64" "n + k < 2 ^ 64" "numbered_frames F n (n + k)"
  shows "reordering F n k r0 R m t \<Longrightarrow> m \<notin> R \<Longrightarrow> distinct js \<Longrightarrow> set js \<inter> R = {} \<Longrightarrow>
    set js \<subseteq> {n..<n + k} \<Longrightarrow>
    \<exists>m'. m' \<notin> R \<union> set js \<and> reordering F n k r0 (R \<union> set js) m' (push_all (map F js) t)"
proof (induction js arbitrary: R m t)
  case (Cons j js)
  have "j \<notin> R" "j \<in> {n..<n + k}" using Cons.prems by auto
  from reordering_push [OF Cons.prems(1,2) assms this]
  obtain m' where "m' \<notin> insert j R" "reordering F n k r0 (insert j R) m' (snd (push t (F j)))"
    by blast
  from Cons.IH [OF this(2,1)] Cons.prems show ?case by (auto simp: push_all_def)
qed (auto simp: push_all_def)

text \<open>Frames of the encoders, as the reorder buffer sees them.\<close>

lemma frame_seq_frames [simp]:
  "frame_seq (add_frame q ts oid sid sd px qt) = q" "frame_seq (modify_frame q ts oid sid sd px qt) = q"
  "frame_seq (delete_frame q ts oid sid) = q" "frame_seq (trade_frame q ts oid sid sd px qt) = q"
  "frame_seq (heartbeat_frame q ts e) = q"
  using frame_header [where r = "[]"]
  by (simp_all add: frame_seq_def frame_defs encode_defs write_header_def)

lemma length_frames [simp]:
  "length (add_frame q ts oid sid sd px qt) = 44" "length (modify_frame q ts oid sid sd px qt) = 44"
  "length (delete_frame q ts oid sid) = 36" "length (trade_frame q ts oid sid sd px qt) = 44"
  "length (heartbeat_frame q ts e) = 28"
  by (simp_all add: frame_defs encode_defs)

section \<open>Properties\<close>

text \<open>
  C11: whatever frames are pushed in whatever order, with any interleaving of draining,
  gap clearing and recovery notes, the frames handed out are numbered 1, 2, 3, ... without
  a hole and without a repetition, the next expected number is one past the last of them,
  and every one of them is byte for byte a frame that was pushed.
\<close>

theorem in_order_delivery:
  "case tracker_run ps start_state of (t, log) \<Rightarrow>
     \<exists>n\<ge>1. map frame_seq (log @ st_ready t) = map of_nat [1..<n] \<and>
       next_expected t = of_nat n \<and> set (log @ st_ready t) \<subseteq> {f. Push f \<in> set ps}"
proof -
  let ?P = "\<lambda>f. Push f \<in> set ps"
  have "\<forall>p\<in>set ps. op_from ?P p" by (blast intro: op_from_pushes)
  then have "tracker_inv ?P (tracker_run ps start_state)" by (rule tracker_run_inv)
  then show ?thesis
    by (cases "tracker_run ps start_state") (auto simp: seq_log_def from_source_def)
qed

text \<open>
  C20: as long as no frame carries the last 64-bit sequence number, a pending gap always
  spans the next expected number, so that a recovery request for it asks for the frame the
  tracker is waiting for; and every buffered frame is a later one, in the slot of its
  number.
\<close>

theorem gap_covers_next:
  assumes "\<And>f. Push f \<in> set ps \<Longrightarrow> frame_seq f \<noteq> - 1"
  defines "t \<equiv> fst (tracker_run ps start_state)"
  shows "(gap_pending t \<longrightarrow> st_gap_start t \<le> next_expected t \<and> next_expected t \<le> st_gap_end t) \<and>
    (\<forall>i<64. sl_occupied (st_window t i) \<longrightarrow> next_expected t < frame_seq (sl_data (st_window t i)) \<and>
       window_index (frame_seq (sl_data (st_window t i))) = i)"
proof -
  let ?P = "\<lambda>f. Push f \<in> set ps"
  have "op_from (\<lambda>f. ?P f \<and> frame_seq f \<noteq> - 1) p" if "p \<in> set ps" for p
    using op_from_pushes [OF that] assms(1) that by (cases p) auto
  then have "gapped_inv ?P (tracker_run ps start_state)"
    by (blast intro: trk_gap.inv_reachable tracker_run_moves)
  then have "tracker_inv (\<lambda>f. ?P f \<and> frame_seq f \<noteq> - 1) (t, snd (tracker_run ps start_state))"
    "gap_wf t" by (simp_all add: gapped_inv_def t_def)
  then show ?thesis by (auto simp: gap_wf_def gap_pending_def window_defs)
qed

theorem gap_covers_next_witness:
  "(let t = fst (tracker_run [Push (heartbeat_frame 3 0 0)] start_state) in
    gap_pending t \<and> st_gap_start t = 1 \<and> st_gap_end t = 2 \<and> next_expected t = 1 \<and>
    next_expected t \<le> st_gap_end t)"
proof -
  let ?t = "fst (tracker_run [Push (heartbeat_frame 3 0 0)] start_state)"
  have t: "st_gap_start ?t = 1" "st_gap_end ?t = 2" "next_expected ?t = 1"
    by (simp_all add: start_state_def push_def init_SequenceTracker_def init_SequenceStats_def
        kMaxStoredMessage_def kMaxMessageSize_def)
  have "next_expected ?t \<le> st_gap_end ?t"
    using gap_covers_next [of "[Push (heartbeat_frame 3 0 0)]"] t by (simp add: gap_pending_def)
  with t show ?thesis by (simp add: gap_pending_def)
qed

text \<open>
  C19: a burst that is only reordered is delivered completely without recovery: from a state
  that buffers nothing and expects number \<open>n\<close>, pushing the frames \<open>n\<close>, ..., \<open>n + k - 1\<close> in
  any order, for a burst of up to the 64 frames of the window, appends exactly these frames
  to the ready list in sequence order.
\<close>

theorem reordered_burst_delivered:
  assumes "window_wf t" "\<forall>i<64. \<not> sl_occupied (st_window t i)" "next_expected t = of_nat n"
    and "k \<le> kReorderWindow" "n + k < 2 ^ 64" "numbered_frames F n (n + k)"
    and "distinct js" "set js = {n..<n + k}"
  shows "st_ready (push_all (map F js) t) = st_ready t @ map F [n..<n + k] \<and>
    next_expected (push_all (map F js) t) = of_nat (n + k)"
proof -
  have k: "k \<le> 64" using assms(4) by (simp add: kReorderWindow_def)
  have "reordering F n k (st_ready t) {} n t"
    using assms(1-3) by (auto simp: reordering_def)
  from reordering_push_all [OF k assms(5,6) this _ assms(7)] assms(8)
  obtain m where m: "m \<notin> {n..<n + k}" "reordering F n k (st_ready t) {n..<n + k} m (push_all (map F js) t)"
    by auto
  then have "n \<le> m" "{n..<m} \<subseteq> {n..<n + k}" by (auto simp: reordering_def)
  then have "m = n + k" using m(1) by (cases "n = m") auto
  with m(2) show ?thesis by (simp add: reordering_def)
qed

theorem reordered_burst_delivered_witness:
  "st_ready (push_all [heartbeat_frame 3 0 0, heartbeat_frame 1 0 0, heartbeat_frame 2 0 0]
     init_SequenceTracker) =
   [heartbeat_frame 1 0 0, heartbeat_frame 2 0 0, heartbeat_frame 3 0 0]"
proof -
  have "{3, Suc 0, 2} = {Suc 0..<4}" by auto
  then show ?thesis
    using reordered_burst_delivered [of init_SequenceTracker 1 3
        "\<lambda>i. heartbeat_frame (of_nat i) 0 0" "[3, 1, 2]"]
    by (simp add: init_SequenceTracker_def init_SequenceStats_def init_Slot_def window_wf_def
        kMaxStoredMessage_def kMaxMessageSize_def kReorderWindow_def numbered_frames_def
        upt_conv_Cons)
qed

end
