(* ===== verification/Spsc_Queue.thy ===== *)
theory Spsc_Queue
  imports Mdp_Prelude
begin

text \<open>
  The single-producer single-consumer ring of \<^verbatim>\<open>include/mdp/spsc_queue.hpp\<close>. The template
  parameters are the element type \<open>'a\<close> and the capacity \<open>cap\<close>, a power of two; \<open>empty_item\<close>
  stands for the value-initialised \<^verbatim>\<open>T{}\<close> of the slots. \<^verbatim>\<open>std::size_t\<close> is a 64-bit word, so
  the positions and sequence numbers wrap.

  The first part models \<^verbatim>\<open>try_push\<close> and \<^verbatim>\<open>try_pop\<close> as functions; they implement a
  bounded FIFO queue. The second part splits them into their individual loads and stores
  and lets the two threads interleave these in any way, with every load returning the
  latest value; \<open>Spsc_Memory\<close> drops that restriction.
\<close>

section \<open>State and operations\<close>

record 'a QSlot =
  qs_storage :: 'a
  qs_sequence :: u64

record 'a SpscQueue =
  sq_head :: u64
  sq_tail :: u64
  sq_slots :: "'a QSlot array"

definition init_SpscQueue :: "'a \<Rightarrow> 'a SpscQueue" where
  "init_SpscQueue empty_item = \<lparr>sq_head = 0, sq_tail = 0,
     sq_slots = (\<lambda>i. \<lparr>qs_storage = empty_item, qs_sequence = of_nat i\<rparr>)\<rparr>"

text \<open>\<^verbatim>\<open>pos & kMask\<close>, the index of the slot for a position.\<close>

definition slot_index :: "u64 \<Rightarrow> u64 \<Rightarrow> nat" where
  "slot_index cap pos = unat (pos AND (cap - 1))"

text \<open>
  The code compares a sequence number with a position by a difference of type \<^verbatim>\<open>intptr_t\<close>; it
  is 0 exactly when the difference of the words is. (As a signed difference it overflows when
  one of the two is below and the other at \<open>2 ^ 63\<close>, after as many items.)
\<close>

definition try_push :: "u64 \<Rightarrow> 'a \<Rightarrow> 'a SpscQueue \<Rightarrow> bool \<times> 'a SpscQueue" where
  "try_push cap item q =
     (let pos = sq_head q;
          i = slot_index cap pos;
          seq = qs_sequence (sq_slots q i)
      in if seq - pos \<noteq> 0 then (False, q)
         else (True, q\<lparr>sq_slots := (sq_slots q)(i := \<lparr>qs_storage = item, qs_sequence = pos + 1\<rparr>),
                       sq_head := pos + 1\<rparr>))"

definition try_pop :: "u64 \<Rightarrow> 'a SpscQueue \<Rightarrow> 'a option \<times> 'a SpscQueue" where
  "try_pop cap q =
     (let pos = sq_tail q;
          i = slot_index cap pos;
          slot = sq_slots q i
      in if qs_sequence slot - (pos + 1) \<noteq> 0 then (None, q)
         else (Some (qs_storage slot),
               q\<lparr>sq_slots := (sq_slots q)(i := slot\<lparr>qs_sequence := pos + cap\<rparr>),
                 sq_tail := pos + 1\<rparr>))"

definition queue_empty :: "'a SpscQueue \<Rightarrow> bool" where
  "queue_empty q \<longleftrightarrow> sq_head q = sq_tail q"

definition size_approx :: "'a SpscQueue \<Rightarrow> u64" where
  "size_approx q = sq_head q - sq_tail q"

section \<open>Interleaved threads\<close>

text \<open>
  The program counters. The producer has read \<^verbatim>\<open>head_\<close>, has found its slot free, has
  written the storage, has published the sequence number; the consumer correspondingly.
  An idle thread is between two calls. A failed call goes back to idle.
\<close>

datatype 'a producer = P_Idle | P_Pos 'a u64 | P_Free 'a u64 | P_Stored 'a u64 | P_Published u64

datatype 'a consumer = C_Idle | C_Pos u64 | C_Ready u64 | C_Copied 'a u64 | C_Released u64

text \<open>
  \<open>th_pushed\<close> and \<open>th_popped\<close> record the items in the order in which the sequence stores of
  the two threads take effect.
\<close>

record 'a threads =
  th_queue :: "'a SpscQueue"
  th_prod :: "'a producer"
  th_cons :: "'a consumer"
  th_pushed :: "'a list"
  th_popped :: "'a list"

definition set_slot :: "nat \<Rightarrow> ('a QSlot \<Rightarrow> 'a QSlot) \<Rightarrow> 'a SpscQueue \<Rightarrow> 'a SpscQueue" where
  "set_slot i f q = q\<lparr>sq_slots := (sq_slots q)(i := f (sq_slots q i))\<rparr>"

text \<open>One load or store of \<^verbatim>\<open>try_push(item)\<close>.\<close>

definition prod_step :: "u64 \<Rightarrow> 'a \<Rightarrow> 'a threads \<Rightarrow> 'a threads" where
  "prod_step cap item s =
     (let q = th_queue s in
      case th_prod s of
        P_Idle \<Rightarrow> s\<lparr>th_prod := P_Pos item (sq_head q)\<rparr>
      | P_Pos x pos \<Rightarrow>
          (if qs_sequence (sq_slots q (slot_index cap pos)) - pos \<noteq> 0 then s\<lparr>th_prod := P_Idle\<rparr>
           else s\<lparr>th_prod := P_Free x pos\<rparr>)
      | P_Free x pos \<Rightarrow>
          s\<lparr>th_queue := set_slot (slot_index cap pos) (\<lambda>sl. sl\<lparr>qs_storage := x\<rparr>) q,
            th_prod := P_Stored x pos\<rparr>
      | P_Stored x pos \<Rightarrow>
          s\<lparr>th_queue := set_slot (slot_index cap pos) (\<lambda>sl. sl\<lparr>qs_sequence := pos + 1\<rparr>) q,
            th_prod := P_Published pos, th_pushed := th_pushed s @ [x]\<rparr>
      | P_Published pos \<Rightarrow> s\<lparr>th_queue := q\<lparr>sq_head := pos + 1\<rparr>, th_prod := P_Idle\<rparr>)"

text \<open>One load or store of \<^verbatim>\<open>try_pop\<close>.\<close>

definition cons_step :: "u64 \<Rightarrow> 'a threads \<Rightarrow> 'a threads" where
  "cons_step cap s =
     (let q = th_queue s in
      case th_cons s of
        C_Idle \<Rightarrow> s\<lparr>th_cons := C_Pos (sq_tail q)\<rparr>
      | C_Pos pos \<Rightarrow>
          (if qs_sequence (sq_slots q (slot_index cap pos)) - (pos + 1) \<noteq> 0 then s\<lparr>th_cons := C_Idle\<rparr>
           else s\<lparr>th_cons := C_Ready pos\<rparr>)
      | C_Ready pos \<Rightarrow> s\<lparr>th_cons := C_Copied (qs_storage (sq_slots q (slot_index cap pos))) pos\<rparr>
      | C_Copied x pos \<Rightarrow>
          s\<lparr>th_queue := set_slot (slot_index cap pos) (\<lambda>sl. sl\<lparr>qs_sequence := pos + cap\<rparr>) q,
            th_cons := C_Released pos, th_popped := th_popped s @ [x]\<rparr>
      | C_Released pos \<Rightarrow> s\<lparr>th_queue := q\<lparr>sq_tail := pos + 1\<rparr>, th_cons := C_Idle\<rparr>)"

inductive spsc_step :: "u64 \<Rightarrow> 'a threads \<Rightarrow> 'a threads \<Rightarrow> bool" for cap where
  producer: "spsc_step cap s (prod_step cap item s)"
| consumer: "spsc_step cap s (cons_step cap s)"

definition init_threads :: "'a \<Rightarrow> 'a threads" where
  "init_threads empty_item = \<lparr>th_queue = init_SpscQueue empty_item, th_prod = P_Idle, th_cons = C_Idle,
     th_pushed = [], th_popped = []\<rparr>"

inductive_cases spsc_stepE: "spsc_step cap s s'"

section \<open>Positions as tickets\<close>

text \<open>
  \<open>ring cap t xs slots\<close>: the items \<open>xs\<close> are stored for the tickets \<open>t\<close>, \<open>t + 1\<close>, ...; every
  slot belongs to exactly one ticket of \<open>t\<close> to \<open>t + cap - 1\<close>, and its sequence number is
  the ticket when it is free and the ticket plus one when it holds an item.
\<close>

definition cap_ok :: "u64 \<Rightarrow> bool" where
  "cap_ok cap \<longleftrightarrow> (\<exists>e. 1 \<le> e \<and> e < 64 \<and> cap = 2 ^ e)"

definition ring :: "u64 \<Rightarrow> nat \<Rightarrow> 'a list \<Rightarrow> 'a QSlot array \<Rightarrow> bool" where
  "ring cap t xs slots \<longleftrightarrow> length xs \<le> unat cap \<and>
     (\<forall>j < unat cap. qs_sequence (slots ((t + j) mod unat cap)) =
        (if j < length xs then of_nat (t + j + 1) else of_nat (t + j)) \<and>
        (j < length xs \<longrightarrow> qs_storage (slots ((t + j) mod unat cap)) = xs ! j))"

lemma unat_cap: "e < 64 \<Longrightarrow> unat (2 ^ e :: u64) = 2 ^ e"
proof -
  assume e: "e < 64"
  have "(2 ^ e :: u64) = of_nat (2 ^ e)" by simp
  then have "unat (2 ^ e :: u64) = 2 ^ e mod 2 ^ 64" by (simp only: unat_of_nat take_bit_eq_mod) simp
  also have "\<dots> = 2 ^ e" using power_strict_increasing [OF e, of "2 :: nat"] by (intro mod_less) simp
  finally show ?thesis .
qed

lemma cap_okD:
  assumes "cap_ok cap"
  obtains e where "1 \<le> e" "e < 64" "cap = 2 ^ e" "unat cap = 2 ^ e"
proof -
  obtain e where e: "1 \<le> e" "e < 64" "cap = 2 ^ e" using assms by (auto simp: cap_ok_def)
  then have "unat cap = 2 ^ e" using unat_cap by simp
  with e show thesis using that by blast
qed

lemma cap_bounds: "cap_ok cap \<Longrightarrow> 2 \<le> unat cap \<and> unat cap \<le> 2 ^ 63"
proof -
  assume "cap_ok cap"
  then obtain e where e: "1 \<le> e" "e < 64" "unat cap = 2 ^ e" by (rule cap_okD)
  have "(2 :: nat) ^ 1 \<le> 2 ^ e" using e by (intro power_increasing) auto
  moreover have "(2 :: nat) ^ e \<le> 2 ^ 63" using e by (intro power_increasing) auto
  ultimately show ?thesis using e(3) by simp
qed

lemma slot_index_ticket: "cap_ok cap \<Longrightarrow> slot_index cap (of_nat n) = n mod unat cap"
proof -
  assume "cap_ok cap"
  then obtain e where e: "e < 64" "cap = 2 ^ e" "unat cap = 2 ^ e" by (rule cap_okD)
  have "of_nat n AND (cap - 1) = take_bit e (of_nat n :: u64)"
    by (simp add: e(2) take_bit_eq_mask mask_eq_exp_minus_1)
  also have "unat \<dots> = n mod 2 ^ e"
    unfolding unsigned_take_bit_eq unat_of_nat unfolding take_bit_eq_mod
    by (rule mod_mod_cancel) (use le_imp_power_dvd [of e 64 "2 :: nat"] e(1) in simp)
  finally show ?thesis by (simp add: slot_index_def e(3))
qed

lemma of_nat_neq: "0 < d \<Longrightarrow> d < 2 ^ 64 \<Longrightarrow> (of_nat (n + d) :: u64) \<noteq> of_nat n"
proof
  assume d: "0 < d" "d < 2 ^ 64" and "(of_nat (n + d) :: u64) = of_nat n"
  then have "(of_nat d :: u64) = 0" by simp
  then have "unat (of_nat d :: u64) = 0" by simp
  then show False using d by (simp add: unat_of_nat take_bit_eq_mod)
qed

lemma ring_slot:
  assumes "ring cap t xs slots" "j < unat cap"
  shows "qs_sequence (slots ((t + j) mod unat cap)) =
      (if j < length xs then of_nat (t + j + 1) else of_nat (t + j))"
    "j < length xs \<Longrightarrow> qs_storage (slots ((t + j) mod unat cap)) = xs ! j"
  using assms unfolding ring_def by blast+

lemma ticket_slot_less:
  assumes "i < j" "j < (n :: nat)"
  shows "(t + i) mod n \<noteq> (t + j) mod n"
proof
  assume "(t + i) mod n = (t + j) mod n"
  then have "n dvd j - i" using mod_eq_dvd_iff_nat [of "t + i" "t + j" n] assms(1) by simp
  then show False using assms by (auto dest: dvd_imp_le)
qed

lemma ticket_slot_eq:
  "i < n \<Longrightarrow> j < n \<Longrightarrow> (t + i) mod n = (t + j) mod n \<longleftrightarrow> i = (j :: nat)"
  by (metis ticket_slot_less linorder_neqE_nat)

text \<open>Publishing the item of the next ticket, and releasing the first one.\<close>

lemma ring_push:
  assumes r: "ring cap t xs slots" and room: "length xs < unat cap"
  defines "i \<equiv> (t + length xs) mod unat cap"
  shows "ring cap t (xs @ [x]) (slots(i := \<lparr>qs_storage = x, qs_sequence = of_nat (t + length xs + 1)\<rparr>))"
  unfolding ring_def
proof (intro conjI allI impI)
  fix j assume j: "j < unat cap"
  have "(t + j) mod unat cap = i \<longleftrightarrow> j = length xs" unfolding i_def by (rule ticket_slot_eq [OF j room])
  then show "qs_sequence ((slots(i := \<lparr>qs_storage = x, qs_sequence = of_nat (t + length xs + 1)\<rparr>)) ((t + j) mod unat cap)) =
      (if j < length (xs @ [x]) then of_nat (t + j + 1) else of_nat (t + j))"
    using ring_slot(1) [OF r j] by auto
  show "j < length (xs @ [x]) \<Longrightarrow>
      qs_storage ((slots(i := \<lparr>qs_storage = x, qs_sequence = of_nat (t + length xs + 1)\<rparr>)) ((t + j) mod unat cap)) =
      (xs @ [x]) ! j"
    using ring_slot(2) [OF r j] \<open>(t + j) mod unat cap = i \<longleftrightarrow> j = length xs\<close>
    by (auto simp: nth_append)
qed (use room in simp)

lemma ring_pop:
  assumes r: "ring cap t (x # xs) slots" and cap: "2 \<le> unat cap"
  defines "i \<equiv> t mod unat cap"
  assumes st: "qs_sequence sl = of_nat (t + unat cap)"
  shows "ring cap (t + 1) xs (slots(i := sl))"
  unfolding ring_def
proof (intro conjI allI impI)
  have len: "length xs < unat cap" using r by (simp add: ring_def)
  then show "length xs \<le> unat cap" by simp
  fix j assume j: "j < unat cap"
  consider "j + 1 < unat cap" | "j = unat cap - 1" using j by linarith
  then have *: "qs_sequence ((slots(i := sl)) ((t + 1 + j) mod unat cap)) =
        (if j < length xs then of_nat (t + 1 + j + 1) else of_nat (t + 1 + j)) \<and>
      (j < length xs \<longrightarrow> qs_storage ((slots(i := sl)) ((t + 1 + j) mod unat cap)) = xs ! j)"
  proof cases
    case 1
    have e: "t + 1 + j = t + (j + 1)" by simp
    have "(t + (j + 1)) mod unat cap \<noteq> i"
      unfolding i_def using ticket_slot_eq [of "j + 1" "unat cap" 0 t] 1 cap by simp
    then show ?thesis unfolding e using ring_slot [OF r 1] by simp
  next
    case 2
    then have e: "t + 1 + j = t + unat cap" using cap by simp
    have "\<not> j < length xs" using len 2 by simp
    then show ?thesis unfolding e using st by (simp add: i_def)
  qed
  then show "qs_sequence ((slots(i := sl)) ((t + 1 + j) mod unat cap)) =
        (if j < length xs then of_nat (t + 1 + j + 1) else of_nat (t + 1 + j))" by blast
  show "j < length xs \<Longrightarrow> qs_storage ((slots(i := sl)) ((t + 1 + j) mod unat cap)) = xs ! j"
    using * by blast
qed

text \<open>What the two threads see in the slot they look at.\<close>

lemma ring_push_check:
  assumes cap: "cap_ok cap" and r: "ring cap t xs slots"
  shows "qs_sequence (slots (slot_index cap (of_nat (t + length xs)))) - of_nat (t + length xs) \<noteq> 0 \<longleftrightarrow>
    length xs = unat cap"
proof -
  note b = cap_bounds [OF cap]
  have i: "slot_index cap (of_nat (t + length xs)) = (t + length xs) mod unat cap"
    by (rule slot_index_ticket [OF cap])
  show ?thesis
  proof (cases "length xs < unat cap")
    case True
    then show ?thesis using ring_slot(1) [OF r True] unfolding i by simp
  next
    case False
    then have l: "length xs = unat cap" using r by (simp add: ring_def)
    have "qs_sequence (slots (t mod unat cap)) = of_nat (t + 1)"
      using ring_slot(1) [OF r, of 0] b l by simp
    moreover have "(of_nat (t + 1 + (unat cap - 1)) :: u64) \<noteq> of_nat (t + 1)"
      by (rule of_nat_neq) (use b in auto)
    ultimately show ?thesis unfolding i using l b by (simp del: of_nat_add)
  qed
qed

lemma ring_pop_check:
  assumes cap: "cap_ok cap" and r: "ring cap t xs slots"
  shows "qs_sequence (slots (slot_index cap (of_nat t))) - (of_nat t + 1) \<noteq> 0 \<longleftrightarrow> xs = []"
proof -
  have i: "slot_index cap (of_nat t) = t mod unat cap" by (rule slot_index_ticket [OF cap])
  have "qs_sequence (slots (t mod unat cap)) = (if 0 < length xs then of_nat (t + 1) else of_nat t)"
    using ring_slot(1) [OF r, of 0] cap_bounds [OF cap] by simp
  then show ?thesis unfolding i by auto
qed

section \<open>A bounded FIFO\<close>

text \<open>
  Any sequence of calls: \<open>Some x\<close> pushes \<open>x\<close>, \<open>None\<close> pops. The accepted items are the
  popped ones followed by the contents.
\<close>

fun queue_calls :: "('a \<Rightarrow> 'q \<Rightarrow> bool \<times> 'q) \<Rightarrow> ('q \<Rightarrow> 'a option \<times> 'q) \<Rightarrow> 'a option list \<Rightarrow> 'q \<Rightarrow>
    'q \<times> 'a list \<times> 'a list" where
  "queue_calls push_item pop_item [] q = (q, [], [])"
| "queue_calls push_item pop_item (Some x # cs) q =
     (case push_item x q of (ok, q') \<Rightarrow>
      case queue_calls push_item pop_item cs q' of (r, ins, outs) \<Rightarrow> (r, (if ok then x # ins else ins), outs))"
| "queue_calls push_item pop_item (None # cs) q =
     (case pop_item q of (y, q') \<Rightarrow>
      case queue_calls push_item pop_item cs q' of (r, ins, outs) \<Rightarrow> (r, ins, (case y of None \<Rightarrow> outs | Some x \<Rightarrow> x # outs)))"

text \<open>
  The contract of a bounded queue, with the contents as a list: a push appends and fails
  exactly on a full queue, a pop takes the first item and fails exactly on an empty one.
\<close>

locale bounded_fifo =
  fixes rep :: "'q \<Rightarrow> 'a list \<Rightarrow> bool"
    and push_item :: "'a \<Rightarrow> 'q \<Rightarrow> bool \<times> 'q"
    and pop_item :: "'q \<Rightarrow> 'a option \<times> 'q"
    and room :: nat
  assumes push_law: "rep q xs \<Longrightarrow> push_item x q = (ok, q') \<Longrightarrow>
      ok = (length xs < room) \<and> rep q' (if length xs < room then xs @ [x] else xs)"
    and pop_law: "rep q xs \<Longrightarrow> pop_item q = (y, q') \<Longrightarrow>
      (case xs of [] \<Rightarrow> y = None \<and> rep q' [] | x # xs' \<Rightarrow> y = Some x \<and> rep q' xs')"
    and rep_room: "rep q xs \<Longrightarrow> length xs \<le> room"
begin

lemma calls_fifo:
  "rep q xs \<Longrightarrow> queue_calls push_item pop_item cs q = (r, ins, outs) \<Longrightarrow>
   \<exists>ys. rep r ys \<and> xs @ ins = outs @ ys"
proof (induction cs arbitrary: q xs r ins outs)
  case (Cons c cs)
  show ?case
  proof (cases c)
    case (Some x)
    obtain ok q' where p: "push_item x q = (ok, q')" by fastforce
    obtain r' i o' where c: "queue_calls push_item pop_item cs q' = (r', i, o')" by (metis prod_cases3)
    note l = push_law [OF Cons.prems(1) p]
    from Cons.IH [OF conjunct2 [OF l] c]
    show ?thesis using Cons.prems(2) p c l Some by (auto split: if_splits)
  next
    case None
    obtain y q' where p: "pop_item q = (y, q')" by fastforce
    obtain r' i o' where c: "queue_calls push_item pop_item cs q' = (r', i, o')" by (metis prod_cases3)
    note l = pop_law [OF Cons.prems(1) p]
    show ?thesis
    proof (cases xs)
      case Nil
      then show ?thesis using Cons.IH [OF _ c, of "[]"] l Cons.prems(2) p c None by simp
    next
      case (Cons x xs')
      then show ?thesis using Cons.IH [OF _ c, of xs'] l Cons.prems(2) p c None by auto
    qed
  qed
qed auto

end

definition queue_rep :: "u64 \<Rightarrow> 'a SpscQueue \<Rightarrow> 'a list \<Rightarrow> bool" where
  "queue_rep cap q xs \<longleftrightarrow> cap_ok cap \<and>
     (\<exists>t. sq_tail q = of_nat t \<and> sq_head q = of_nat (t + length xs) \<and> ring cap t xs (sq_slots q))"

lemma queue_rep_init: "cap_ok cap \<Longrightarrow> queue_rep cap (init_SpscQueue d) []"
  using cap_bounds [of cap] by (auto simp: queue_rep_def init_SpscQueue_def ring_def intro!: exI [of _ 0])

lemma try_push_rep:
  assumes r: "queue_rep cap q xs" and p: "try_push cap x q = (ok, q')"
  shows "ok = (length xs < unat cap) \<and> queue_rep cap q' (if length xs < unat cap then xs @ [x] else xs)"
proof -
  obtain t where t: "sq_tail q = of_nat t" "sq_head q = of_nat (t + length xs)" "ring cap t xs (sq_slots q)"
    and cap: "cap_ok cap" using r by (auto simp: queue_rep_def)
  note c = ring_push_check [OF cap t(3)]
  have le: "length xs \<le> unat cap" using t(3) by (simp add: ring_def)
  have i: "slot_index cap (of_nat (t + length xs)) = (t + length xs) mod unat cap"
    by (rule slot_index_ticket [OF cap])
  show ?thesis
  proof (cases "length xs < unat cap")
    case True
    have "try_push cap x q = (True, q\<lparr>sq_slots := (sq_slots q)((t + length xs) mod unat cap :=
        \<lparr>qs_storage = x, qs_sequence = of_nat (t + length xs + 1)\<rparr>), sq_head := of_nat (t + length xs + 1)\<rparr>)"
      using c True unfolding try_push_def Let_def t(2) i by (simp add: add.commute)
    then show ?thesis using p True ring_push [OF t(3) True, of x] t(1) cap
      by (auto simp: queue_rep_def intro!: exI [of _ t])
  next
    case False
    then have "try_push cap x q = (False, q)" using c le unfolding try_push_def Let_def t(2) by simp
    then show ?thesis using p False r by auto
  qed
qed

lemma try_pop_rep:
  assumes r: "queue_rep cap q xs" and p: "try_pop cap q = (y, q')"
  shows "case xs of [] \<Rightarrow> y = None \<and> queue_rep cap q' [] | x # xs' \<Rightarrow> y = Some x \<and> queue_rep cap q' xs'"
proof -
  obtain t where t: "sq_tail q = of_nat t" "sq_head q = of_nat (t + length xs)" "ring cap t xs (sq_slots q)"
    and cap: "cap_ok cap" using r by (auto simp: queue_rep_def)
  note c = ring_pop_check [OF cap t(3)] and b = cap_bounds [OF cap]
  have i: "slot_index cap (of_nat t) = t mod unat cap" by (rule slot_index_ticket [OF cap])
  show ?thesis
  proof (cases xs)
    case Nil
    then have "try_pop cap q = (None, q)" using c unfolding try_pop_def Let_def t(1) by simp
    then show ?thesis using p Nil r by simp
  next
    case (Cons x xs')
    let ?sl = "(sq_slots q (t mod unat cap))\<lparr>qs_sequence := of_nat (t + unat cap)\<rparr>"
    have st: "qs_storage (sq_slots q (t mod unat cap)) = x"
      using ring_slot(2) [OF t(3), of 0] b Cons by simp
    have "try_pop cap q = (Some x, q\<lparr>sq_slots := (sq_slots q)(t mod unat cap := ?sl), sq_tail := of_nat (t + 1)\<rparr>)"
      using c Cons st unfolding try_pop_def Let_def t(1) i by (simp add: add.commute)
    moreover have "ring cap (t + 1) xs' ((sq_slots q)(t mod unat cap := ?sl))"
      using ring_pop [OF t(3) [unfolded Cons], of ?sl] b by simp
    ultimately show ?thesis using p Cons t(2) cap
      by (auto simp: queue_rep_def intro!: exI [of _ "t + 1"])
  qed
qed

interpretation spsc: bounded_fifo "queue_rep cap" "try_push cap" "try_pop cap" "unat cap"
proof
  show "queue_rep cap q xs \<Longrightarrow> try_push cap x q = (ok, q') \<Longrightarrow> ok = (length xs < unat cap) \<and>
      queue_rep cap q' (if length xs < unat cap then xs @ [x] else xs)" for q :: "'a SpscQueue" and xs x ok q'
    by (rule try_push_rep)
  show "queue_rep cap q xs \<Longrightarrow> try_pop cap q = (y, q') \<Longrightarrow>
      (case xs of [] \<Rightarrow> y = None \<and> queue_rep cap q' [] | x # xs' \<Rightarrow> y = Some x \<and> queue_rep cap q' xs')"
    for q :: "'a SpscQueue" and xs y q'
    by (rule try_pop_rep)
  show "queue_rep cap q xs \<Longrightarrow> length xs \<le> unat cap" for q :: "'a SpscQueue" and xs
    by (auto simp: queue_rep_def ring_def)
qed

section \<open>The invariant of the interleaved threads\<close>

fun prod_ok :: "u64 \<Rightarrow> 'a SpscQueue \<Rightarrow> nat \<Rightarrow> nat \<Rightarrow> 'a producer \<Rightarrow> bool" where
  "prod_ok cap q h n P_Idle = (sq_head q = of_nat h)"
| "prod_ok cap q h n (P_Pos x pos) = (sq_head q = of_nat h \<and> pos = of_nat h)"
| "prod_ok cap q h n (P_Free x pos) = (sq_head q = of_nat h \<and> pos = of_nat h \<and> n < unat cap)"
| "prod_ok cap q h n (P_Stored x pos) = (sq_head q = of_nat h \<and> pos = of_nat h \<and> n < unat cap \<and>
     qs_storage (sq_slots q (slot_index cap pos)) = x)"
| "prod_ok cap q h n (P_Published pos) = (sq_head q = pos \<and> pos + 1 = of_nat h)"

fun cons_ok :: "'a SpscQueue \<Rightarrow> nat \<Rightarrow> 'a list \<Rightarrow> 'a consumer \<Rightarrow> bool" where
  "cons_ok q t rest C_Idle = (sq_tail q = of_nat t)"
| "cons_ok q t rest (C_Pos pos) = (sq_tail q = of_nat t \<and> pos = of_nat t)"
| "cons_ok q t rest (C_Ready pos) = (sq_tail q = of_nat t \<and> pos = of_nat t \<and> rest \<noteq> [])"
| "cons_ok q t rest (C_Copied x pos) = (sq_tail q = of_nat t \<and> pos = of_nat t \<and> rest \<noteq> [] \<and> x = hd rest)"
| "cons_ok q t rest (C_Released pos) = (sq_tail q = pos \<and> pos + 1 = of_nat t)"

definition threads_inv :: "u64 \<Rightarrow> 'a threads \<Rightarrow> bool" where
  "threads_inv cap s \<longleftrightarrow> cap_ok cap \<and> (\<exists>rest. th_pushed s = th_popped s @ rest \<and>
     ring cap (length (th_popped s)) rest (sq_slots (th_queue s)) \<and>
     prod_ok cap (th_queue s) (length (th_pushed s)) (length rest) (th_prod s) \<and>
     cons_ok (th_queue s) (length (th_popped s)) rest (th_cons s))"

lemma threads_inv_init: "cap_ok cap \<Longrightarrow> threads_inv cap (init_threads d)"
  using cap_bounds [of cap]
  by (auto simp: threads_inv_def init_threads_def init_SpscQueue_def ring_def)

lemma set_slot_fields [simp]:
  "sq_head (set_slot i f q) = sq_head q" "sq_tail (set_slot i f q) = sq_tail q"
  "sq_slots (set_slot i f q) = (sq_slots q)(i := f (sq_slots q i))"
  by (simp_all add: set_slot_def)

text \<open>Writing the storage of the next free slot leaves the ring as it is.\<close>

lemma ring_store:
  assumes r: "ring cap t xs slots" and room: "length xs < unat cap"
  defines "i \<equiv> (t + length xs) mod unat cap"
  shows "ring cap t xs (slots(i := (slots i)\<lparr>qs_storage := x\<rparr>))"
  unfolding ring_def
proof (intro conjI allI impI)
  fix j assume j: "j < unat cap"
  have e: "(t + j) mod unat cap = i \<longleftrightarrow> j = length xs" unfolding i_def by (rule ticket_slot_eq [OF j room])
  show "qs_sequence ((slots(i := (slots i)\<lparr>qs_storage := x\<rparr>)) ((t + j) mod unat cap)) =
      (if j < length xs then of_nat (t + j + 1) else of_nat (t + j))"
    using ring_slot(1) [OF r j] by (cases "(t + j) mod unat cap = i") auto
  show "j < length xs \<Longrightarrow> qs_storage ((slots(i := (slots i)\<lparr>qs_storage := x\<rparr>)) ((t + j) mod unat cap)) = xs ! j"
    using ring_slot(2) [OF r j] e by auto
qed (use room in simp)

lemma prod_step_inv:
  assumes "threads_inv cap s"
  shows "threads_inv cap (prod_step cap item s)"
proof -
  obtain rest where cap: "cap_ok cap" and log: "th_pushed s = th_popped s @ rest"
    and r: "ring cap (length (th_popped s)) rest (sq_slots (th_queue s))"
    and p: "prod_ok cap (th_queue s) (length (th_pushed s)) (length rest) (th_prod s)"
    and c: "cons_ok (th_queue s) (length (th_popped s)) rest (th_cons s)"
    using assms by (auto simp: threads_inv_def)
  let ?q = "th_queue s" and ?t = "length (th_popped s)" and ?h = "length (th_pushed s)"
  have h: "?h = ?t + length rest" by (simp add: log)
  have i: "slot_index cap (of_nat ?h) = (?t + length rest) mod unat cap"
    unfolding h by (rule slot_index_ticket [OF cap])
  have chk: "qs_sequence (sq_slots ?q (slot_index cap (of_nat ?h))) - of_nat ?h \<noteq> 0 \<longleftrightarrow> length rest = unat cap"
    unfolding h by (rule ring_push_check [OF cap r])
  have le: "length rest \<le> unat cap" using r by (simp add: ring_def)
  show ?thesis
  proof (cases "th_prod s")
    case P_Idle
    then show ?thesis unfolding threads_inv_def using cap log r p c
      by (intro conjI exI [of _ rest]) (simp_all add: prod_step_def)
  next
    case (P_Pos x pos)
    then have pos: "pos = of_nat ?h" "sq_head ?q = of_nat ?h" using p by auto
    show ?thesis unfolding threads_inv_def using cap log r c P_Pos pos chk le
      by (intro conjI exI [of _ rest]) (simp_all add: prod_step_def)
  next
    case (P_Free x pos)
    then have pos: "pos = of_nat ?h" "sq_head ?q = of_nat ?h" "length rest < unat cap" using p by auto
    have c': "cons_ok (set_slot k f ?q) ?t rest (th_cons s)" for k f using c by (cases "th_cons s") simp_all
    show ?thesis unfolding threads_inv_def using cap log P_Free pos ring_store [OF r pos(3)] c' i
      by (intro conjI exI [of _ rest]) (simp_all add: prod_step_def)
  next
    case (P_Stored x pos)
    then have pos: "pos = of_nat ?h" "sq_head ?q = of_nat ?h" "length rest < unat cap"
      "qs_storage (sq_slots ?q (slot_index cap (of_nat ?h))) = x" using p by auto
    have c': "cons_ok (set_slot k f ?q) ?t (rest @ [x]) (th_cons s)" for k f
      using c by (cases "th_cons s") auto
    have sl: "(sq_slots ?q (slot_index cap (of_nat ?h)))\<lparr>qs_sequence := of_nat ?h + 1\<rparr> =
        \<lparr>qs_storage = x, qs_sequence = of_nat (?t + length rest + 1)\<rparr>"
      using pos(4) h by (cases "sq_slots ?q (slot_index cap (of_nat ?h))") (simp add: add.commute)
    have ring': "ring cap ?t (rest @ [x]) (sq_slots (set_slot (slot_index cap pos) (\<lambda>y. y\<lparr>qs_sequence := pos + 1\<rparr>) ?q))"
      unfolding set_slot_fields pos(1) sl unfolding i by (rule ring_push [OF r pos(3)])
    have st: "prod_step cap item s = s\<lparr>th_queue := set_slot (slot_index cap pos) (\<lambda>y. y\<lparr>qs_sequence := pos + 1\<rparr>) ?q,
        th_prod := P_Published pos, th_pushed := th_pushed s @ [x]\<rparr>"
      by (simp add: prod_step_def P_Stored)
    show ?thesis unfolding threads_inv_def st
      using cap log pos ring' c' by (intro conjI exI [of _ "rest @ [x]"]) simp_all
  next
    case (P_Published pos)
    then have pos: "pos + 1 = of_nat ?h" using p by simp
    have c': "cons_ok (?q\<lparr>sq_head := k\<rparr>) ?t rest (th_cons s)" for k using c by (cases "th_cons s") simp_all
    show ?thesis unfolding threads_inv_def using cap log r P_Published pos c'
      by (intro conjI exI [of _ rest]) (simp_all add: prod_step_def)
  qed
qed

lemma cons_step_inv:
  assumes "threads_inv cap s"
  shows "threads_inv cap (cons_step cap s)"
proof -
  obtain rest where cap: "cap_ok cap" and log: "th_pushed s = th_popped s @ rest"
    and r: "ring cap (length (th_popped s)) rest (sq_slots (th_queue s))"
    and p: "prod_ok cap (th_queue s) (length (th_pushed s)) (length rest) (th_prod s)"
    and c: "cons_ok (th_queue s) (length (th_popped s)) rest (th_cons s)"
    using assms by (auto simp: threads_inv_def)
  let ?q = "th_queue s" and ?t = "length (th_popped s)" and ?h = "length (th_pushed s)"
  have i: "slot_index cap (of_nat ?t) = ?t mod unat cap" by (rule slot_index_ticket [OF cap])
  note chk = ring_pop_check [OF cap r] and b = cap_bounds [OF cap]
  show ?thesis
  proof (cases "th_cons s")
    case C_Idle
    then show ?thesis unfolding threads_inv_def using cap log r p c
      by (intro conjI exI [of _ rest]) (simp_all add: cons_step_def)
  next
    case (C_Pos pos)
    then have pos: "pos = of_nat ?t" "sq_tail ?q = of_nat ?t" using c by auto
    show ?thesis unfolding threads_inv_def using cap log r p C_Pos pos chk
      by (intro conjI exI [of _ rest]) (auto simp: cons_step_def)
  next
    case (C_Ready pos)
    then have pos: "pos = of_nat ?t" "sq_tail ?q = of_nat ?t" "rest \<noteq> []" using c by auto
    have "qs_storage (sq_slots ?q (slot_index cap (of_nat ?t))) = hd rest"
      using ring_slot(2) [OF r, of 0] b pos(3) unfolding i by (simp add: hd_conv_nth)
    then show ?thesis unfolding threads_inv_def using cap log r p C_Ready pos
      by (intro conjI exI [of _ rest]) (simp_all add: cons_step_def)
  next
    case (C_Copied x pos)
    then have pos: "pos = of_nat ?t" "sq_tail ?q = of_nat ?t" "rest \<noteq> []" "x = hd rest" using c by auto
    then obtain rest' where rest: "rest = x # rest'" by (cases rest) auto
    have ring': "ring cap (?t + 1) rest' ((sq_slots ?q)(?t mod unat cap :=
        (sq_slots ?q (?t mod unat cap))\<lparr>qs_sequence := of_nat ?t + cap\<rparr>))"
      using b by (intro ring_pop [OF r [unfolded rest]]) simp_all
    have p': "prod_ok cap (set_slot k (\<lambda>sl. sl\<lparr>qs_sequence := v\<rparr>) ?q) ?h (length rest') (th_prod s)" for k v
      using p rest by (cases "th_prod s") auto
    have st: "cons_step cap s = s\<lparr>th_queue := set_slot (slot_index cap pos) (\<lambda>y. y\<lparr>qs_sequence := pos + cap\<rparr>) ?q,
        th_cons := C_Released pos, th_popped := th_popped s @ [x]\<rparr>"
      by (simp add: cons_step_def C_Copied)
    have "ring cap (?t + 1) rest' (sq_slots (set_slot (slot_index cap pos) (\<lambda>y. y\<lparr>qs_sequence := pos + cap\<rparr>) ?q))"
      unfolding set_slot_fields pos(1) i by (rule ring')
    then show ?thesis unfolding threads_inv_def st using cap log pos(1,2) rest p'
      by (intro conjI exI [of _ rest']) simp_all
  next
    case (C_Released pos)
    then have pos: "pos + 1 = of_nat ?t" using c by simp
    have p': "prod_ok cap (?q\<lparr>sq_tail := k\<rparr>) ?h (length rest) (th_prod s)" for k
      using p by (cases "th_prod s") simp_all
    show ?thesis unfolding threads_inv_def using cap log r C_Released pos p'
      by (intro conjI exI [of _ rest]) (simp_all add: cons_step_def)
  qed
qed

interpretation spsc_threads: step_system "\<lambda>s. cap_ok cap \<and> s = init_threads d" "spsc_step cap" "threads_inv cap"
  for cap d
  by unfold_locales (auto simp: threads_inv_init prod_step_inv cons_step_inv elim!: spsc_stepE)

section \<open>Properties\<close>

text \<open>
  Under every interleaving of the producer's and the consumer's individual loads and
  stores, the items popped so far are a prefix of the items pushed so far, in the same
  order, with none lost or doubled; at most \<open>cap\<close> items are in flight; and the producer
  never writes the storage of a slot while the consumer reads it. Positions may wrap around
  \<open>2 ^ 64\<close> any number of times.
\<close>

theorem spsc_fifo_concurrent:
  assumes "cap = 2 ^ e" "1 \<le> e" "e < 64" "(spsc_step cap)\<^sup>*\<^sup>* (init_threads d) s"
  shows "(\<exists>rest. th_pushed s = th_popped s @ rest \<and> length rest \<le> unat cap) \<and>
    (\<forall>x p c. th_prod s = P_Free x p \<longrightarrow> th_cons s = C_Ready c \<longrightarrow> slot_index cap p \<noteq> slot_index cap c)"
proof -
  have cap: "cap_ok cap" using assms by (auto simp: cap_ok_def)
  have "threads_inv cap s" using spsc_threads.inv_reachable [of cap _ d s] cap assms(4) by blast
  then obtain rest where log: "th_pushed s = th_popped s @ rest"
    and r: "ring cap (length (th_popped s)) rest (sq_slots (th_queue s))"
    and p: "prod_ok cap (th_queue s) (length (th_pushed s)) (length rest) (th_prod s)"
    and c: "cons_ok (th_queue s) (length (th_popped s)) rest (th_cons s)"
    by (auto simp: threads_inv_def)
  have "slot_index cap q \<noteq> slot_index cap k" if "th_prod s = P_Free x q" "th_cons s = C_Ready k" for x q k
  proof -
    have "q = of_nat (length (th_popped s) + length rest)" "k = of_nat (length (th_popped s))"
      "length rest < unat cap" "rest \<noteq> []" using that p c log by auto
    then show ?thesis
      using ticket_slot_less [of 0 "length rest" "unat cap" "length (th_popped s)"]
      by (simp only: slot_index_ticket [OF cap]) simp
  qed
  then show ?thesis using log r unfolding ring_def by blast
qed

theorem spsc_fifo_concurrent_witness:
  "\<exists>rest. th_pushed (prod_step 4 (7 :: nat) (init_threads 0)) = th_popped (prod_step 4 7 (init_threads 0)) @ rest \<and>
     length rest \<le> unat (4 :: u64)"
proof -
  have "(spsc_step 4)\<^sup>*\<^sup>* (init_threads 0) (prod_step 4 (7 :: nat) (init_threads 0))"
    by (rule r_into_rtranclp) (rule spsc_step.producer)
  from spsc_fifo_concurrent [of 4 2, OF _ _ _ this] show ?thesis by auto
qed

text \<open>
  The two functions are what the single steps add up to when a call is not interrupted:
  five steps for a successful call, two for one that finds its slot not ready.
\<close>

theorem uninterrupted_calls:
  assumes "th_prod s = P_Idle" "th_cons s = C_Idle"
  shows "(case try_push cap x (th_queue s) of (ok, q) \<Rightarrow>
      (prod_step cap x ^^ (if ok then 5 else 2)) s =
        s\<lparr>th_queue := q, th_pushed := (if ok then th_pushed s @ [x] else th_pushed s)\<rparr>) \<and>
    (case try_pop cap (th_queue s) of (y, q) \<Rightarrow>
      (cons_step cap ^^ (if y = None then 2 else 5)) s =
        s\<lparr>th_queue := q, th_popped := (case y of None \<Rightarrow> th_popped s | Some x \<Rightarrow> th_popped s @ [x])\<rparr>)"
proof (cases s)
  case (fields q p c xs ys)
  show ?thesis using assms unfolding fields
    by (cases q) (auto simp: try_push_def try_pop_def prod_step_def cons_step_def set_slot_def Let_def
        eval_nat_numeral)
qed

theorem uninterrupted_calls_witness:
  "(case try_push 2 True (init_SpscQueue False) of (ok, q) \<Rightarrow>
      (prod_step 2 True ^^ (if ok then 5 else 2)) (init_threads False) =
        (init_threads False)\<lparr>th_queue := q, th_pushed := (if ok then [True] else [])\<rparr>)"
  using uninterrupted_calls [of "init_threads False" 2 True]
  by (auto simp: init_threads_def split: prod.splits)

lemma queue_rep_size:
  assumes "queue_rep cap q xs"
  shows "unat (size_approx q) = length xs" and "queue_empty q \<longleftrightarrow> xs = []"
proof -
  have cap: "cap_ok cap" and d: "sq_head q - sq_tail q = of_nat (length xs)"
    using assms by (auto simp: queue_rep_def)
  have "length xs < 2 ^ 64" using spsc.rep_room [OF assms] cap_bounds [OF cap] by simp
  then show size: "unat (size_approx q) = length xs"
    using d by (simp add: size_approx_def unat_of_nat take_bit_eq_mod)
  then show "queue_empty q \<longleftrightarrow> xs = []"
    by (metis queue_empty_def size_approx_def length_0_conv right_minus_eq unat_eq_0)
qed

lemmas queue_rep_empty = queue_rep_size(2)

text \<open>
  C25: One push and one pop on a queue with known contents, and any sequence of them: a push
  fails exactly when \<open>cap\<close> items are stored and otherwise appends, a pop fails exactly when
  none is stored and otherwise returns the oldest; starting from the constructed queue, the
  accepted items are the returned ones followed by those still stored.
\<close>

theorem spsc_is_bounded_fifo:
  assumes "cap = 2 ^ e" "1 \<le> e" "e < 64"
    and "queue_calls (try_push cap) (try_pop cap) cs (init_SpscQueue d) = (q, ins, outs)"
  shows "\<exists>ys. ins = outs @ ys \<and> length ys \<le> 2 ^ e \<and>
    fst (try_push cap x q) = (length ys < 2 ^ e) \<and>
    fst (try_pop cap q) = (if ys = [] then None else Some (hd ys)) \<and>
    (queue_empty q \<longleftrightarrow> ys = []) \<and> unat (size_approx q) = length ys"
proof -
  have cap: "cap_ok cap" using assms by (auto simp: cap_ok_def)
  then have u: "unat cap = 2 ^ e" using assms unat_cap by simp
  from spsc.calls_fifo [OF queue_rep_init [OF cap] assms(4)]
  obtain ys where ys: "queue_rep cap q ys" "ins = outs @ ys" by auto
  have le: "length ys \<le> unat cap" by (rule spsc.rep_room [OF ys(1)])
  have push: "fst (try_push cap x q) = (length ys < unat cap)"
    using spsc.push_law [OF ys(1), of x] by (cases "try_push cap x q") auto
  have pop: "fst (try_pop cap q) = (if ys = [] then None else Some (hd ys))"
    using spsc.pop_law [OF ys(1)] by (cases "try_pop cap q"; cases ys) auto
  show ?thesis using ys(2) le push pop queue_rep_size [OF ys(1)] unfolding u by blast
qed

theorem spsc_is_bounded_fifo_witness:
  "\<exists>q ins outs ys. queue_calls (try_push 2) (try_pop 2) [Some 5, Some 6, None] (init_SpscQueue (0 :: nat)) =
     (q, ins, outs) \<and> ins = outs @ ys \<and> (queue_empty q \<longleftrightarrow> ys = [])"
proof -
  obtain q ins outs where c: "queue_calls (try_push 2) (try_pop 2) [Some 5, Some 6, None]
      (init_SpscQueue (0 :: nat)) = (q, ins, outs)" by (metis prod_cases3)
  from spsc_is_bounded_fifo [of 2 1, OF _ _ _ c] show ?thesis using c by auto
qed

end
