(* ===== verification/Order_Pool.thy ===== *)
theory Order_Pool
  imports Protocol
begin

text \<open>
  The resting-order pool of \<^verbatim>\<open>BookBuilder\<close> (\<^verbatim>\<open>orders_\<close> and \<^verbatim>\<open>live_count_\<close> in
  \<^verbatim>\<open>include/mdp/book.hpp\<close>; \<^verbatim>\<open>order_slot\<close>, \<^verbatim>\<open>find_order\<close>, \<^verbatim>\<open>insert_order\<close> and
  \<^verbatim>\<open>erase_order\<close> in \<^verbatim>\<open>src/book.cpp\<close>): an open-addressed table of 65536 records with
  linear probing and backshift deletion.

  Every index into the table is masked with \<^verbatim>\<open>kOrderPool - 1\<close>, so an index is a 16-bit
  word: \<^verbatim>\<open>(idx + 1) & (kOrderPool - 1)\<close> is addition of 1 on 16-bit words, and the index
  type has exactly the elements of the array. A pointer to a record is its index.
\<close>

section \<open>State\<close>

definition kOrderPool :: nat where "kOrderPool = 65536"

type_synonym pool_index = "16 word"

record OrderRecord =
  or_order_id :: u64
  or_symbol_id :: u32
  or_side :: Side
  or_price :: u32
  or_qty :: u32
  or_state :: u8

definition init_OrderRecord :: OrderRecord where
  "init_OrderRecord = \<lparr>or_order_id = 0, or_symbol_id = 0, or_side = Buy, or_price = 0,
     or_qty = 0, or_state = 0\<rparr>"

record OrderPool =
  op_orders :: "pool_index \<Rightarrow> OrderRecord"
  op_live_count :: nat

definition init_OrderPool :: OrderPool where
  "init_OrderPool = \<lparr>op_orders = (\<lambda>_. init_OrderRecord), op_live_count = 0\<rparr>"

section \<open>Operations\<close>

definition order_slot :: "u64 \<Rightarrow> pool_index" where
  "order_slot order_id =
     (let x = order_id;
          x = x XOR drop_bit 30 x;
          x = x * 0xbf58476d1ce4e5b9;
          x = x XOR drop_bit 27 x;
          x = x * 0x94d049bb133111eb;
          x = x XOR drop_bit 31 x
      in ucast (x AND of_nat (kOrderPool - 1)))"

text \<open>The probe loop of \<^verbatim>\<open>find_order\<close>, with the number of turns that are left.\<close>

fun find_loop :: "(pool_index \<Rightarrow> OrderRecord) \<Rightarrow> u64 \<Rightarrow> nat \<Rightarrow> pool_index \<Rightarrow> pool_index option" where
  "find_loop orders order_id 0 idx = None"
| "find_loop orders order_id (Suc n) idx =
     (let rec = orders idx in
      if or_state rec = 0 then None
      else if or_state rec = 1 \<and> or_order_id rec = order_id then Some idx
      else find_loop orders order_id n (idx + 1))"

definition find_order :: "OrderPool \<Rightarrow> u64 \<Rightarrow> pool_index option" where
  "find_order p order_id = find_loop (op_orders p) order_id kOrderPool (order_slot order_id)"

text \<open>The second loop of \<^verbatim>\<open>insert_order\<close>: the first free slot of the probe sequence.\<close>

fun free_loop :: "(pool_index \<Rightarrow> OrderRecord) \<Rightarrow> nat \<Rightarrow> pool_index \<Rightarrow> pool_index option" where
  "free_loop orders 0 idx = None"
| "free_loop orders (Suc n) idx =
     (if or_state (orders idx) = 0 then Some idx else free_loop orders n (idx + 1))"

definition insert_order :: "OrderPool \<Rightarrow> u64 \<Rightarrow> OrderPool \<times> pool_index option" where
  "insert_order p order_id =
     (if op_live_count p \<ge> kOrderPool then (p, None)
      else case find_order p order_id of
        Some existing \<Rightarrow> (p, Some existing)
      | None \<Rightarrow>
          (case free_loop (op_orders p) kOrderPool (order_slot order_id) of
             Some idx \<Rightarrow>
               (p\<lparr>op_orders := (op_orders p)(idx :=
                    init_OrderRecord\<lparr>or_order_id := order_id, or_state := 1\<rparr>),
                  op_live_count := op_live_count p + 1\<rparr>, Some idx)
           | None \<Rightarrow> (p, None)))"

definition can_move :: "pool_index \<Rightarrow> pool_index \<Rightarrow> pool_index \<Rightarrow> bool" where
  "can_move hole cur home \<longleftrightarrow>
     (if hole < cur then home \<le> hole \<or> home > cur else home \<le> hole \<and> home > cur)"

text \<open>
  The backshift loop. \<open>found - cur - 1\<close> counts the slots between the cursor and the slot
  of the erased order; the loop breaks when none is left, so it ends for every argument.
\<close>

function backshift :: "(pool_index \<Rightarrow> OrderRecord) \<Rightarrow> pool_index \<Rightarrow> pool_index \<Rightarrow> pool_index \<Rightarrow>
    (pool_index \<Rightarrow> OrderRecord) \<times> pool_index" where
  "backshift orders found hole cur =
     (if or_state (orders cur) = 1 then
        let home = order_slot (or_order_id (orders cur));
            move = can_move hole cur home;
            orders = (if move then orders(hole := orders cur) else orders);
            hole = (if move then cur else hole);
            cur = cur + 1
        in if cur = found then (orders, hole) else backshift orders found hole cur
      else (orders, hole))"
  by pat_completeness auto
termination
proof (relation "measure (\<lambda>(orders, found, hole, cur). unat (found - cur - 1))", goal_cases)
  case (2 orders found hole cur home move orders' hole' cur')
  then have "found - cur - 1 \<noteq> 0" by (auto simp: algebra_simps)
  then have "unat (found - cur - 1 - 1) < unat (found - cur - 1)"
    by (metis diff_less unat_gt_0 unat_minus_one zero_less_one)
  with 2 show ?case by (simp add: algebra_simps)
qed simp

declare backshift.simps [simp del]

definition erase_order :: "OrderPool \<Rightarrow> u64 \<Rightarrow> OrderPool" where
  "erase_order p order_id =
     (case find_loop (op_orders p) order_id kOrderPool (order_slot order_id) of
        None \<Rightarrow> p
      | Some found \<Rightarrow>
          (let (orders, hole) = backshift (op_orders p) found found (found + 1) in
           p\<lparr>op_orders := orders(hole := init_OrderRecord),
             op_live_count := (if op_live_count p > 0 then op_live_count p - 1
                               else op_live_count p)\<rparr>))"

section \<open>Cyclic positions\<close>

text \<open>
  \<open>lin z i\<close> is the position of \<open>i\<close> when the ring is cut open right behind slot \<open>z\<close>: it runs
  from 0 for the slot after \<open>z\<close> to 65535 for \<open>z\<close> itself.
\<close>

definition lin :: "pool_index \<Rightarrow> pool_index \<Rightarrow> nat" where
  "lin z i = unat (i - z - 1)"

lemma lin_inject [simp]: "lin z i = lin z j \<longleftrightarrow> i = j"
  by (auto simp: lin_def dest: unsigned_word_eqI)

lemma lin_bound: "lin z i \<le> 65535"
  using unsigned_less [where w = "i - z - 1" and 'a = nat] by (simp add: lin_def)

lemma lin_cut [simp]: "lin z z = 65535"
  by (simp add: lin_def unsigned_minus_1_eq_mask mask_eq_exp_minus_1)

lemma lin_less_cut: "i \<noteq> z \<Longrightarrow> lin z i < 65535"
  using lin_bound [of z i] lin_inject [of z i z] by (simp add: le_less)

lemma lin_Suc: "i \<noteq> z \<Longrightarrow> lin z (i + 1) = Suc (lin z i)"
proof -
  assume "i \<noteq> z"
  then have "1 + (i - z - 1) \<noteq> 0" by simp
  from unatSuc [OF this] show ?thesis by (simp add: lin_def algebra_simps)
qed

lemma lin_wrap [simp]: "lin z (z + 1) = 0"
  by (simp add: lin_def)

lemma unat_diff_lin: "lin z a \<le> lin z b \<Longrightarrow> unat (b - a) = lin z b - lin z a"
proof -
  assume "lin z a \<le> lin z b"
  then have "unat ((b - z - 1) - (a - z - 1)) = lin z b - lin z a"
    unfolding lin_def by (intro unat_sub) (simp add: word_le_nat_alt)
  then show ?thesis by simp
qed

lemma unat_diff_lin_wrap: "lin z b < lin z a \<Longrightarrow> unat (b - a) = 65536 + lin z b - lin z a"
proof -
  assume "lin z b < lin z a"
  then have "unat ((b - z - 1) - (a - z - 1)) = 65536 + lin z b - lin z a"
    unfolding lin_def by (subst unat_sub_if_size) (simp add: word_le_nat_alt word_size)
  then show ?thesis by simp
qed

lemma lin_plus: "lin z a + d \<le> 65535 \<Longrightarrow> lin z (a + of_nat d) = lin z a + d"
proof (induction d)
  case (Suc d)
  then have "lin z (a + of_nat d) = lin z a + d" "a + of_nat d \<noteq> z"
    using lin_cut [of z] by fastforce+
  then show ?case using lin_Suc [of "a + of_nat d" z] by (simp add: algebra_simps)
qed simp

lemma unat_pool_index: "unat (i :: pool_index) < 65536"
  using unsigned_less [where w = i and 'a = nat] by simp

lemma can_move_distance:
  assumes "hole \<noteq> cur"
  shows "can_move hole cur home \<longleftrightarrow> unat (cur - hole) \<le> unat (cur - home)"
proof -
  have "unat hole \<noteq> unat cur" using assms by (auto dest: unsigned_word_eqI)
  then show ?thesis
    using unat_pool_index [of hole] unat_pool_index [of home] unat_pool_index [of cur]
    unfolding can_move_def
    by (simp add: unat_sub_if_size word_le_nat_alt word_less_nat_alt word_size) linarith
qed

lemma can_move_ahead:
  "lin z hole < lin z cur \<Longrightarrow> lin z home \<le> lin z cur \<Longrightarrow>
   can_move hole cur home \<longleftrightarrow> lin z home \<le> lin z hole"
  by (subst can_move_distance) (auto simp: unat_diff_lin [of z])

lemma can_move_wrapped:
  "lin z cur < lin z hole \<Longrightarrow> lin z home \<le> lin z cur \<Longrightarrow> \<not> can_move hole cur home"
  using lin_bound [of z hole]
  by (subst can_move_distance) (auto simp: unat_diff_lin [of z home] unat_diff_lin_wrap [of z cur hole])

section \<open>The table invariant\<close>

abbreviation live :: "(pool_index \<Rightarrow> OrderRecord) \<Rightarrow> pool_index \<Rightarrow> bool" where
  "live T i \<equiv> or_state (T i) = 1"

abbreviation home :: "(pool_index \<Rightarrow> OrderRecord) \<Rightarrow> pool_index \<Rightarrow> pool_index" where
  "home T i \<equiv> order_slot (or_order_id (T i))"

text \<open>
  A live record is reached from its home slot over live slots only, and the ring can be
  cut open at a slot that no probe path crosses. A table with a free slot can be cut there;
  a full table at the slot that was filled last.
\<close>

definition probe_ok :: "(pool_index \<Rightarrow> OrderRecord) \<Rightarrow> bool" where
  "probe_ok T \<longleftrightarrow> (\<forall>i. live T i \<longrightarrow> (\<forall>d < unat (i - home T i). live T (home T i + of_nat d)))"

definition cut :: "pool_index \<Rightarrow> (pool_index \<Rightarrow> OrderRecord) \<Rightarrow> bool" where
  "cut z T \<longleftrightarrow> (\<forall>i. live T i \<longrightarrow> lin z (home T i) \<le> lin z i)"

definition keys_unique :: "(pool_index \<Rightarrow> OrderRecord) \<Rightarrow> bool" where
  "keys_unique T \<longleftrightarrow> (\<forall>i j. live T i \<longrightarrow> live T j \<longrightarrow> or_order_id (T i) = or_order_id (T j) \<longrightarrow> i = j)"

definition states_ok :: "(pool_index \<Rightarrow> OrderRecord) \<Rightarrow> bool" where
  "states_ok T \<longleftrightarrow> (\<forall>i. or_state (T i) = 0 \<or> or_state (T i) = 1)"

definition table_inv :: "(pool_index \<Rightarrow> OrderRecord) \<Rightarrow> bool" where
  "table_inv T \<longleftrightarrow> probe_ok T \<and> (\<exists>z. cut z T) \<and> keys_unique T \<and> states_ok T"

definition pool_inv :: "OrderPool \<Rightarrow> bool" where
  "pool_inv p \<longleftrightarrow> table_inv (op_orders p) \<and> op_live_count p = card {i. live (op_orders p) i}"

lemma cut_path:
  assumes "probe_ok T" "cut z T" "live T i" "lin z (home T i) \<le> lin z q" "lin z q < lin z i"
  shows "live T q"
proof -
  let ?d = "lin z q - lin z (home T i)"
  have le: "lin z (home T i) \<le> lin z i" using assms(2,3) by (auto simp: cut_def)
  have "?d < unat (i - home T i)" using assms(4,5) by (simp add: unat_diff_lin [OF le])
  then have "live T (home T i + of_nat ?d)" using assms(1,3) by (auto simp: probe_ok_def)
  moreover have "lin z (home T i + of_nat ?d) = lin z q"
    using assms(4) lin_bound [of z q] by (subst lin_plus) auto
  ultimately show ?thesis by simp
qed

lemma probe_okI:
  assumes "cut z T"
    and "\<And>i q. live T i \<Longrightarrow> lin z (home T i) \<le> lin z q \<Longrightarrow> lin z q < lin z i \<Longrightarrow> live T q"
  shows "probe_ok T"
  unfolding probe_ok_def
proof (intro allI impI)
  fix i d assume i: "live T i" and d: "d < unat (i - home T i)"
  have le: "lin z (home T i) \<le> lin z i" using assms(1) i by (auto simp: cut_def)
  have "lin z (home T i) + d < lin z i" using d by (simp add: unat_diff_lin [OF le])
  then have "lin z (home T i + of_nat d) = lin z (home T i) + d"
    using lin_bound [of z i] by (intro lin_plus) simp
  with \<open>lin z (home T i) + d < lin z i\<close> show "live T (home T i + of_nat d)"
    using assms(2) [OF i, of "home T i + of_nat d"] by simp
qed

lemma cut_free:
  assumes "probe_ok T" "\<not> live T z"
  shows "cut z T"
  unfolding cut_def
proof (intro allI impI, rule ccontr)
  fix i assume i: "live T i" and "\<not> lin z (home T i) \<le> lin z i"
  then have less: "lin z i < lin z (home T i)" by simp
  have "unat (z - home T i) = 65535 - lin z (home T i)"
    using lin_bound [of z "home T i"] by (simp add: unat_diff_lin [of z])
  also have "\<dots> < unat (i - home T i)"
    using lin_bound [of z "home T i"] less by (simp add: unat_diff_lin_wrap [OF less])
  finally have "live T (home T i + of_nat (unat (z - home T i)))"
    using assms(1) i unfolding probe_ok_def by blast
  with assms(2) show False by simp
qed

section \<open>Finding\<close>

lemma find_loop_sound: "find_loop T k n idx = Some j \<Longrightarrow> live T j \<and> or_order_id (T j) = k"
  by (induction n arbitrary: idx) (auto simp: Let_def split: if_splits)

lemma find_loop_complete:
  assumes "live T j" "or_order_id (T j) = k" "keys_unique T"
  shows "lin z idx \<le> lin z j \<Longrightarrow> lin z j - lin z idx < n \<Longrightarrow>
    (\<And>q. lin z idx \<le> lin z q \<Longrightarrow> lin z q < lin z j \<Longrightarrow> live T q) \<Longrightarrow>
    find_loop T k n idx = Some j"
proof (induction n arbitrary: idx)
  case (Suc n)
  show ?case
  proof (cases "idx = j")
    case True
    then show ?thesis using assms by (simp add: Let_def)
  next
    case False
    then have less: "lin z idx < lin z j" using Suc.prems(1) by (simp add: order_less_le)
    then have "live T idx" using Suc.prems(3) by blast
    moreover have "or_order_id (T idx) \<noteq> k"
      using assms False calculation by (auto simp: keys_unique_def)
    moreover have "idx \<noteq> z" using less lin_bound [of z j] by auto
    then have "lin z (idx + 1) = Suc (lin z idx)" by (rule lin_Suc)
    then have "find_loop T k n (idx + 1) = Some j"
      using Suc.prems less by (intro Suc.IH) auto
    ultimately show ?thesis by (simp add: Let_def)
  qed
qed simp

lemma find_loop_iff:
  assumes "table_inv T"
  shows "find_loop T k kOrderPool (order_slot k) = Some j \<longleftrightarrow> live T j \<and> or_order_id (T j) = k"
proof
  assume j: "live T j \<and> or_order_id (T j) = k"
  obtain z where z: "cut z T" using assms by (auto simp: table_inv_def)
  then have le: "lin z (order_slot k) \<le> lin z j" using j by (auto simp: cut_def)
  have "live T q" if "lin z (order_slot k) \<le> lin z q" "lin z q < lin z j" for q
    using cut_path [OF _ z] j that assms by (auto simp: table_inv_def)
  then show "find_loop T k kOrderPool (order_slot k) = Some j"
    using assms j le lin_bound [of z j]
    by (intro find_loop_complete [of T j k z]) (auto simp: table_inv_def kOrderPool_def)
qed (rule find_loop_sound)

lemma find_order_iff:
  "pool_inv p \<Longrightarrow> find_order p k = Some j \<longleftrightarrow>
     live (op_orders p) j \<and> or_order_id (op_orders p j) = k"
  by (simp add: find_order_def find_loop_iff pool_inv_def)

section \<open>Inserting\<close>

lemma free_loop_finds:
  assumes "states_ok T" "\<not> live T z"
  shows "65535 - lin z idx < n \<Longrightarrow> \<exists>j. free_loop T n idx = Some j \<and> \<not> live T j \<and>
    lin z idx \<le> lin z j \<and> (\<forall>q. lin z idx \<le> lin z q \<longrightarrow> lin z q < lin z j \<longrightarrow> live T q)"
proof (induction n arbitrary: idx)
  case (Suc n)
  show ?case
  proof (cases "live T idx")
    case True
    then have "idx \<noteq> z" using assms(2) by auto
    then have s: "lin z (idx + 1) = Suc (lin z idx)" "lin z idx < 65535"
      by (auto simp: lin_Suc lin_less_cut)
    then have "65535 - lin z (idx + 1) < n" using Suc.prems by simp
    from Suc.IH [OF this] s obtain j where j: "free_loop T n (idx + 1) = Some j" "\<not> live T j"
      "Suc (lin z idx) \<le> lin z j"
      "\<And>q. Suc (lin z idx) \<le> lin z q \<Longrightarrow> lin z q < lin z j \<Longrightarrow> live T q"
      by auto
    have "live T q" if "lin z idx \<le> lin z q" "lin z q < lin z j" for q
      using j(4) [of q] that True by (cases "q = idx") (auto simp: Suc_le_eq order_less_le)
    then show ?thesis using j True by auto
  next
    case False
    then show ?thesis using assms(1) by (auto simp: states_ok_def)
  qed
qed simp

lemma table_inv_insert:
  assumes inv: "table_inv T" and free: "\<not> live T j" and z: "\<not> live T z"
    and path: "lin z (order_slot k) \<le> lin z j"
      "\<And>q. lin z (order_slot k) \<le> lin z q \<Longrightarrow> lin z q < lin z j \<Longrightarrow> live T q"
    and new: "\<And>i. live T i \<Longrightarrow> or_order_id (T i) \<noteq> k"
    and r: "or_order_id r = k" "or_state r = 1"
  shows "table_inv (T(j := r))"
proof -
  have p: "probe_ok T" "keys_unique T" "states_ok T" using inv by (auto simp: table_inv_def)
  have c: "cut z T" using p z cut_free by blast
  have cut': "cut z (T(j := r))" using c path(1) r by (auto simp: cut_def)
  have "probe_ok (T(j := r))"
  proof (rule probe_okI [OF cut'])
    fix i q assume "live (T(j := r)) i" "lin z (home (T(j := r)) i) \<le> lin z q" "lin z q < lin z i"
    then show "live (T(j := r)) q"
      using path(2) [of q] cut_path [OF p(1) c, of i q] r by (cases "i = j") auto
  qed
  moreover have "keys_unique (T(j := r))" unfolding keys_unique_def
    using p(2) new r(1) by (auto simp: keys_unique_def split: if_splits) metis+
  moreover have "states_ok (T(j := r))" using p(3) r by (auto simp: states_ok_def)
  ultimately show ?thesis using cut' by (auto simp: table_inv_def)
qed

lemma card_live_insert:
  "\<not> live T j \<Longrightarrow> or_state r = 1 \<Longrightarrow> card {i. live (T(j := r)) i} = Suc (card {i. live T i})"
proof -
  assume "\<not> live T j" "or_state r = 1"
  then have "{i. live (T(j := r)) i} = insert j {i. live T i}" "j \<notin> {i. live T i}" by auto
  then show ?thesis by simp
qed

lemma card_pool_index: "card (UNIV :: pool_index set) = kOrderPool"
  by (simp add: card_word kOrderPool_def)

text \<open>The contents of the pool as a finite map from order ids to records.\<close>

definition pool_lookup :: "OrderPool \<Rightarrow> u64 \<Rightarrow> OrderRecord option" where
  "pool_lookup p k = map_option (op_orders p) (find_order p k)"

lemma pool_lookup_iff:
  "pool_inv p \<Longrightarrow> pool_lookup p k = Some r \<longleftrightarrow>
     (\<exists>i. op_orders p i = r \<and> or_state r = 1 \<and> or_order_id r = k)"
  by (auto simp: pool_lookup_def find_order_iff)

lemma pool_lookup_None:
  "pool_inv p \<Longrightarrow> pool_lookup p k = None \<longleftrightarrow> (\<forall>i. live (op_orders p) i \<longrightarrow> or_order_id (op_orders p i) \<noteq> k)"
  by (simp add: pool_lookup_def find_order_iff flip: not_Some_eq) blast

text \<open>
  Insertion: a full pool refuses; an id that is live already keeps its slot; a new id gets
  a zeroed live record and every other id keeps its record.
\<close>

lemma insert_order_full:
  "kOrderPool \<le> op_live_count p \<Longrightarrow> insert_order p k = (p, None)"
  by (simp add: insert_order_def)

lemma insert_order_existing:
  "op_live_count p < kOrderPool \<Longrightarrow> find_order p k = Some i \<Longrightarrow> insert_order p k = (p, Some i)"
  by (simp add: insert_order_def)

lemma insert_order_new:
  assumes inv: "pool_inv p" and room: "op_live_count p < kOrderPool" and new: "find_order p k = None"
  obtains j p' where "insert_order p k = (p', Some j)" "pool_inv p'"
    "\<not> live (op_orders p) j" "op_live_count p' = Suc (op_live_count p)"
    "op_orders p' = (op_orders p)(j := init_OrderRecord\<lparr>or_order_id := k, or_state := 1\<rparr>)"
proof -
  let ?T = "op_orders p" and ?r = "init_OrderRecord\<lparr>or_order_id := k, or_state := 1\<rparr>"
  have t: "table_inv ?T" and cnt: "op_live_count p = card {i. live ?T i}"
    using inv by (auto simp: pool_inv_def)
  have "{i. live ?T i} \<noteq> UNIV" using room cnt card_pool_index by (metis less_irrefl)
  then obtain z where z: "\<not> live ?T z" by auto
  have "states_ok ?T" "65535 - lin z (order_slot k) < kOrderPool"
    using t by (simp_all add: table_inv_def kOrderPool_def)
  from free_loop_finds [OF this(1) z this(2)]
  obtain j where j: "free_loop ?T kOrderPool (order_slot k) = Some j" "\<not> live ?T j"
    "lin z (order_slot k) \<le> lin z j"
    "\<And>q. lin z (order_slot k) \<le> lin z q \<Longrightarrow> lin z q < lin z j \<Longrightarrow> live ?T q"
    by blast
  have "\<And>i. live ?T i \<Longrightarrow> or_order_id (?T i) \<noteq> k"
    using new pool_lookup_None [OF inv, of k] by (simp add: pool_lookup_def)
  then have "table_inv (?T(j := ?r))"
    using table_inv_insert [OF t j(2) z j(3,4)] by simp
  moreover have "card {i. live (?T(j := ?r)) i} = Suc (op_live_count p)"
    using card_live_insert [of ?T j ?r] j(2) cnt by simp
  ultimately show thesis
    using room new j(1,2)
    by (intro that [of "p\<lparr>op_orders := ?T(j := ?r), op_live_count := op_live_count p + 1\<rparr>" j])
      (simp_all add: insert_order_def pool_inv_def)
qed

section \<open>Erasing\<close>

text \<open>
  The state of the backshift loop, with the ring cut open at \<open>z\<close> and \<open>f\<close> the slot of the
  erased record. The slot \<open>h\<close> is the hole, whose old record counts as gone. The set of
  live slots never changes, the records other than the hole's are those of the start
  without the erased one, and each still has a live probe path.
\<close>

definition hole_table :: "pool_index \<Rightarrow> (pool_index \<Rightarrow> OrderRecord) \<Rightarrow> pool_index \<Rightarrow> bool" where
  "hole_table z T h \<longleftrightarrow>
     (\<forall>i. i \<noteq> h \<longrightarrow> live T i \<longrightarrow> lin z (home T i) \<le> lin z i) \<and>
     (\<forall>i q. i \<noteq> h \<longrightarrow> live T i \<longrightarrow> lin z (home T i) \<le> lin z q \<longrightarrow> lin z q < lin z i \<longrightarrow> live T q) \<and>
     (\<forall>i j. i \<noteq> h \<longrightarrow> j \<noteq> h \<longrightarrow> live T i \<longrightarrow> live T j \<longrightarrow>
        or_order_id (T i) = or_order_id (T j) \<longrightarrow> i = j)"

definition shift_core :: "pool_index \<Rightarrow> pool_index \<Rightarrow> (pool_index \<Rightarrow> OrderRecord) \<Rightarrow>
    (pool_index \<Rightarrow> OrderRecord) \<Rightarrow> pool_index \<Rightarrow> bool" where
  "shift_core z f T0 T h \<longleftrightarrow>
     lin z f \<le> lin z h \<and> live T h \<and> (\<forall>i. live T i \<longleftrightarrow> live T0 i) \<and>
     (\<forall>i. \<not> live T0 i \<longrightarrow> T i = T0 i) \<and> hole_table z T h \<and>
     T ` {i. live T i \<and> i \<noteq> h} = T0 ` {i. live T0 i \<and> i \<noteq> f}"

text \<open>The records whose probe path runs over the hole.\<close>

definition crosses :: "pool_index \<Rightarrow> (pool_index \<Rightarrow> OrderRecord) \<Rightarrow> pool_index \<Rightarrow> pool_index \<Rightarrow> bool" where
  "crosses z T h i \<longleftrightarrow> i \<noteq> h \<and> live T i \<and> lin z (home T i) \<le> lin z h \<and> lin z h < lin z i"

text \<open>
  The cursor is past the hole, or has wrapped around and is before the erased slot; only
  records the cursor has not passed may cross the hole.
\<close>

definition shift_inv :: "pool_index \<Rightarrow> pool_index \<Rightarrow> (pool_index \<Rightarrow> OrderRecord) \<Rightarrow>
    (pool_index \<Rightarrow> OrderRecord) \<Rightarrow> pool_index \<Rightarrow> pool_index \<Rightarrow> bool" where
  "shift_inv z f T0 T h c \<longleftrightarrow> shift_core z f T0 T h \<and>
     (lin z h < lin z c \<and> (\<forall>i. crosses z T h i \<longrightarrow> lin z c \<le> lin z i) \<or>
      lin z c < lin z f \<and> (\<forall>i. \<not> crosses z T h i))"

lemma hole_table_start:
  assumes "table_inv T" "cut z T"
  shows "hole_table z T f"
proof -
  have "probe_ok T" "keys_unique T" using assms(1) by (simp_all add: table_inv_def)
  then show ?thesis unfolding hole_table_def
    using cut_path [OF _ assms(2)] assms(2) unfolding cut_def keys_unique_def by blast
qed

lemma shift_core_start:
  "table_inv T \<Longrightarrow> cut z T \<Longrightarrow> live T f \<Longrightarrow> shift_core z f T T f"
  by (simp add: shift_core_def hole_table_start)

lemma shift_inv_start:
  assumes "table_inv T" "cut z T" "live T f"
  shows "shift_inv z f T T f (f + 1)"
proof (cases "f = z")
  case True
  then have "\<not> crosses z T f i" for i using lin_bound [of z i] by (auto simp: crosses_def)
  then show ?thesis using shift_core_start [OF assms] True by (auto simp: shift_inv_def)
next
  case False
  then show ?thesis using shift_core_start [OF assms]
    by (auto simp: shift_inv_def lin_Suc crosses_def)
qed

lemma hole_table_move:
  assumes s: "hole_table z T h" and h: "live T h"
    and c: "live T c" "lin z (home T c) \<le> lin z h" "lin z h < lin z c"
  shows "hole_table z (T(h := T c)) c"
proof -
  let ?T = "T(h := T c)"
  have ch: "c \<noteq> h" using c(3) by auto
  have live: "live ?T i \<longleftrightarrow> live T i" for i using h c by auto
  have dist: "lin z (home T i) \<le> lin z i" if "i \<noteq> h" "live T i" for i
    using s that unfolding hole_table_def by blast
  have path: "live T q" if "i \<noteq> h" "live T i" "lin z (home T i) \<le> lin z q" "lin z q < lin z i" for i q
    using s that unfolding hole_table_def by blast
  have uniq: "i = j" if "i \<noteq> h" "j \<noteq> h" "live T i" "live T j" "or_order_id (T i) = or_order_id (T j)" for i j
    using s that unfolding hole_table_def by blast
  show ?thesis unfolding hole_table_def
  proof (intro conjI allI impI)
    fix i assume "i \<noteq> c" "live ?T i"
    then show "lin z (home ?T i) \<le> lin z i" using c(2) dist [of i] by (cases "i = h") auto
  next
    fix i q assume "i \<noteq> c" "live ?T i" "lin z (home ?T i) \<le> lin z q" "lin z q < lin z i"
    then show "live ?T q" unfolding live using path [of i q] path [of c q] c ch
      by (cases "i = h") auto
  next
    fix i j assume "i \<noteq> c" "j \<noteq> c" "live ?T i" "live ?T j" "or_order_id (?T i) = or_order_id (?T j)"
    then show "i = j" using uniq [of c j] uniq [of i c] uniq [of i j] c(1) ch unfolding live
      by (cases "i = h"; cases "j = h") auto
  qed
qed

lemma shift_core_move:
  assumes s: "shift_core z f T0 T h" and c: "live T c" "lin z (home T c) \<le> lin z h" "lin z h < lin z c"
  shows "shift_core z f T0 (T(h := T c)) c"
proof -
  let ?T = "T(h := T c)"
  have ch: "c \<noteq> h" using c(3) by auto
  have h: "live T h" "hole_table z T h" "lin z f \<le> lin z h"
    and l0: "\<And>i. live T i \<longleftrightarrow> live T0 i" and dead: "\<And>i. \<not> live T0 i \<Longrightarrow> T i = T0 i"
    and im: "T ` {i. live T i \<and> i \<noteq> h} = T0 ` {i. live T0 i \<and> i \<noteq> f}"
    using s unfolding shift_core_def by blast+
  have live: "live ?T i \<longleftrightarrow> live T i" for i using h c by auto
  have img: "?T ` {i. live ?T i \<and> i \<noteq> c} = T ` {i. live T i \<and> i \<noteq> h}"
  proof (intro set_eqI iffI)
    fix r assume "r \<in> ?T ` {i. live ?T i \<and> i \<noteq> c}"
    then obtain i where "live T i" "i \<noteq> c" "r = ?T i" unfolding live by blast
    then show "r \<in> T ` {i. live T i \<and> i \<noteq> h}" using c ch by (cases "i = h") auto
  next
    fix r assume "r \<in> T ` {i. live T i \<and> i \<noteq> h}"
    then obtain i where i: "live T i" "i \<noteq> h" "r = T i" by blast
    then have "r = ?T (if i = c then h else i)" "live T (if i = c then h else i)"
      "(if i = c then h else i) \<noteq> c"
      using ch h by auto
    then show "r \<in> ?T ` {i. live ?T i \<and> i \<noteq> c}" unfolding live by blast
  qed
  have dead': "?T i = T0 i" if "\<not> live T0 i" for i
    using that dead [of i] l0 [of h] h(1) by auto
  show ?thesis unfolding shift_core_def live
    using hole_table_move [OF h(2,1) c] h(3) c dead' l0 im img unfolding live by auto
qed

lemma shift_step_ahead:
  assumes s: "shift_core z f T0 T h" and c: "live T c" "lin z h < lin z c"
    and cr: "\<And>i. crosses z T h i \<Longrightarrow> lin z c \<le> lin z i"
  defines "m \<equiv> can_move h c (home T c)"
  defines "T' \<equiv> if m then T(h := T c) else T" and "h' \<equiv> if m then c else h"
  shows "shift_core z f T0 T' h' \<and> lin z h' \<le> lin z c \<and> (\<forall>i. crosses z T' h' i \<longrightarrow> lin z c < lin z i)"
proof -
  have "c \<noteq> h" using c by auto
  then have le: "lin z (home T c) \<le> lin z c"
    using s c(1) unfolding shift_core_def hole_table_def by blast
  have m: "m \<longleftrightarrow> lin z (home T c) \<le> lin z h"
    unfolding m_def by (rule can_move_ahead [OF c(2) le])
  show ?thesis
  proof (cases m)
    case True
    then show ?thesis using shift_core_move [OF s c(1) _ c(2)] m
      by (auto simp: T'_def h'_def crosses_def)
  next
    case False
    then have "\<not> crosses z T h c" using m by (simp add: crosses_def)
    then have "lin z c < lin z i" if "crosses z T h i" for i
      using cr [OF that] that by (cases "i = c") (auto simp: order_less_le)
    then show ?thesis using False s c by (auto simp: T'_def h'_def)
  qed
qed

lemma shift_inv_step:
  assumes inv: "shift_inv z f T0 T h c" and c: "live T c" "c \<noteq> f"
  defines "m \<equiv> can_move h c (home T c)"
  defines "T' \<equiv> if m then T(h := T c) else T" and "h' \<equiv> if m then c else h"
  shows "if c + 1 = f then shift_core z f T0 T' h' \<and> (\<forall>i. \<not> crosses z T' h' i)
         else shift_inv z f T0 T' h' (c + 1)"
proof -
  have s: "shift_core z f T0 T h" and fh: "lin z f \<le> lin z h"
    using inv by (auto simp: shift_inv_def shift_core_def)
  consider (ahead) "lin z h < lin z c" "\<And>i. crosses z T h i \<Longrightarrow> lin z c \<le> lin z i"
    | (wrapped) "lin z c < lin z f" "\<And>i. \<not> crosses z T h i"
    using inv unfolding shift_inv_def by blast
  then show ?thesis
  proof cases
    case ahead
    have a: "shift_core z f T0 T' h'" "lin z h' \<le> lin z c" "\<And>i. crosses z T' h' i \<Longrightarrow> lin z c < lin z i"
      using shift_step_ahead [OF s c(1) ahead] by (auto simp: T'_def h'_def m_def)
    show ?thesis
    proof (cases "c = z")
      case True
      have n: "\<not> crosses z T' h' i" for i using a(3) [of i] lin_bound [of z i] True by auto
      have "0 < lin z f" if "z + 1 \<noteq> f" using that lin_inject [of z "z + 1" f] by simp
      then show ?thesis using a(1) n True by (simp add: shift_inv_def)
    next
      case False
      then have "c + 1 \<noteq> f" using fh ahead(1) lin_Suc [of c z] by auto
      then show ?thesis using a False by (auto simp: shift_inv_def lin_Suc Suc_le_eq)
    qed
  next
    case wrapped
    then have less: "lin z c < lin z h" "c \<noteq> z" "c \<noteq> h" using fh lin_bound [of z f] by auto
    then have "lin z (home T c) \<le> lin z c"
      using s c(1) unfolding shift_core_def hole_table_def by blast
    then have "\<not> m" unfolding m_def using can_move_wrapped less(1) by blast
    then have t: "T' = T" "h' = h" by (simp_all add: T'_def h'_def)
    have "lin z (c + 1) < lin z f" if "c + 1 \<noteq> f"
      using that wrapped(1) less(2) lin_inject [of z "c + 1" f] lin_Suc [of c z] by linarith
    then show ?thesis unfolding t using s wrapped(2) by (simp add: shift_inv_def)
  qed
qed

lemma shift_inv_stop:
  assumes "shift_inv z f T0 T h c" "\<not> live T c"
  shows "shift_core z f T0 T h \<and> (\<forall>i. \<not> crosses z T h i)"
proof -
  have s: "shift_core z f T0 T h" using assms(1) by (simp add: shift_inv_def)
  have "\<not> crosses z T h i" if "lin z h < lin z c" "crosses z T h i \<longrightarrow> lin z c \<le> lin z i" for i
  proof
    assume i: "crosses z T h i"
    then have "i \<noteq> c" using assms(2) by (auto simp: crosses_def)
    then have "lin z c < lin z i" using that(2) i by (simp add: order_less_le)
    moreover have "lin z (home T i) \<le> lin z c" using i that(1) by (simp add: crosses_def)
    ultimately have "live T c"
      using s i unfolding shift_core_def hole_table_def crosses_def by blast
    with assms(2) show False ..
  qed
  then show ?thesis using assms(1) s unfolding shift_inv_def by blast
qed

lemma backshift_core:
  "shift_inv z f T0 T h c \<Longrightarrow> c \<noteq> f \<Longrightarrow> backshift T f h c = (T', h') \<Longrightarrow>
   shift_core z f T0 T' h' \<and> (\<forall>i. \<not> crosses z T' h' i)"
proof (induction T f h c rule: backshift.induct)
  case (1 T f h c)
  show ?case
  proof (cases "live T c")
    case True
    let ?m = "can_move h c (home T c)"
    let ?T = "if ?m then T(h := T c) else T" and ?h = "if ?m then c else h"
    have r: "backshift T f h c =
        (if c + 1 = f then (?T, ?h) else backshift ?T f ?h (c + 1))"
      using True by (subst backshift.simps) (simp add: Let_def)
    show ?thesis
    proof (cases "c + 1 = f")
      case True
      then show ?thesis
        using shift_inv_step [OF "1.prems"(1) \<open>live T c\<close> "1.prems"(2)] "1.prems"(3) r by simp
    next
      case False
      then have "shift_inv z f T0 ?T ?h (c + 1)"
        using shift_inv_step [OF "1.prems"(1) \<open>live T c\<close> "1.prems"(2)] by simp
      then show ?thesis
        using "1.IH" [OF True refl refl refl refl refl] False "1.prems"(3) r by simp
    qed
  next
    case False
    then have "backshift T f h c = (T, h)" by (subst backshift.simps) simp
    then show ?thesis using shift_inv_stop [OF "1.prems"(1) False] "1.prems"(3) by simp
  qed
qed

text \<open>The table that erasing leaves: the hole is cleared.\<close>

lemma hole_table_clear:
  assumes h: "hole_table z T h" and free: "\<And>i. \<not> crosses z T h i" and st: "states_ok T"
  shows "table_inv (T(h := init_OrderRecord))"
proof -
  let ?T = "T(h := init_OrderRecord)"
  have live: "live ?T i \<longleftrightarrow> live T i \<and> i \<noteq> h" for i by (simp add: init_OrderRecord_def)
  have hm: "i \<noteq> h \<Longrightarrow> home ?T i = home T i" for i by simp
  have c: "cut z ?T" using h unfolding cut_def live hole_table_def by auto
  have "probe_ok ?T"
  proof (rule probe_okI [OF c])
    fix i q assume i: "live ?T i" "lin z (home ?T i) \<le> lin z q" "lin z q < lin z i"
    then have i': "live T i" "i \<noteq> h" "lin z (home T i) \<le> lin z q" unfolding live by auto
    then have "q \<noteq> h" using free [of i] i(3) by (auto simp: crosses_def)
    moreover have "live T q" using h i' i(3) unfolding hole_table_def by blast
    ultimately show "live ?T q" by simp
  qed
  moreover have "keys_unique ?T" unfolding keys_unique_def live
    using h unfolding hole_table_def by auto
  moreover have "states_ok ?T" using st by (simp add: states_ok_def init_OrderRecord_def)
  ultimately show ?thesis using c unfolding table_inv_def by blast
qed

lemma erase_table:
  assumes t: "table_inv T" and f: "live T f" and b: "backshift T f f (f + 1) = (T', h)"
  defines "E \<equiv> T'(h := init_OrderRecord)"
  shows "table_inv E" "{i. live E i} = {i. live T i} - {h}" "live T h"
    "E ` {i. live E i} = T ` {i. live T i \<and> i \<noteq> f}"
proof -
  obtain z where z: "cut z T" using t by (auto simp: table_inv_def)
  have "shift_core z f T T' h \<and> (\<forall>i. \<not> crosses z T' h i)"
    using backshift_core [OF shift_inv_start [OF t z f] _ b] by simp
  then have ht: "hole_table z T' h" and cr: "\<And>i. \<not> crosses z T' h i"
    and lv: "\<And>i. live T' i \<longleftrightarrow> live T i" and h: "live T' h"
    and dead: "\<And>i. \<not> live T i \<Longrightarrow> T' i = T i"
    and im: "T' ` {i. live T' i \<and> i \<noteq> h} = T ` {i. live T i \<and> i \<noteq> f}"
    unfolding shift_core_def by blast+
  have "states_ok T'" unfolding states_ok_def
  proof
    fix i show "or_state (T' i) = 0 \<or> or_state (T' i) = 1"
      using t lv [of i] dead [of i] by (cases "live T i") (auto simp: table_inv_def states_ok_def)
  qed
  then show "table_inv E" unfolding E_def by (rule hole_table_clear [OF ht cr])
  have live: "live E i \<longleftrightarrow> live T i \<and> i \<noteq> h" for i using lv by (simp add: E_def init_OrderRecord_def)
  then show "{i. live E i} = {i. live T i} - {h}" by auto
  show "live T h" using h lv by blast
  have "E ` {i. live E i} = T' ` {i. live T' i \<and> i \<noteq> h}"
    unfolding live lv by (rule image_cong) (auto simp: E_def)
  then show "E ` {i. live E i} = T ` {i. live T i \<and> i \<noteq> f}" using im by simp
qed

lemma pool_dom: "pool_inv p \<Longrightarrow>
    dom (pool_lookup p) = (\<lambda>i. or_order_id (op_orders p i)) ` {i. live (op_orders p) i}"
  by (auto simp: dom_def pool_lookup_iff)

text \<open>\<^verbatim>\<open>live_count_\<close> is the number of ids in the map.\<close>

lemma live_count_card: "pool_inv p \<Longrightarrow> op_live_count p = card (dom (pool_lookup p))"
proof -
  assume inv: "pool_inv p"
  then have "inj_on (\<lambda>i. or_order_id (op_orders p i)) {i. live (op_orders p) i}"
    unfolding pool_inv_def table_inv_def keys_unique_def inj_on_def by simp
  then show ?thesis using inv by (simp add: pool_dom card_image pool_inv_def)
qed

lemma pool_lookup_eqI:
  assumes "pool_inv p" and "\<And>k r. m k = Some r \<longleftrightarrow> (\<exists>i. op_orders p i = r \<and> or_state r = 1 \<and> or_order_id r = k)"
  shows "pool_lookup p = m"
proof
  fix k
  have "pool_lookup p k = Some r \<longleftrightarrow> m k = Some r" for r
    by (simp add: pool_lookup_iff [OF assms(1)] assms(2))
  then show "pool_lookup p k = m k" by (metis not_None_eq)
qed

lemma pool_inv_init: "pool_inv init_OrderPool"
  by (simp add: pool_inv_def init_OrderPool_def init_OrderRecord_def table_inv_def probe_ok_def
      cut_def keys_unique_def states_ok_def)

lemma pool_lookup_init: "pool_lookup init_OrderPool = Map.empty"
  by (rule pool_lookup_eqI [OF pool_inv_init])
    (auto simp: init_OrderPool_def init_OrderRecord_def)

text \<open>Writing through the record pointer: the id and the state stay.\<close>

definition write_record :: "OrderPool \<Rightarrow> pool_index \<Rightarrow> OrderRecord \<Rightarrow> OrderPool" where
  "write_record p i r = p\<lparr>op_orders := (op_orders p)(i := r)\<rparr>"

lemma write_record_inv:
  assumes inv: "pool_inv p" and i: "live (op_orders p) i"
    and r: "or_order_id r = or_order_id (op_orders p i)" "or_state r = 1"
  shows "pool_inv (write_record p i r)"
proof -
  let ?T = "op_orders p"
  have st: "or_state ((?T(i := r)) j) = or_state (?T j)" "or_order_id ((?T(i := r)) j) = or_order_id (?T j)" for j
    using i r by auto
  have "table_inv (?T(i := r)) = table_inv ?T"
    unfolding table_inv_def probe_ok_def cut_def keys_unique_def states_ok_def st ..
  moreover have "{j. live (?T(i := r)) j} = {j. live ?T j}" unfolding st ..
  ultimately show ?thesis using inv unfolding pool_inv_def write_record_def by simp
qed

lemma write_record_lookup:
  assumes inv: "pool_inv p" and i: "find_order p k = Some i" and r: "or_order_id r = k" "or_state r = 1"
  shows "pool_inv (write_record p i r) \<and> pool_lookup (write_record p i r) = (pool_lookup p)(k \<mapsto> r)"
proof
  have l: "live (op_orders p) i" "or_order_id (op_orders p i) = k"
    using i by (simp_all add: find_order_iff [OF inv])
  show inv': "pool_inv (write_record p i r)" using write_record_inv [OF inv l(1)] l(2) r by simp
  show "pool_lookup (write_record p i r) = (pool_lookup p)(k \<mapsto> r)"
  proof
    fix k'
    have f: "find_order (write_record p i r) k' = find_order p k'"
    proof -
      have "find_order (write_record p i r) k' = Some j \<longleftrightarrow> find_order p k' = Some j" for j
        unfolding find_order_iff [OF inv] find_order_iff [OF inv'] using l r
        by (auto simp: write_record_def)
      then show ?thesis by (metis not_None_eq)
    qed
    have "find_order p k' \<noteq> Some i" if "k' \<noteq> k" using that l(2) by (simp add: find_order_iff [OF inv])
    then show "pool_lookup (write_record p i r) k' = ((pool_lookup p)(k \<mapsto> r)) k'"
      unfolding pool_lookup_def f using i
      by (cases "k' = k"; cases "find_order p k'") (auto simp: write_record_def)
  qed
qed

definition blank_order :: "u64 \<Rightarrow> OrderRecord" where
  "blank_order k = init_OrderRecord\<lparr>or_order_id := k, or_state := 1\<rparr>"

lemma insert_order_lookup:
  assumes inv: "pool_inv p" and ins: "insert_order p k = (p', Some i)"
  shows "pool_inv p' \<and> find_order p' k = Some i \<and>
    pool_lookup p' = (if pool_lookup p k = None then (pool_lookup p)(k \<mapsto> blank_order k) else pool_lookup p)"
proof (cases "find_order p k")
  case (Some j)
  then have "insert_order p k = (p, Some j)"
    using ins by (cases "op_live_count p < kOrderPool")
      (simp_all add: insert_order_existing insert_order_full)
  then show ?thesis using ins inv Some by (simp add: pool_lookup_def)
next
  case None
  have "op_live_count p < kOrderPool"
    using ins insert_order_full [of p k] by (cases "kOrderPool \<le> op_live_count p") auto
  from insert_order_new [OF inv this None]
  obtain j q where q: "insert_order p k = (q, Some j)" "pool_inv q" "\<not> live (op_orders p) j"
    "op_orders q = (op_orders p)(j := blank_order k)" unfolding blank_order_def by blast
  have b: "or_order_id (blank_order k) = k" "or_state (blank_order k) = 1"
    by (simp_all add: blank_order_def)
  have n: "pool_lookup p k = None" using None by (simp add: pool_lookup_def)
  have "pool_lookup q = (pool_lookup p)(k \<mapsto> blank_order k)"
  proof (rule pool_lookup_eqI [OF q(2)])
    fix k' r
    show "((pool_lookup p)(k \<mapsto> blank_order k)) k' = Some r \<longleftrightarrow>
        (\<exists>i. op_orders q i = r \<and> or_state r = 1 \<and> or_order_id r = k')"
    proof (cases "k' = k")
      case True
      have "r = blank_order k" if "op_orders q i = r" "or_state r = 1" "or_order_id r = k" for i
        using that n q(4) pool_lookup_None [OF inv, of k] by (cases "i = j") auto
      then show ?thesis using True q(4) b by auto (metis fun_upd_same)
    next
      case False
      have "(\<exists>i. op_orders p i = r \<and> or_state r = 1 \<and> or_order_id r = k') \<longleftrightarrow>
          (\<exists>i. op_orders q i = r \<and> or_state r = 1 \<and> or_order_id r = k')"
        unfolding q(4) using q(3) b False by (metis fun_upd_apply)
      then show ?thesis using False by (simp add: pool_lookup_iff [OF inv])
    qed
  qed
  moreover have "find_order q k = Some j" using q(4) b by (simp add: find_order_iff [OF q(2)])
  ultimately show ?thesis using q ins n by simp
qed

lemma insert_order_None:
  assumes "pool_inv p"
  shows "insert_order p k = (p', None) \<longleftrightarrow> p' = p \<and> kOrderPool \<le> card (dom (pool_lookup p))"
proof (cases "op_live_count p < kOrderPool")
  case True
  then show ?thesis
  proof (cases "find_order p k")
    case None
    then show ?thesis using insert_order_new [OF assms True None] True live_count_card [OF assms]
      by (metis Pair_inject not_le option.distinct(1))
  qed (use True live_count_card [OF assms] in \<open>simp add: insert_order_existing\<close>)
qed (use live_count_card [OF assms] in \<open>auto simp: insert_order_full\<close>)

lemma erase_order_lookup:
  assumes inv: "pool_inv p"
  shows "pool_inv (erase_order p k) \<and> pool_lookup (erase_order p k) = (pool_lookup p)(k := None)"
proof (cases "find_order p k")
  case None
  then have "erase_order p k = p" by (simp add: erase_order_def find_order_def)
  then show ?thesis using inv None by (auto simp: pool_lookup_def)
next
  case (Some f)
  let ?T = "op_orders p"
  have t: "table_inv ?T" and f: "live ?T f" "or_order_id (?T f) = k"
    using inv Some by (simp_all add: pool_inv_def find_order_iff [OF inv])
  obtain T' h where b: "backshift ?T f f (f + 1) = (T', h)" by fastforce
  let ?E = "T'(h := init_OrderRecord)"
  note e = erase_table [OF t f(1) b]
  have "card ({i. live ?T i} - {h}) = card {i. live ?T i} - 1" "card {i. live ?T i} > 0"
    using e(3) by (auto simp: card_gt_0_iff)
  then have p': "erase_order p k = p\<lparr>op_orders := ?E, op_live_count := card {i. live ?E i}\<rparr>"
    using inv Some e(2) b by (simp add: erase_order_def find_order_def pool_inv_def)
  then have inv': "pool_inv (erase_order p k)" using e(1) by (simp add: pool_inv_def)
  have uniq: "i = f" if "live ?T i" "or_order_id (?T i) = k" for i
    using t that f unfolding table_inv_def keys_unique_def by metis
  have "pool_lookup (erase_order p k) = (pool_lookup p)(k := None)"
  proof (rule pool_lookup_eqI [OF inv'])
    fix k' r
    have "(\<exists>i. op_orders (erase_order p k) i = r \<and> or_state r = 1 \<and> or_order_id r = k') \<longleftrightarrow>
        r \<in> ?E ` {i. live ?E i} \<and> or_order_id r = k'"
      unfolding p' by auto
    also have "\<dots> \<longleftrightarrow> (\<exists>i. live ?T i \<and> i \<noteq> f \<and> r = ?T i \<and> or_order_id r = k')"
      unfolding e(4) by auto
    also have "\<dots> \<longleftrightarrow> k' \<noteq> k \<and> (\<exists>i. ?T i = r \<and> or_state r = 1 \<and> or_order_id r = k')"
      using uniq f(2) by auto
    finally show "((pool_lookup p)(k := None)) k' = Some r \<longleftrightarrow>
        (\<exists>i. op_orders (erase_order p k) i = r \<and> or_state r = 1 \<and> or_order_id r = k')"
      by (simp add: pool_lookup_iff [OF inv])
  qed
  with inv' show ?thesis ..
qed

section \<open>The pool as a bounded map\<close>

text \<open>
  What the book builder relies on. A handle is the pointer that \<^verbatim>\<open>find_order\<close> and
  \<^verbatim>\<open>insert_order\<close> return; \<open>put\<close> writes a record through it.
\<close>

locale order_store =
  fixes inv :: "'s \<Rightarrow> bool"
    and lookup :: "'s \<Rightarrow> u64 \<Rightarrow> OrderRecord option"
    and find :: "'s \<Rightarrow> u64 \<Rightarrow> 'h option"
    and fetch :: "'s \<Rightarrow> 'h \<Rightarrow> OrderRecord"
    and put :: "'s \<Rightarrow> 'h \<Rightarrow> OrderRecord \<Rightarrow> 's"
    and ins :: "'s \<Rightarrow> u64 \<Rightarrow> 's \<times> 'h option"
    and del :: "'s \<Rightarrow> u64 \<Rightarrow> 's"
    and capacity :: nat
  assumes lookup_find: "lookup s k = map_option (fetch s) (find s k)"
    and lookup_key: "inv s \<Longrightarrow> lookup s k = Some r \<Longrightarrow> or_order_id r = k \<and> or_state r = 1"
    and put_law: "inv s \<Longrightarrow> find s k = Some h \<Longrightarrow> or_order_id r = k \<Longrightarrow> or_state r = 1 \<Longrightarrow>
      inv (put s h r) \<and> lookup (put s h r) = (lookup s)(k \<mapsto> r)"
    and ins_law: "inv s \<Longrightarrow> ins s k = (s', Some h) \<Longrightarrow> inv s' \<and> find s' k = Some h \<and>
      lookup s' = (if lookup s k = None then (lookup s)(k \<mapsto> blank_order k) else lookup s)"
    and ins_full: "inv s \<Longrightarrow> ins s k = (s', None) \<longleftrightarrow> s' = s \<and> capacity \<le> card (dom (lookup s))"
    and del_law: "inv s \<Longrightarrow> inv (del s k) \<and> lookup (del s k) = (lookup s)(k := None)"
begin

lemma fetch_found: "find s k = Some h \<Longrightarrow> lookup s k = Some (fetch s h)"
  by (simp add: lookup_find)

lemma found_key: "inv s \<Longrightarrow> find s k = Some h \<Longrightarrow> or_order_id (fetch s h) = k \<and> or_state (fetch s h) = 1"
  using fetch_found lookup_key by blast

lemma upsert:
  assumes "inv s" "ins s k = (s', Some h)" "or_order_id r = k" "or_state r = 1"
  shows "inv (put s' h r)" "lookup (put s' h r) = (lookup s)(k \<mapsto> r)"
  using put_law [of s' k h r] ins_law [OF assms(1,2)] assms(3,4) by (auto split: if_splits)

lemma fetch_inserted:
  "inv s \<Longrightarrow> ins s k = (s', Some h) \<Longrightarrow>
   fetch s' h = (case lookup s k of None \<Rightarrow> blank_order k | Some r \<Rightarrow> r)"
  using ins_law [of s k s' h] fetch_found [of s' k h] by (auto split: option.splits if_splits)

lemma ins_room: "inv s \<Longrightarrow> card (dom (lookup s)) < capacity \<Longrightarrow> \<exists>s' h. ins s k = (s', Some h)"
  using ins_full [of s k] by (metis not_None_eq not_le prod.exhaust)

end

interpretation pool: order_store pool_inv pool_lookup find_order op_orders write_record insert_order
  erase_order kOrderPool
proof
  fix p p' k h r
  show "pool_lookup p k = map_option (op_orders p) (find_order p k)" by (simp add: pool_lookup_def)
  show "pool_inv p \<Longrightarrow> pool_lookup p k = Some r \<Longrightarrow> or_order_id r = k \<and> or_state r = 1"
    by (auto simp: pool_lookup_iff)
qed (use write_record_lookup insert_order_lookup insert_order_None erase_order_lookup in blast)+

section \<open>Operation sequences\<close>

definition assign_order :: "OrderRecord \<Rightarrow> u32 \<Rightarrow> Side \<Rightarrow> u32 \<Rightarrow> u32 \<Rightarrow> OrderRecord" where
  "assign_order r symbol_id side price qty =
     r\<lparr>or_symbol_id := symbol_id, or_side := side, or_price := price, or_qty := qty\<rparr>"

lemma assign_order_fields [simp]:
  "or_order_id (assign_order r s d p q) = or_order_id r" "or_state (assign_order r s d p q) = or_state r"
  "or_symbol_id (assign_order r s d p q) = s" "or_side (assign_order r s d p q) = d"
  "or_price (assign_order r s d p q) = p" "or_qty (assign_order r s d p q) = q"
  by (simp_all add: assign_order_def)

definition live_record :: "u64 \<Rightarrow> u32 \<Rightarrow> Side \<Rightarrow> u32 \<Rightarrow> u32 \<Rightarrow> OrderRecord" where
  "live_record k s d p q = \<lparr>or_order_id = k, or_symbol_id = s, or_side = d, or_price = p,
     or_qty = q, or_state = 1\<rparr>"

lemma live_record_fields [simp]:
  "or_order_id (live_record k s d p q) = k" "or_state (live_record k s d p q) = 1"
  "or_symbol_id (live_record k s d p q) = s" "or_side (live_record k s d p q) = d"
  "or_price (live_record k s d p q) = p" "or_qty (live_record k s d p q) = q"
  by (simp_all add: live_record_def)

lemma assign_order_live: "or_order_id r = k \<Longrightarrow> or_state r = 1 \<Longrightarrow>
    assign_order r s d p q = live_record k s d p q"
  by (simp add: assign_order_def live_record_def)

lemma assign_order_live_state: "or_order_id r = k \<Longrightarrow>
    assign_order r s d p q\<lparr>or_state := 1\<rparr> = live_record k s d p q"
  by (simp add: assign_order_def live_record_def)

text \<open>
  The three ways in which the handlers change the pool, and the same changes of a map from
  ids to records that holds at most 65536 of them.
\<close>

datatype pool_op = PAdd u64 u32 Side u32 u32 | PModify u64 u32 Side u32 u32 | PDelete u64

fun pool_step :: "OrderPool \<Rightarrow> pool_op \<Rightarrow> OrderPool" where
  "pool_step p (PAdd k s d pr q) =
     (case insert_order p k of
        (p', Some i) \<Rightarrow> write_record p' i ((assign_order (op_orders p' i) s d pr q)\<lparr>or_state := 1\<rparr>)
      | (p', None) \<Rightarrow> p')"
| "pool_step p (PModify k s d pr q) =
     (case find_order p k of
        Some i \<Rightarrow> write_record p i (assign_order (op_orders p i) s d pr q)
      | None \<Rightarrow> p)"
| "pool_step p (PDelete k) = erase_order p k"

fun map_step :: "(u64 \<rightharpoonup> OrderRecord) \<Rightarrow> pool_op \<Rightarrow> (u64 \<rightharpoonup> OrderRecord)" where
  "map_step m (PAdd k s d pr q) =
     (if card (dom m) < kOrderPool then m(k \<mapsto> live_record k s d pr q) else m)"
| "map_step m (PModify k s d pr q) =
     (if k \<in> dom m then m(k \<mapsto> live_record k s d pr q) else m)"
| "map_step m (PDelete k) = m(k := None)"

lemma pool_step_refines:
  assumes "pool_inv p"
  shows "pool_inv (pool_step p x) \<and> pool_lookup (pool_step p x) = map_step (pool_lookup p) x"
proof (cases x)
  case (PAdd k s d pr q)
  show ?thesis
  proof (cases "insert_order p k")
    case (Pair p' h)
    show ?thesis
    proof (cases h)
      case None
      then show ?thesis using Pair PAdd assms pool.ins_full [OF assms, of k p'] by simp
    next
      case (Some i)
      have "card (dom (pool_lookup p)) < kOrderPool"
        using Pair Some pool.ins_full [OF assms, of k p] by (metis Pair_inject not_le option.distinct(1))
      moreover have "or_order_id (op_orders p' i) = k"
        using pool.found_key pool.ins_law Pair Some assms by blast
      ultimately show ?thesis using pool.upsert [OF assms, of k p' i] Pair Some PAdd
        by (simp add: assign_order_live_state)
    qed
  qed
next
  case (PModify k s d pr q)
  show ?thesis
  proof (cases "find_order p k")
    case (Some i)
    then show ?thesis
      using pool.put_law [OF assms Some] pool.found_key [OF assms Some] pool.fetch_found [OF Some] PModify
      by (simp add: assign_order_live domIff)
  next
    case None
    then show ?thesis using assms PModify by (simp add: pool.lookup_find domIff)
  qed
next
  case (PDelete k)
  then show ?thesis using pool.del_law [OF assms] by simp
qed

lemma pool_run_refines:
  "pool_inv (foldl pool_step init_OrderPool xs) \<and>
   pool_lookup (foldl pool_step init_OrderPool xs) = foldl map_step Map.empty xs"
proof (induction xs rule: rev_induct)
  case Nil
  show ?case by (simp add: pool_inv_init pool_lookup_init)
next
  case (snoc x xs)
  then show ?case using pool_step_refines by simp
qed

text \<open>
  C13: For every sequence of adds, modifies and deletes on the empty pool, probing for an id
  returns exactly the record that a map from ids to records holds for it (a map that
  refuses an add when it has 65536 entries); \<^verbatim>\<open>live_count_\<close> is the number of live ids and at
  most 65536. Backshift deletion therefore never loses or duplicates an order, even in a
  full table and across the wrap-around of the ring.
\<close>

theorem order_pool_is_map:
  "map_option (op_orders (foldl pool_step init_OrderPool xs))
      (find_order (foldl pool_step init_OrderPool xs) k) = foldl map_step Map.empty xs k \<and>
   op_live_count (foldl pool_step init_OrderPool xs) = card (dom (foldl map_step Map.empty xs)) \<and>
   op_live_count (foldl pool_step init_OrderPool xs) \<le> kOrderPool"
proof -
  let ?p = "foldl pool_step init_OrderPool xs"
  have r: "pool_inv ?p" "pool_lookup ?p = foldl map_step Map.empty xs" using pool_run_refines by auto
  have "card {i. live (op_orders ?p) i} \<le> kOrderPool"
    unfolding card_pool_index [symmetric] by (rule card_mono) auto
  then show ?thesis using r live_count_card [OF r(1)]
    by (simp add: pool_inv_def pool.lookup_find [symmetric])
qed

text \<open>
  C21: What one insertion does: it fails, changing nothing, exactly when 65536 ids are live
  (also for an id that is live already); otherwise it returns the slot of the id, where the
  record is the present one or a zeroed live one, and no other id is affected.
\<close>

theorem insert_order_contract:
  assumes "pool_inv p"
  shows "(snd (insert_order p k) = None \<longleftrightarrow> op_live_count p = kOrderPool) \<and>
    (case insert_order p k of
       (p', None) \<Rightarrow> p' = p
     | (p', Some i) \<Rightarrow> pool_inv p' \<and> find_order p' k = Some i \<and>
         op_orders p' i = (case pool_lookup p k of None \<Rightarrow> blank_order k | Some r \<Rightarrow> r) \<and>
         (\<forall>k'. k' \<noteq> k \<longrightarrow> pool_lookup p' k' = pool_lookup p k'))"
proof (cases "insert_order p k")
  case (Pair p' h)
  have "card {i. live (op_orders p) i} \<le> kOrderPool"
    unfolding card_pool_index [symmetric] by (rule card_mono) auto
  then have le: "op_live_count p \<le> kOrderPool" using assms by (simp add: pool_inv_def)
  show ?thesis
  proof (cases h)
    case None
    then show ?thesis
      using pool.ins_full [OF assms, of k p'] live_count_card [OF assms] le Pair by simp
  next
    case (Some i)
    then have e: "insert_order p k = (p', Some i)" using Pair by simp
    have "op_live_count p \<noteq> kOrderPool" using e insert_order_full [of p k] by auto
    then show ?thesis using pool.ins_law [OF assms e] pool.fetch_inserted [OF assms e] e by simp
  qed
qed

theorem insert_order_contract_witness:
  "\<exists>p' i. insert_order init_OrderPool 7 = (p', Some i) \<and> op_orders p' i = blank_order 7"
proof -
  have "op_live_count init_OrderPool \<noteq> kOrderPool" by (simp add: init_OrderPool_def kOrderPool_def)
  then show ?thesis using insert_order_contract [OF pool_inv_init, of 7]
    by (cases "insert_order init_OrderPool 7") (auto simp: pool_lookup_init split: option.splits)
qed

end
