(* ===== verification/Side_Book.thy ===== *)
theory Side_Book
  imports Order_Pool
begin

text \<open>
  One side of one symbol's book (\<^verbatim>\<open>SideBook\<close> in \<^verbatim>\<open>include/mdp/book.hpp\<close>;
  \<^verbatim>\<open>valid_price\<close>, \<^verbatim>\<open>set_occupied\<close>, \<^verbatim>\<open>recompute_best\<close>, \<^verbatim>\<open>add_level\<close> and
  \<^verbatim>\<open>remove_level\<close> in \<^verbatim>\<open>src/book.cpp\<close>): the quantity of each price level, a bitmap of the
  levels in use and the best price.

  Array indices are naturals; the lemmas show that every index the code forms is inside
  its array as long as prices are valid.
\<close>

section \<open>State\<close>

definition kMaxSymbols :: u32 where "kMaxSymbols = 32"

definition kPriceLevels :: u32 where "kPriceLevels = 4096"

definition kBitmapWords :: nat where "kBitmapWords = unat (kPriceLevels div 64) + 1"

lemma kBitmapWords_eq [simp]: "kBitmapWords = 65"
  by (simp add: kBitmapWords_def kPriceLevels_def)

record SideBook =
  sb_qty :: "u32 array"
  sb_occupied :: "u64 array"
  sb_best_price :: u32

definition init_SideBook :: SideBook where
  "init_SideBook = \<lparr>sb_qty = (\<lambda>_. 0), sb_occupied = (\<lambda>_. 0), sb_best_price = 0\<rparr>"

section \<open>Operations\<close>

definition valid_price :: "u32 \<Rightarrow> bool" where
  "valid_price price \<longleftrightarrow> 1 \<le> price \<and> price \<le> kPriceLevels"

text \<open>\<^verbatim>\<open>std::countl_zero\<close> and \<^verbatim>\<open>std::countr_zero\<close> on 64-bit words.\<close>

definition countl_zero :: "u64 \<Rightarrow> nat" where
  "countl_zero w = length (takeWhile (\<lambda>i. \<not> bit w i) (rev [0..<64]))"

definition countr_zero :: "u64 \<Rightarrow> nat" where
  "countr_zero w = length (takeWhile (\<lambda>i. \<not> bit w i) [0..<64])"

definition set_occupied :: "SideBook \<Rightarrow> u32 \<Rightarrow> bool \<Rightarrow> SideBook" where
  "set_occupied side price on =
     (let word = unat price div 64;
          mask = push_bit (unat price mod 64) (1 :: u64);
          bits = sb_occupied side word
      in side\<lparr>sb_occupied := (sb_occupied side)(word :=
           (if on then bits OR mask else bits AND NOT mask))\<rparr>)"

text \<open>
  The two loops of \<^verbatim>\<open>recompute_best\<close>. The bid loop counts the word down to 0; its last
  argument is the word plus one, so that 0 is the end of the loop.
\<close>

fun bid_scan :: "u64 array \<Rightarrow> u32 \<Rightarrow> nat \<Rightarrow> u32" where
  "bid_scan occ best 0 = 0"
| "bid_scan occ best (Suc word) =
     (let bits = occ word;
          bits = (if word = unat best div 64 then
                    let bit = unat best mod 64 in
                    if bit < 63 then bits AND (push_bit (bit + 1) 1 - 1) else bits
                  else bits)
      in if bits \<noteq> 0 then of_nat (word * 64 + (63 - countl_zero bits))
         else bid_scan occ best word)"

function ask_scan :: "u64 array \<Rightarrow> u32 \<Rightarrow> nat \<Rightarrow> u32" where
  "ask_scan occ best word =
     (if word < kBitmapWords then
        let bits = occ word;
            bits = (if word = unat best div 64
                    then bits AND NOT (push_bit (unat best mod 64) 1 - 1) else bits)
        in if bits \<noteq> 0 then of_nat (word * 64 + countr_zero bits)
           else ask_scan occ best (word + 1)
      else 0)"
  by pat_completeness auto
termination by (relation "measure (\<lambda>(occ, best, word). kBitmapWords - word)") auto

declare ask_scan.simps [simp del]

definition recompute_best :: "SideBook \<Rightarrow> bool \<Rightarrow> SideBook" where
  "recompute_best side is_bid =
     (let best = sb_best_price side; word = unat best div 64 in
      side\<lparr>sb_best_price :=
        (if is_bid then bid_scan (sb_occupied side) best (word + 1)
         else ask_scan (sb_occupied side) best word)\<rparr>)"

definition add_level :: "SideBook \<Rightarrow> u32 \<Rightarrow> u32 \<Rightarrow> bool \<Rightarrow> SideBook" where
  "add_level side price qty is_bid =
     (let was_empty = sb_qty side (unat price) = 0;
          side = side\<lparr>sb_qty := (sb_qty side)(unat price := sb_qty side (unat price) + qty)\<rparr>;
          side = (if was_empty then set_occupied side price True else side)
      in if sb_best_price side = 0 then side\<lparr>sb_best_price := price\<rparr>
         else if is_bid then
           (if price > sb_best_price side then side\<lparr>sb_best_price := price\<rparr> else side)
         else if price < sb_best_price side then side\<lparr>sb_best_price := price\<rparr>
         else side)"

definition remove_level :: "SideBook \<Rightarrow> u32 \<Rightarrow> u32 \<Rightarrow> bool \<Rightarrow> SideBook" where
  "remove_level side price qty is_bid =
     (let side = side\<lparr>sb_qty := (sb_qty side)(unat price :=
            (if qty \<ge> sb_qty side (unat price) then 0 else sb_qty side (unat price) - qty))\<rparr>;
          side = (if sb_qty side (unat price) = 0 then set_occupied side price False else side)
      in if price = sb_best_price side \<and> sb_qty side (unat price) = 0
         then recompute_best side is_bid else side)"

section \<open>Bit scans\<close>

lemma countl_zero_bit:
  assumes "w \<noteq> 0"
  shows "bit w (63 - countl_zero w)" "\<And>j. bit w j \<Longrightarrow> j \<le> 63 - countl_zero w" "countl_zero w \<le> 63"
proof -
  let ?xs = "rev [0..<64] :: nat list" and ?P = "\<lambda>i. \<not> bit w i"
  let ?n = "length (takeWhile ?P ?xs)"
  obtain i where i: "bit w i" using assms by (auto simp: bit_eq_iff)
  then have "i < 64" using bit_imp_le_length [OF i] by simp
  have "?n < length ?xs"
  proof (rule ccontr)
    assume "\<not> ?n < length ?xs"
    then have "takeWhile ?P ?xs = ?xs"
      using length_takeWhile_le [of ?P ?xs] by (metis not_less takeWhile_eq_take take_all)
    then have "\<forall>x \<in> set ?xs. ?P x" by (simp only: takeWhile_eq_all_conv)
    then show False using i \<open>i < 64\<close> by simp
  qed
  then have n: "?n < 64" by simp
  then have e: "?xs ! ?n = 63 - ?n" by (simp add: rev_nth)
  have "bit w (?xs ! ?n)" using nth_length_takeWhile [of ?P ?xs] n by simp
  then show "bit w (63 - countl_zero w)" by (simp add: e countl_zero_def)
  show "countl_zero w \<le> 63" using n by (simp add: countl_zero_def)
  fix j assume j: "bit w j"
  then have "j < 64" using bit_imp_le_length [OF j] by simp
  show "j \<le> 63 - countl_zero w"
  proof (rule ccontr)
    assume "\<not> j \<le> 63 - countl_zero w"
    then have m: "63 - j < ?n" using \<open>j < 64\<close> by (simp add: countl_zero_def)
    have "takeWhile ?P ?xs ! (63 - j) = ?xs ! (63 - j)" by (rule takeWhile_nth [OF m])
    also have "\<dots> = j" using \<open>j < 64\<close> by (simp add: rev_nth)
    finally have "j \<in> set (takeWhile ?P ?xs)" using m by (metis nth_mem)
    then show False using j set_takeWhileD by fastforce
  qed
qed

lemma countr_zero_bit:
  assumes "w \<noteq> 0"
  shows "bit w (countr_zero w)" "\<And>j. bit w j \<Longrightarrow> countr_zero w \<le> j" "countr_zero w \<le> 63"
proof -
  let ?xs = "[0..<64] :: nat list" and ?P = "\<lambda>i. \<not> bit w i"
  let ?n = "length (takeWhile ?P ?xs)"
  obtain i where i: "bit w i" using assms by (auto simp: bit_eq_iff)
  then have "i < 64" using bit_imp_le_length [OF i] by simp
  have "?n < length ?xs"
  proof (rule ccontr)
    assume "\<not> ?n < length ?xs"
    then have "takeWhile ?P ?xs = ?xs"
      using length_takeWhile_le [of ?P ?xs] by (metis not_less takeWhile_eq_take take_all)
    then have "\<forall>x \<in> set ?xs. ?P x" by (simp only: takeWhile_eq_all_conv)
    then show False using i \<open>i < 64\<close> by simp
  qed
  then have n: "?n < 64" by simp
  have "bit w (?xs ! ?n)" using nth_length_takeWhile [of ?P ?xs] n by simp
  then show "bit w (countr_zero w)" using n by (simp add: countr_zero_def)
  show "countr_zero w \<le> 63" using n by (simp add: countr_zero_def)
  fix j assume j: "bit w j"
  show "countr_zero w \<le> j"
  proof (rule ccontr)
    assume "\<not> countr_zero w \<le> j"
    then have m: "j < ?n" by (simp add: countr_zero_def)
    have "takeWhile ?P ?xs ! j = ?xs ! j" by (rule takeWhile_nth [OF m])
    also have "\<dots> = j" using m n by simp
    finally have "j \<in> set (takeWhile ?P ?xs)" using m by (metis nth_mem)
    then show False using j set_takeWhileD by fastforce
  qed
qed

lemma bit_low_mask: "n < 64 \<Longrightarrow> bit (w AND (push_bit n 1 - 1)) i \<longleftrightarrow> i < n \<and> bit (w :: u64) i"
  using bit_imp_le_length [of w i]
  by (auto simp: push_bit_eq_mult bit_and_iff bit_mask_iff simp flip: mask_eq_exp_minus_1)

lemma bit_high_mask: "bit (w AND NOT (push_bit n 1 - 1)) i \<longleftrightarrow> n \<le> i \<and> bit (w :: u64) i"
  using bit_imp_le_length [of w i]
  by (auto simp: push_bit_eq_mult bit_and_iff bit_mask_iff bit_not_iff simp flip: mask_eq_exp_minus_1)

section \<open>The bitmap as a set of prices\<close>

definition occupied :: "u64 array \<Rightarrow> nat \<Rightarrow> bool" where
  "occupied occ p \<longleftrightarrow> bit (occ (p div 64)) (p mod 64)"

lemma occupied_word: "i < 64 \<Longrightarrow> occupied occ (word * 64 + i) \<longleftrightarrow> bit (occ word) i"
  by (simp add: occupied_def)

lemma price_split: obtains word i where "p = word * 64 + i" "i < (64 :: nat)"
  using that [of "p div 64" "p mod 64"] by simp

lemma word_order: "i < 64 \<Longrightarrow> j < 64 \<Longrightarrow> (a * 64 + i \<le> b * 64 + (j :: nat)) \<longleftrightarrow> a < b \<or> a = b \<and> i \<le> j"
proof (cases a b rule: linorder_cases)
  case less
  assume "i < 64" "j < 64"
  have "Suc a \<le> b" using less by simp
  then have "Suc a * 64 \<le> b * 64" by (rule mult_le_mono1)
  then show ?thesis using \<open>i < 64\<close> less by simp
next
  case greater
  assume "i < 64" "j < 64"
  have "Suc b \<le> a" using greater by simp
  then have "Suc b * 64 \<le> a * 64" by (rule mult_le_mono1)
  then show ?thesis using \<open>j < 64\<close> greater by simp
qed auto

lemma set_occupied_iff:
  "occupied (sb_occupied (set_occupied side price on)) p \<longleftrightarrow>
     (if p = unat price then on else occupied (sb_occupied side) p)"
proof -
  have m: "bit (2 ^ b :: u64) i \<longleftrightarrow> i = b" if "b < 64" for b i
    using that by (auto simp: bit_exp_iff)
  have eq: "p = unat price \<longleftrightarrow> p div 64 = unat price div 64 \<and> p mod 64 = unat price mod 64"
    by (metis div_mult_mod_eq)
  show ?thesis
  proof (cases "p div 64 = unat price div 64")
    case True
    then show ?thesis
      using bit_imp_le_length [of "sb_occupied side (p div 64)" "p mod 64"] eq
      by (auto simp: set_occupied_def Let_def occupied_def bit_or_iff bit_and_iff bit_not_iff m)
  next
    case False
    then show ?thesis using eq by (simp add: set_occupied_def Let_def occupied_def)
  qed
qed

lemma set_occupied_other [simp]:
  "sb_qty (set_occupied side price on) = sb_qty side"
  "sb_best_price (set_occupied side price on) = sb_best_price side"
  by (simp_all add: set_occupied_def Let_def)

text \<open>
  The bid scan returns the highest occupied price at or below the old best price, the ask
  scan the lowest one at or above it; both return 0 when there is none.
\<close>

definition scan_result :: "(nat \<Rightarrow> bool) \<Rightarrow> bool \<Rightarrow> nat \<Rightarrow> bool" where
  "scan_result S is_bid r \<longleftrightarrow>
     (if \<exists>p. S p then S r \<and> (\<forall>p. S p \<longrightarrow> (if is_bid then p \<le> r else r \<le> p)) else r = 0)"

lemma bid_scan_result:
  assumes best: "unat best \<le> 4096"
  shows "n \<le> unat best div 64 + 1 \<Longrightarrow>
    \<exists>r \<le> 4096. bid_scan occ best n = of_nat r \<and>
      scan_result (\<lambda>p. occupied occ p \<and> p \<le> unat best \<and> p < n * 64) True r"
proof (induction n)
  case 0
  then show ?case by (auto simp: scan_result_def intro: exI [of _ 0])
next
  case (Suc word)
  define bw where "bw = unat best div 64"
  define bb where "bb = unat best mod 64"
  have b: "unat best = bw * 64 + bb" "bb < 64" by (simp_all add: bw_def bb_def)
  define bits where "bits = (if word = bw then if bb < 63 then occ word AND (push_bit (bb + 1) 1 - 1)
      else occ word else occ word)"
  have bits: "bit bits i \<longleftrightarrow> bit (occ word) i \<and> word * 64 + i \<le> unat best" if "i < 64" for i
  proof -
    have lm: "bit (occ word AND (push_bit (bb + 1) 1 - 1)) i \<longleftrightarrow> i < bb + 1 \<and> bit (occ word) i" if "bb < 63"
      using that by (intro bit_low_mask) simp
    have "bit bits i \<longleftrightarrow> bit (occ word) i \<and> (word = bw \<longrightarrow> i \<le> bb)"
      using lm that b(2) unfolding bits_def by (auto simp del: push_bit_of_1)
    then show ?thesis using that Suc.prems b(2) unfolding b(1) by (auto simp: word_order bw_def [symmetric])
  qed
  have scan: "bid_scan occ best (Suc word) = (if bits \<noteq> 0
      then of_nat (word * 64 + (63 - countl_zero bits)) else bid_scan occ best word)"
    by (simp add: bits_def Let_def bw_def bb_def)
  show ?case
  proof (cases "bits = 0")
    case True
    have no: "\<not> (occupied occ p \<and> p \<le> unat best \<and> \<not> p < word * 64 \<and> p < Suc word * 64)" for p
    proof
      assume p: "occupied occ p \<and> p \<le> unat best \<and> \<not> p < word * 64 \<and> p < Suc word * 64"
      define i where "i = p - word * 64"
      have "p = word * 64 + i" "i < 64" using p by (auto simp: i_def)
      then show False using p bits [of i] True by (simp add: occupied_word)
    qed
    have "(\<lambda>p. occupied occ p \<and> p \<le> unat best \<and> p < Suc word * 64) =
        (\<lambda>p. occupied occ p \<and> p \<le> unat best \<and> p < word * 64)"
      using no by (intro ext) (metis less_trans mult_less_cancel2 lessI zero_less_numeral)
    then show ?thesis using Suc True scan by simp
  next
    case False
    let ?i = "63 - countl_zero bits"
    note c = countl_zero_bit [OF False]
    have i: "?i < 64" by simp
    have r: "occupied occ (word * 64 + ?i)" "word * 64 + ?i \<le> unat best"
      using c(1) bits [OF i] by (simp_all add: occupied_word)
    have "p \<le> word * 64 + ?i" if "occupied occ p" "p \<le> unat best" "p < Suc word * 64" for p
    proof (cases "p < word * 64")
      case False
      define j where "j = p - word * 64"
      have j: "p = word * 64 + j" "j < 64" using False that by (auto simp: j_def)
      then show ?thesis using that bits [of j] c(2) [of j] by (simp add: occupied_word)
    qed simp
    moreover have "word * 64 + ?i < Suc word * 64" by simp
    ultimately have "scan_result (\<lambda>p. occupied occ p \<and> p \<le> unat best \<and> p < Suc word * 64) True
        (word * 64 + ?i)"
      using r unfolding scan_result_def by auto
    then show ?thesis using False scan r(2) best by (intro exI [of _ "word * 64 + ?i"]) simp
  qed
qed

lemma ask_scan_result:
  assumes occ: "\<And>p. occupied occ p \<Longrightarrow> p \<le> 4096"
  shows "unat best div 64 \<le> word \<Longrightarrow>
    \<exists>r \<le> 4096. ask_scan occ best word = of_nat r \<and>
      scan_result (\<lambda>p. occupied occ p \<and> unat best \<le> p \<and> word * 64 \<le> p) False r"
proof (induction "65 - word" arbitrary: word)
  case 0
  then have "\<not> (occupied occ p \<and> unat best \<le> p \<and> word * 64 \<le> p)" for p using occ [of p] by auto
  then show ?case using 0 by (subst ask_scan.simps) (auto simp: scan_result_def)
next
  case (Suc k)
  define bw where "bw = unat best div 64"
  define bb where "bb = unat best mod 64"
  have b: "unat best = bw * 64 + bb" "bb < 64" by (simp_all add: bw_def bb_def)
  define bits where "bits = (if word = bw then occ word AND NOT (push_bit bb 1 - 1) else occ word)"
  have bits: "bit bits i \<longleftrightarrow> bit (occ word) i \<and> unat best \<le> word * 64 + i" if "i < 64" for i
  proof -
    have "bit bits i \<longleftrightarrow> bit (occ word) i \<and> (word = bw \<longrightarrow> bb \<le> i)"
      using bit_high_mask [of "occ word" bb i] unfolding bits_def by (auto simp del: push_bit_of_1)
    then show ?thesis using that Suc.prems b(2) unfolding b(1) by (auto simp: word_order bw_def [symmetric])
  qed
  have w: "word < 65" using Suc.hyps(2) by simp
  have scan: "ask_scan occ best word = (if bits \<noteq> 0
      then of_nat (word * 64 + countr_zero bits) else ask_scan occ best (word + 1))"
    using w by (subst ask_scan.simps) (simp add: bits_def Let_def bw_def bb_def)
  show ?case
  proof (cases "bits = 0")
    case True
    have no: "\<not> (occupied occ p \<and> unat best \<le> p \<and> word * 64 \<le> p \<and> p < (word + 1) * 64)" for p
    proof
      assume p: "occupied occ p \<and> unat best \<le> p \<and> word * 64 \<le> p \<and> p < (word + 1) * 64"
      define i where "i = p - word * 64"
      have "p = word * 64 + i" "i < 64" using p by (auto simp: i_def)
      then show False using p bits [of i] True by (simp add: occupied_word)
    qed
    have "(\<lambda>p. occupied occ p \<and> unat best \<le> p \<and> word * 64 \<le> p) =
        (\<lambda>p. occupied occ p \<and> unat best \<le> p \<and> (word + 1) * 64 \<le> p)"
    proof
      fix p
      have "word * 64 \<le> (word + 1) * 64" by simp
      then show "(occupied occ p \<and> unat best \<le> p \<and> word * 64 \<le> p) =
        (occupied occ p \<and> unat best \<le> p \<and> (word + 1) * 64 \<le> p)"
        using no [of p] by (meson le_trans not_le)
    qed
    then show ?thesis using Suc.hyps(1) [of "word + 1"] Suc.hyps(2) Suc.prems True scan by simp
  next
    case False
    let ?i = "countr_zero bits"
    note c = countr_zero_bit [OF False]
    have i: "?i < 64" using c(3) by simp
    have r: "occupied occ (word * 64 + ?i)" "unat best \<le> word * 64 + ?i"
      using c(1) bits [OF i] i by (simp_all add: occupied_word)
    have "word * 64 + ?i \<le> p" if "occupied occ p" "unat best \<le> p" "word * 64 \<le> p" for p
    proof (cases "p < (word + 1) * 64")
      case True
      define j where "j = p - word * 64"
      have j: "p = word * 64 + j" "j < 64" using True that by (auto simp: j_def)
      then show ?thesis using that bits [of j] c(2) [of j] by (simp add: occupied_word)
    qed (use i in simp)
    then have "scan_result (\<lambda>p. occupied occ p \<and> unat best \<le> p \<and> word * 64 \<le> p) False
        (word * 64 + ?i)"
      using r unfolding scan_result_def by auto
    then show ?thesis using False scan occ [OF r(1)] by (intro exI [of _ "word * 64 + ?i"]) simp
  qed
qed

section \<open>The side invariant\<close>

text \<open>
  Bits are set for valid prices only, a level with a quantity has its bit, and the best
  price is the highest (bid) or lowest (ask) price whose bit is set, or 0.
\<close>

definition side_inv :: "bool \<Rightarrow> SideBook \<Rightarrow> bool" where
  "side_inv is_bid s \<longleftrightarrow>
     (\<forall>p. occupied (sb_occupied s) p \<longrightarrow> 1 \<le> p \<and> p \<le> 4096) \<and>
     (\<forall>p. sb_qty s p \<noteq> 0 \<longrightarrow> occupied (sb_occupied s) p) \<and>
     scan_result (occupied (sb_occupied s)) is_bid (unat (sb_best_price s))"

lemma side_invD:
  assumes "side_inv is_bid s"
  shows "\<And>p. occupied (sb_occupied s) p \<Longrightarrow> 1 \<le> p \<and> p \<le> 4096"
    "\<And>p. sb_qty s p \<noteq> 0 \<Longrightarrow> occupied (sb_occupied s) p"
    "scan_result (occupied (sb_occupied s)) is_bid (unat (sb_best_price s))"
  using assms unfolding side_inv_def by blast+

lemma scan_result_unique: "scan_result S b r \<Longrightarrow> scan_result S b r' \<Longrightarrow> r = r'"
  unfolding scan_result_def by (metis antisym)

lemma init_SideBook_fields [simp]:
  "sb_qty init_SideBook p = 0" "\<not> occupied (sb_occupied init_SideBook) p"
  "sb_best_price init_SideBook = 0"
  by (simp_all add: init_SideBook_def occupied_def)

lemma side_inv_init: "side_inv is_bid init_SideBook"
  by (simp add: side_inv_def scan_result_def)

lemma best_bound: "side_inv is_bid s \<Longrightarrow> unat (sb_best_price s) \<le> 4096"
  unfolding side_inv_def scan_result_def by (metis zero_le)

lemma valid_price_iff: "valid_price price \<longleftrightarrow> 1 \<le> unat price \<and> unat price \<le> 4096"
  by (simp add: valid_price_def kPriceLevels_def word_le_nat_alt)

lemma best_zero: "side_inv is_bid s \<Longrightarrow> sb_best_price s = 0 \<longleftrightarrow> (\<forall>p. \<not> occupied (sb_occupied s) p)"
  unfolding side_inv_def scan_result_def
  by (metis not_one_le_zero unat_eq_0)

lemma recompute_best_result:
  assumes occ: "\<And>p. occupied (sb_occupied s) p \<Longrightarrow> p \<le> 4096" and best: "unat (sb_best_price s) \<le> 4096"
  shows "scan_result (\<lambda>p. occupied (sb_occupied s) p \<and>
      (if is_bid then p \<le> unat (sb_best_price s) else unat (sb_best_price s) \<le> p))
      is_bid (unat (sb_best_price (recompute_best s is_bid)))"
proof -
  let ?b = "sb_best_price s" and ?o = "sb_occupied s"
  have small: "unat (of_nat r :: u32) = r" if "r \<le> 4096" for r
    using that by (simp add: unat_of_nat take_bit_eq_mod)
  have lt: "p < (unat ?b div 64 + 1) * 64" if "p \<le> unat ?b" for p using that by simp
  have ge: "unat ?b div 64 * 64 \<le> p" if "unat ?b \<le> p" for p using that by simp
  show ?thesis
  proof (cases is_bid)
    case True
    have "(\<lambda>p. occupied ?o p \<and> p \<le> unat ?b \<and> p < (unat ?b div 64 + 1) * 64) =
        (\<lambda>p. occupied ?o p \<and> p \<le> unat ?b)" using lt by blast
    then show ?thesis using True bid_scan_result [OF best order_refl, of ?o] small
      by (auto simp: recompute_best_def Let_def)
  next
    case False
    have "(\<lambda>p. occupied ?o p \<and> unat ?b \<le> p \<and> unat ?b div 64 * 64 \<le> p) =
        (\<lambda>p. occupied ?o p \<and> unat ?b \<le> p)" using ge by blast
    then show ?thesis using False ask_scan_result [of ?o, OF occ order_refl, of ?b] small
      by (auto simp: recompute_best_def Let_def)
  qed
qed

section \<open>Adding and removing quantity\<close>

lemma add_level_qty [simp]:
  "sb_qty (add_level s price q d) = (sb_qty s)(unat price := sb_qty s (unat price) + q)"
  by (simp add: add_level_def Let_def)

lemma remove_level_qty [simp]:
  "sb_qty (remove_level s price q d) = (sb_qty s)(unat price :=
     (if q \<ge> sb_qty s (unat price) then 0 else sb_qty s (unat price) - q))"
  by (simp add: remove_level_def recompute_best_def Let_def)

lemma add_level_occupied:
  assumes "side_inv d s"
  shows "occupied (sb_occupied (add_level s price q d)) p \<longleftrightarrow>
    p = unat price \<or> occupied (sb_occupied s) p"
proof -
  have "sb_occupied (add_level s price q d) =
      (if sb_qty s (unat price) = 0 then sb_occupied (set_occupied s price True) else sb_occupied s)"
    by (simp add: add_level_def Let_def set_occupied_def)
  then show ?thesis using side_invD(2) [OF assms, of "unat price"] by (auto simp: set_occupied_iff)
qed

lemma add_level_best:
  "sb_best_price (add_level s price q d) =
     (if sb_best_price s = 0 then price
      else if d then max price (sb_best_price s) else min price (sb_best_price s))"
  by (auto simp: add_level_def Let_def max_def min_def)

lemma add_level_inv [book_inv_intros]:
  assumes inv: "side_inv d s" and price: "valid_price price"
  shows "side_inv d (add_level s price q d)"
proof -
  let ?s = "add_level s price q d"
  note s = side_invD [OF inv] and o = add_level_occupied [OF inv, of price q]
  have "1 \<le> p \<and> p \<le> 4096" if "occupied (sb_occupied ?s) p" for p
    using that s(1) price unfolding o by (auto simp: valid_price_iff)
  moreover have "occupied (sb_occupied ?s) p" if "sb_qty ?s p \<noteq> 0" for p
    using that s(2) [of p] unfolding o by (auto split: if_splits)
  moreover have "scan_result (occupied (sb_occupied ?s)) d (unat (sb_best_price ?s))"
  proof (cases "sb_best_price s = 0")
    case True
    then have "\<not> occupied (sb_occupied s) p" for p using best_zero [OF inv] by simp
    then show ?thesis using True by (auto simp: scan_result_def o add_level_best)
  next
    case False
    then have "\<exists>p. occupied (sb_occupied s) p" using best_zero [OF inv] by blast
    then have b: "occupied (sb_occupied s) (unat (sb_best_price s))"
      "\<And>p. occupied (sb_occupied s) p \<Longrightarrow>
        (if d then p \<le> unat (sb_best_price s) else unat (sb_best_price s) \<le> p)"
      using s(3) unfolding scan_result_def by presburger+
    have "occupied (sb_occupied ?s) (unat (sb_best_price ?s))"
      unfolding o add_level_best using b(1) False by (auto simp: max_def min_def)
    moreover have "if d then p \<le> unat (sb_best_price ?s) else unat (sb_best_price ?s) \<le> p"
      if "occupied (sb_occupied ?s) p" for p
      using that b(2) [of p] False unfolding o add_level_best
      by (auto simp: max_def min_def word_le_nat_alt split: if_splits)
    ultimately show ?thesis unfolding scan_result_def by auto
  qed
  ultimately show ?thesis unfolding side_inv_def by blast
qed

lemma remove_level_occupied:
  assumes "side_inv d s"
  shows "occupied (sb_occupied (remove_level s price q d)) p \<longleftrightarrow>
    (if p = unat price then q < sb_qty s p else occupied (sb_occupied s) p)"
proof -
  have z: "sb_qty (remove_level s price q d) (unat price) = 0 \<longleftrightarrow> \<not> q < sb_qty s (unat price)"
    by (auto simp: not_less)
  have "sb_occupied (remove_level s price q d) =
      (if \<not> q < sb_qty s (unat price) then sb_occupied (set_occupied s price False) else sb_occupied s)"
    unfolding z [symmetric] by (simp add: remove_level_def recompute_best_def Let_def set_occupied_def)
  moreover have "occupied (sb_occupied s) (unat price)" if "q < sb_qty s (unat price)"
    using that side_invD(2) [OF assms, of "unat price"] by fastforce
  ultimately show ?thesis by (auto simp: set_occupied_iff)
qed

lemma remove_level_inv [book_inv_intros]:
  assumes inv: "side_inv d s"
  shows "side_inv d (remove_level s price q d)"
proof -
  let ?s = "remove_level s price q d" and ?b = "unat (sb_best_price s)"
  note s = side_invD [OF inv] and o = remove_level_occupied [OF inv, of price q]
  have sub: "occupied (sb_occupied s) p" if "occupied (sb_occupied ?s) p" for p
    using that s(2) [of p] unfolding o by (cases "p = unat price") fastforce+
  have bnd: "1 \<le> p \<and> p \<le> 4096" if "occupied (sb_occupied ?s) p" for p using sub [OF that] s(1) by blast
  have ext: "if d then p \<le> ?b else ?b \<le> p" if "occupied (sb_occupied s) p" for p
    using s(3) that unfolding scan_result_def by presburger
  have "sb_qty ?s p \<noteq> 0 \<Longrightarrow> occupied (sb_occupied ?s) p" for p
    using s(2) [of p] unfolding o by (auto split: if_splits)
  moreover have "scan_result (occupied (sb_occupied ?s)) d (unat (sb_best_price ?s))"
  proof (cases "price = sb_best_price s \<and> sb_qty s (unat price) \<le> q")
    case True
    define u where "u = set_occupied (s\<lparr>sb_qty := (sb_qty s)(unat price := 0)\<rparr>) price False"
    have r: "?s = recompute_best u d" using True by (auto simp: remove_level_def Let_def u_def)
    then have u: "?s = recompute_best u d" "sb_occupied u = sb_occupied ?s"
      "sb_best_price u = sb_best_price s"
      by (simp_all add: u_def recompute_best_def Let_def)
    have "(\<lambda>p. occupied (sb_occupied u) p \<and> (if d then p \<le> ?b else ?b \<le> p)) = occupied (sb_occupied ?s)"
      using ext sub u(2) by fastforce
    moreover have "scan_result (\<lambda>p. occupied (sb_occupied u) p \<and> (if d then p \<le> ?b else ?b \<le> p)) d
        (unat (sb_best_price (recompute_best u d)))"
      using recompute_best_result [of u d] bnd best_bound [OF inv] unfolding u(2,3) by blast
    ultimately show ?thesis unfolding r by simp
  next
    case False
    then have "sb_best_price ?s = sb_best_price s"
      by (auto simp: remove_level_def Let_def)
    moreover have "scan_result (occupied (sb_occupied ?s)) d ?b"
    proof (cases "\<exists>p. occupied (sb_occupied s) p")
      case True
      then have "occupied (sb_occupied s) ?b" using s(3) by (simp add: scan_result_def)
      then have "occupied (sb_occupied ?s) ?b"
        using False unfolding o by (auto simp: not_le dest: unsigned_word_eqI)
      then show ?thesis using ext sub unfolding scan_result_def by auto
    next
      case none: False
      then show ?thesis using s(3) sub unfolding scan_result_def by metis
    qed
    ultimately show ?thesis by simp
  qed
  ultimately show ?thesis using bnd unfolding side_inv_def by blast
qed

section \<open>The scan against a walk over the levels\<close>

text \<open>
  The reference: walking the levels one by one, down from the best bid or up from the best
  ask, to the next one that is marked.
\<close>

fun walk_down :: "(nat \<Rightarrow> bool) \<Rightarrow> nat \<Rightarrow> nat" where
  "walk_down marked 0 = 0"
| "walk_down marked (Suc p) = (if marked (Suc p) then Suc p else walk_down marked p)"

fun walk_up :: "(nat \<Rightarrow> bool) \<Rightarrow> nat \<Rightarrow> nat \<Rightarrow> nat" where
  "walk_up marked 0 p = 0"
| "walk_up marked (Suc n) p = (if marked p then p else walk_up marked n (p + 1))"

lemma walk_down_result:
  "\<not> marked 0 \<Longrightarrow> scan_result (\<lambda>p. marked p \<and> p \<le> n) True (walk_down marked n)"
proof (induction n)
  case 0
  then show ?case by (auto simp: scan_result_def)
next
  case (Suc n)
  show ?case
  proof (cases "marked (Suc n)")
    case False
    then have "(\<lambda>p. marked p \<and> p \<le> Suc n) = (\<lambda>p. marked p \<and> p \<le> n)"
      by (auto simp: le_Suc_eq)
    then show ?thesis using False Suc by simp
  qed (auto simp: scan_result_def)
qed

lemma walk_up_result:
  "(\<And>p. marked p \<Longrightarrow> p < m + n) \<Longrightarrow> scan_result (\<lambda>p. marked p \<and> m \<le> p) False (walk_up marked n m)"
proof (induction n arbitrary: m)
  case 0
  then show ?case by (fastforce simp: scan_result_def)
next
  case (Suc n)
  show ?case
  proof (cases "marked m")
    case False
    then have "(\<lambda>p. marked p \<and> m \<le> p) = (\<lambda>p. marked p \<and> m + 1 \<le> p)"
      by (metis Suc_eq_plus1 Suc_leD not_less_eq_eq antisym)
    then show ?thesis using False Suc.IH [of "m + 1"] Suc.prems by simp
  qed (auto simp: scan_result_def)
qed

text \<open>
  C16: The word-wise bit scan of \<^verbatim>\<open>recompute_best\<close> finds the level that a walk over the
  marked levels from the old best price finds (downwards over the bids, upwards to 4096
  over the asks), and changes nothing but the best price. Marked levels and the best price
  have to be valid prices, which the level operations ensure whatever the quantities are;
  nothing is asked of the quantities. Where the marked levels are exactly those with a
  quantity, this is also the walk over the quantities.
\<close>

theorem recompute_best_is_walk:
  assumes valid: "\<forall>p. occupied (sb_occupied s) p \<longrightarrow> 1 \<le> p \<and> p \<le> 4096"
    and best: "sb_best_price s \<le> 4096"
  shows "recompute_best s is_bid = s\<lparr>sb_best_price := of_nat
      (if is_bid then walk_down (occupied (sb_occupied s)) (unat (sb_best_price s))
       else walk_up (occupied (sb_occupied s)) (4097 - unat (sb_best_price s)) (unat (sb_best_price s)))\<rparr> \<and>
    ((\<forall>p. occupied (sb_occupied s) p = (sb_qty s p \<noteq> 0)) \<longrightarrow>
      recompute_best s is_bid = s\<lparr>sb_best_price := of_nat
        (if is_bid then walk_down (\<lambda>p. sb_qty s p \<noteq> 0) (unat (sb_best_price s))
         else walk_up (\<lambda>p. sb_qty s p \<noteq> 0) (4097 - unat (sb_best_price s)) (unat (sb_best_price s)))\<rparr>)"
proof -
  let ?b = "unat (sb_best_price s)" and ?o = "occupied (sb_occupied s)"
  let ?w = "if is_bid then walk_down ?o ?b else walk_up ?o (4097 - ?b) ?b"
  have b: "?b \<le> 4096" using best by (simp add: word_le_nat_alt)
  have "scan_result (\<lambda>p. ?o p \<and> (if is_bid then p \<le> ?b else ?b \<le> p)) is_bid
      (unat (sb_best_price (recompute_best s is_bid)))"
    using recompute_best_result [of s is_bid] valid b by simp
  moreover have "scan_result (\<lambda>p. ?o p \<and> (if is_bid then p \<le> ?b else ?b \<le> p)) is_bid ?w"
  proof (cases is_bid)
    case True
    have "\<not> ?o 0" using valid by (metis not_one_le_zero)
    then show ?thesis using walk_down_result True by simp
  next
    case False
    have "p < ?b + (4097 - ?b)" if "?o p" for p using valid that b by fastforce
    then show ?thesis using walk_up_result [of ?o ?b] False by simp
  qed
  ultimately have "unat (sb_best_price (recompute_best s is_bid)) = ?w" by (rule scan_result_unique)
  then have "of_nat (unat (sb_best_price (recompute_best s is_bid))) = (of_nat ?w :: u32)" by (rule arg_cong)
  then have w: "sb_best_price (recompute_best s is_bid) = of_nat ?w" by (simp only: of_nat_unat ucast_id)
  have "recompute_best s is_bid = s\<lparr>sb_best_price := sb_best_price (recompute_best s is_bid)\<rparr>"
    by (simp add: recompute_best_def Let_def)
  then have r: "recompute_best s is_bid = s\<lparr>sb_best_price := of_nat ?w\<rparr>" unfolding w .
  show ?thesis
  proof (intro conjI impI)
    show "recompute_best s is_bid = s\<lparr>sb_best_price := of_nat ?w\<rparr>" by (rule r)
    assume "\<forall>p. ?o p = (sb_qty s p \<noteq> 0)"
    then have "?o = (\<lambda>p. sb_qty s p \<noteq> 0)" by (intro ext) blast
    then show "recompute_best s is_bid = s\<lparr>sb_best_price := of_nat (if is_bid then walk_down (\<lambda>p. sb_qty s p \<noteq> 0) ?b
        else walk_up (\<lambda>p. sb_qty s p \<noteq> 0) (4097 - ?b) ?b)\<rparr>" using r by metis
  qed
qed

theorem recompute_best_is_walk_witness:
  "recompute_best (add_level init_SideBook 70 5 True\<lparr>sb_best_price := 200\<rparr>) True =
   add_level init_SideBook 70 5 True\<lparr>sb_best_price := 70\<rparr>"
proof -
  let ?s = "add_level init_SideBook 70 5 True\<lparr>sb_best_price := 200\<rparr>"
  have o: "occupied (sb_occupied (add_level init_SideBook 70 5 True)) = (\<lambda>p. p = 70)"
    by (rule ext, subst add_level_occupied [OF side_inv_init]) simp
  have w: "walk_down (\<lambda>p. p = 70) 200 = 70"
  proof (rule scan_result_unique)
    show "scan_result (\<lambda>p. p = 70 \<and> p \<le> 200) True (walk_down (\<lambda>p. p = 70) 200)" by (rule walk_down_result) simp
    show "scan_result (\<lambda>p. p = 70 \<and> p \<le> (200 :: nat)) True 70" by (auto simp: scan_result_def)
  qed
  show ?thesis using recompute_best_is_walk [of ?s True] w by (simp add: o)
qed

section \<open>Level operations in any order\<close>

datatype level_op = Add_level u32 u32 | Remove_level u32 u32

fun level_step :: "bool \<Rightarrow> SideBook \<Rightarrow> level_op \<Rightarrow> SideBook" where
  "level_step is_bid s (Add_level price q) = add_level s price q is_bid"
| "level_step is_bid s (Remove_level price q) = remove_level s price q is_bid"

fun valid_level_op :: "level_op \<Rightarrow> bool" where
  "valid_level_op (Add_level price q) = valid_price price"
| "valid_level_op (Remove_level price q) = True"

lemma level_run_inv:
  "list_all valid_level_op ops \<Longrightarrow> side_inv d s \<Longrightarrow> side_inv d (foldl (level_step d) s ops)"
proof (induction ops arbitrary: s)
  case (Cons x ops)
  then show ?case by (cases x) (simp_all add: add_level_inv remove_level_inv)
qed simp

definition marked_levels :: "SideBook \<Rightarrow> nat set" where
  "marked_levels s = {p \<in> {1..4096}. occupied (sb_occupied s) p}"

lemma side_inv_best:
  assumes "side_inv is_bid s"
  shows "unat (sb_best_price s) =
      (if marked_levels s = {} then 0 else if is_bid then Max (marked_levels s) else Min (marked_levels s))"
proof (rule scan_result_unique [OF side_invD(3) [OF assms]])
  have m: "p \<in> marked_levels s \<longleftrightarrow> occupied (sb_occupied s) p" for p
    using side_invD(1) [OF assms] by (auto simp: marked_levels_def)
  have fin: "finite (marked_levels s)" by (simp add: marked_levels_def)
  show "scan_result (occupied (sb_occupied s)) is_bid
      (if marked_levels s = {} then 0 else if is_bid then Max (marked_levels s) else Min (marked_levels s))"
    using m Max_in [OF fin] Min_in [OF fin] Max_ge [OF fin] Min_le [OF fin]
    unfolding scan_result_def by auto
qed

text \<open>
  Whatever levels are added at valid prices and removed, in any order and with any
  quantities (also ones that overflow a level), the best price of a side is the highest
  bid, or the lowest ask, among the levels the bitmap marks, and 0 exactly when no level is
  marked; marked levels are valid prices, and every level with a quantity is marked.
\<close>

theorem best_price_is_extremum:
  assumes "list_all valid_level_op ops" and "s = foldl (level_step is_bid) init_SideBook ops"
  shows "unat (sb_best_price s) =
      (if marked_levels s = {} then 0 else if is_bid then Max (marked_levels s) else Min (marked_levels s)) \<and>
    (\<forall>p. occupied (sb_occupied s) p \<longrightarrow> p \<in> {1..4096}) \<and>
    (\<forall>p. sb_qty s p \<noteq> 0 \<longrightarrow> p \<in> marked_levels s)"
proof -
  have inv: "side_inv is_bid s"
    unfolding assms(2) by (rule level_run_inv [OF assms(1) side_inv_init])
  then show ?thesis
    using side_inv_best [OF inv] side_invD(1,2) [OF inv] unfolding marked_levels_def by auto
qed

theorem best_price_is_extremum_witness:
  "unat (sb_best_price (foldl (level_step True) init_SideBook
     [Add_level 100 5, Add_level 170 1, Remove_level 170 1])) = 100"
proof -
  let ?s = "foldl (level_step True) init_SideBook [Add_level 100 5, Add_level 170 1, Remove_level 170 1]"
  have v: "list_all valid_level_op [Add_level 100 5, Add_level 170 1, Remove_level 170 1]"
    by (simp add: valid_price_def kPriceLevels_def)
  have "marked_levels ?s = {100}"
    by (auto simp: marked_levels_def remove_level_occupied add_level_occupied add_level_inv side_inv_init
        valid_price_def kPriceLevels_def split: if_splits)
  then show ?thesis using best_price_is_extremum [OF v refl, of True] by simp
qed

end
