(* ===== verification/Book_Builder.thy ===== *)
theory Book_Builder
  imports Side_Book Parser
begin

text \<open>
  The book builder (\<^verbatim>\<open>include/mdp/book.hpp\<close>, \<^verbatim>\<open>src/book.cpp\<close>): 32 symbol books with a bid
  and an ask side, and the pool of resting orders. The members \<^verbatim>\<open>orders_\<close> and
  \<^verbatim>\<open>live_count_\<close> are the component \<open>bb_pool\<close>. A handler returns the new builder and the
  tick it emits, if any.
\<close>

section \<open>State\<close>

record SymbolBook =
  sy_bid :: SideBook
  sy_ask :: SideBook
  sy_last_price :: u32
  sy_last_qty :: u32

record TopOfBook =
  tb_symbol_id :: u32
  tb_bid_price :: u32
  tb_bid_qty :: u32
  tb_ask_price :: u32
  tb_ask_qty :: u32
  tb_seq :: u64
  tb_ts_ns :: u64
  tb_valid :: bool

record NormalizedTick =
  nt_symbol_id :: u32
  nt_bid_price :: u32
  nt_bid_qty :: u32
  nt_ask_price :: u32
  nt_ask_qty :: u32
  nt_last_price :: u32
  nt_last_qty :: u32
  nt_seq :: u64
  nt_ts_ns :: u64
  nt_cause :: MsgType

record BookBuilder =
  bb_books :: "SymbolBook array"
  bb_pool :: OrderPool

definition init_SymbolBook :: SymbolBook where
  "init_SymbolBook = \<lparr>sy_bid = init_SideBook, sy_ask = init_SideBook, sy_last_price = 0, sy_last_qty = 0\<rparr>"

definition init_TopOfBook :: TopOfBook where
  "init_TopOfBook = \<lparr>tb_symbol_id = 0, tb_bid_price = 0, tb_bid_qty = 0, tb_ask_price = 0,
     tb_ask_qty = 0, tb_seq = 0, tb_ts_ns = 0, tb_valid = False\<rparr>"

definition init_NormalizedTick :: NormalizedTick where
  "init_NormalizedTick = \<lparr>nt_symbol_id = 0, nt_bid_price = 0, nt_bid_qty = 0, nt_ask_price = 0,
     nt_ask_qty = 0, nt_last_price = 0, nt_last_qty = 0, nt_seq = 0, nt_ts_ns = 0,
     nt_cause = MT_Heartbeat\<rparr>"

definition init_BookBuilder :: BookBuilder where
  "init_BookBuilder = \<lparr>bb_books = (\<lambda>_. init_SymbolBook), bb_pool = init_OrderPool\<rparr>"

section \<open>Reading the book\<close>

fun side_of :: "Side \<Rightarrow> SymbolBook \<Rightarrow> SideBook" where
  "side_of Buy book = sy_bid book"
| "side_of Sell book = sy_ask book"

definition best_qty :: "SideBook \<Rightarrow> u32" where
  "best_qty side = (if sb_best_price side \<noteq> 0 then sb_qty side (unat (sb_best_price side)) else 0)"

definition make_tick :: "BookBuilder \<Rightarrow> u32 \<Rightarrow> u64 \<Rightarrow> u64 \<Rightarrow> MsgType \<Rightarrow> NormalizedTick" where
  "make_tick b symbol_id seq ts_ns cause =
     (let t = init_NormalizedTick\<lparr>nt_symbol_id := symbol_id\<rparr>;
          t = (if symbol_id < kMaxSymbols then
                 let book = bb_books b (unat symbol_id) in
                 t\<lparr>nt_bid_price := sb_best_price (sy_bid book), nt_bid_qty := best_qty (sy_bid book),
                   nt_ask_price := sb_best_price (sy_ask book), nt_ask_qty := best_qty (sy_ask book),
                   nt_last_price := sy_last_price book, nt_last_qty := sy_last_qty book\<rparr>
               else t)
      in t\<lparr>nt_seq := seq, nt_ts_ns := ts_ns, nt_cause := cause\<rparr>)"

definition top :: "BookBuilder \<Rightarrow> u32 \<Rightarrow> TopOfBook" where
  "top b symbol_id =
     (let t = init_TopOfBook\<lparr>tb_symbol_id := symbol_id\<rparr> in
      if symbol_id \<ge> kMaxSymbols then t
      else
        let book = bb_books b (unat symbol_id);
            t = t\<lparr>tb_bid_price := sb_best_price (sy_bid book), tb_bid_qty := best_qty (sy_bid book),
                  tb_ask_price := sb_best_price (sy_ask book), tb_ask_qty := best_qty (sy_ask book)\<rparr>
        in t\<lparr>tb_valid := (tb_bid_price t > 0 \<or> tb_ask_price t > 0)\<rparr>)"

definition bid_qty_at :: "BookBuilder \<Rightarrow> u32 \<Rightarrow> u32 \<Rightarrow> u32" where
  "bid_qty_at b symbol_id price =
     (if symbol_id \<ge> kMaxSymbols \<or> \<not> valid_price price then 0
      else sb_qty (sy_bid (bb_books b (unat symbol_id))) (unat price))"

definition ask_qty_at :: "BookBuilder \<Rightarrow> u32 \<Rightarrow> u32 \<Rightarrow> u32" where
  "ask_qty_at b symbol_id price =
     (if symbol_id \<ge> kMaxSymbols \<or> \<not> valid_price price then 0
      else sb_qty (sy_ask (bb_books b (unat symbol_id))) (unat price))"

text \<open>The comparison of the two tops in the add, modify and delete handlers.\<close>

definition same_bbo :: "TopOfBook \<Rightarrow> TopOfBook \<Rightarrow> bool" where
  "same_bbo before after \<longleftrightarrow>
     tb_bid_price before = tb_bid_price after \<and> tb_bid_qty before = tb_bid_qty after \<and>
     tb_ask_price before = tb_ask_price after \<and> tb_ask_qty before = tb_ask_qty after"

section \<open>Handlers\<close>

text \<open>An update through the reference \<^verbatim>\<open>side\<close> to one side of one symbol's book.\<close>

fun upd_side :: "Side \<Rightarrow> (SideBook \<Rightarrow> SideBook) \<Rightarrow> SymbolBook \<Rightarrow> SymbolBook" where
  "upd_side Buy f book = book\<lparr>sy_bid := f (sy_bid book)\<rparr>"
| "upd_side Sell f book = book\<lparr>sy_ask := f (sy_ask book)\<rparr>"

definition edit_side :: "SymbolBook array \<Rightarrow> u32 \<Rightarrow> Side \<Rightarrow> (SideBook \<Rightarrow> SideBook) \<Rightarrow> SymbolBook array" where
  "edit_side books symbol_id side f =
     books(unat symbol_id := upd_side side f (books (unat symbol_id)))"

text \<open>Taking a record's quantity off its level, and putting one on.\<close>

definition take_off :: "SymbolBook array \<Rightarrow> OrderRecord \<Rightarrow> SymbolBook array" where
  "take_off books rec = edit_side books (or_symbol_id rec) (or_side rec)
     (\<lambda>s. remove_level s (or_price rec) (or_qty rec) (or_side rec = Buy))"

definition put_on :: "SymbolBook array \<Rightarrow> u32 \<Rightarrow> Side \<Rightarrow> u32 \<Rightarrow> u32 \<Rightarrow> SymbolBook array" where
  "put_on books symbol_id side price qty = edit_side books symbol_id side
     (\<lambda>s. add_level s price qty (side = Buy))"

definition on_add :: "BookBuilder \<Rightarrow> AddOrder \<Rightarrow> BookBuilder \<times> NormalizedTick option" where
  "on_add b m =
     (if ao_symbol_id m \<ge> kMaxSymbols \<or> \<not> valid_price (ao_price m) \<or> ao_qty m = 0 then (b, None)
      else case insert_order (bb_pool b) (ao_order_id m) of
        (pool, None) \<Rightarrow> (b\<lparr>bb_pool := pool\<rparr>, None)
      | (pool, Some i) \<Rightarrow>
          (let rec = op_orders pool i;
               b = b\<lparr>bb_pool := pool\<rparr>;
               b = (if or_state rec = 1 \<and> or_qty rec > 0 \<and> or_order_id rec = ao_order_id m
                    then b\<lparr>bb_books := take_off (bb_books b) rec\<rparr> else b);
               rec = (assign_order rec (ao_symbol_id m) (ao_side m) (ao_price m) (ao_qty m))\<lparr>or_state := 1\<rparr>;
               b = b\<lparr>bb_pool := write_record (bb_pool b) i rec\<rparr>;
               before = top b (ao_symbol_id m);
               b = b\<lparr>bb_books := put_on (bb_books b) (ao_symbol_id m) (ao_side m) (ao_price m) (ao_qty m)\<rparr>;
               after = top b (ao_symbol_id m)
           in (b, if same_bbo before after then None
                  else Some (make_tick b (ao_symbol_id m) (hdr_seq (ao_hdr m)) (hdr_ts_ns (ao_hdr m))
                    MT_AddOrder))))"

definition on_modify :: "BookBuilder \<Rightarrow> ModifyOrder \<Rightarrow> BookBuilder \<times> NormalizedTick option" where
  "on_modify b m =
     (case find_order (bb_pool b) (mo_order_id m) of
        None \<Rightarrow> (b, None)
      | Some i \<Rightarrow>
          if mo_symbol_id m \<ge> kMaxSymbols \<or> \<not> valid_price (mo_price m) \<or> mo_qty m = 0 then (b, None)
          else
            let rec = op_orders (bb_pool b) i;
                before = top b (or_symbol_id rec);
                b = b\<lparr>bb_books := take_off (bb_books b) rec\<rparr>;
                rec = assign_order rec (mo_symbol_id m) (mo_side m) (mo_price m) (mo_qty m);
                b = b\<lparr>bb_pool := write_record (bb_pool b) i rec\<rparr>;
                b = b\<lparr>bb_books := put_on (bb_books b) (mo_symbol_id m) (mo_side m) (mo_price m) (mo_qty m)\<rparr>;
                after = top b (mo_symbol_id m)
            in (b, if same_bbo before after then None
                   else Some (make_tick b (mo_symbol_id m) (hdr_seq (mo_hdr m)) (hdr_ts_ns (mo_hdr m))
                     MT_ModifyOrder)))"

definition on_delete :: "BookBuilder \<Rightarrow> DeleteOrder \<Rightarrow> BookBuilder \<times> NormalizedTick option" where
  "on_delete b m =
     (case find_order (bb_pool b) (do_order_id m) of
        None \<Rightarrow> (b, None)
      | Some i \<Rightarrow>
          let rec = op_orders (bb_pool b) i;
              before = top b (or_symbol_id rec);
              b = b\<lparr>bb_books := take_off (bb_books b) rec\<rparr>;
              symbol_id = or_symbol_id rec;
              b = b\<lparr>bb_pool := erase_order (bb_pool b) (do_order_id m)\<rparr>;
              after = top b symbol_id
          in (b, if same_bbo before after then None
                 else Some (make_tick b symbol_id (hdr_seq (do_hdr m)) (hdr_ts_ns (do_hdr m))
                   MT_DeleteOrder)))"

definition on_trade :: "BookBuilder \<Rightarrow> Trade \<Rightarrow> BookBuilder \<times> NormalizedTick option" where
  "on_trade b m =
     (if tr_symbol_id m \<ge> kMaxSymbols \<or> \<not> valid_price (tr_price m) \<or> tr_qty m = 0 then (b, None)
      else
        let i = unat (tr_symbol_id m);
            b = b\<lparr>bb_books := (bb_books b)(i :=
                  (bb_books b i)\<lparr>sy_last_price := tr_price m, sy_last_qty := tr_qty m\<rparr>)\<rparr>
        in (b, Some (make_tick b (tr_symbol_id m) (hdr_seq (tr_hdr m)) (hdr_ts_ns (tr_hdr m)) MT_Trade)))"

text \<open>The dispatch of a parsed payload to the four handlers.\<close>

fun book_step :: "BookBuilder \<Rightarrow> ParsedPayload \<Rightarrow> BookBuilder \<times> NormalizedTick option" where
  "book_step b (P_AddOrder m) = on_add b m"
| "book_step b (P_ModifyOrder m) = on_modify b m"
| "book_step b (P_DeleteOrder m) = on_delete b m"
| "book_step b (P_Trade m) = on_trade b m"
| "book_step b Monostate = (b, None)"
| "book_step b (P_Heartbeat m) = (b, None)"
| "book_step b (P_GapRequest m) = (b, None)"
| "book_step b (P_GapResponse m) = (b, None)"

definition book_run :: "BookBuilder \<Rightarrow> ParsedPayload list \<Rightarrow> BookBuilder" where
  "book_run b ps = foldl (\<lambda>b p. fst (book_step b p)) b ps"

section \<open>Invariants\<close>

text \<open>
  Every side keeps its bitmap invariant, and every resting order lies inside the arrays:
  its symbol is below 32, its price valid and its quantity positive.
\<close>

definition books_inv :: "SymbolBook array \<Rightarrow> bool" where
  "books_inv books \<longleftrightarrow> (\<forall>i d. side_inv (d = Buy) (side_of d (books i)))"

definition order_ok :: "OrderRecord \<Rightarrow> bool" where
  "order_ok r \<longleftrightarrow> or_symbol_id r < kMaxSymbols \<and> valid_price (or_price r) \<and> or_qty r \<noteq> 0"

definition book_inv :: "BookBuilder \<Rightarrow> bool" where
  "book_inv b \<longleftrightarrow> pool_inv (bb_pool b) \<and> books_inv (bb_books b) \<and>
     (\<forall>k r. pool_lookup (bb_pool b) k = Some r \<longrightarrow> order_ok r)"

lemma book_invD:
  assumes "book_inv b"
  shows "pool_inv (bb_pool b)" "books_inv (bb_books b)"
    "\<And>k r. pool_lookup (bb_pool b) k = Some r \<Longrightarrow> order_ok r"
  using assms unfolding book_inv_def by blast+

lemma side_of_upd_side: "side_of d (upd_side d' f book) = (if d = d' then f (side_of d book) else side_of d book)"
  by (cases d; cases d') simp_all

lemma side_of_edit: "side_of d (edit_side books s d' f i) =
    (if i = unat s \<and> d = d' then f (side_of d (books i)) else side_of d (books i))"
  by (simp add: edit_side_def side_of_upd_side)

lemma books_inv_init: "books_inv (\<lambda>_. init_SymbolBook)"
  unfolding books_inv_def
proof (intro allI)
  fix i :: nat and d show "side_inv (d = Buy) (side_of d init_SymbolBook)"
    by (cases d) (simp_all add: init_SymbolBook_def side_inv_init)
qed

lemma take_off_inv [book_inv_intros]: "books_inv books \<Longrightarrow> books_inv (take_off books r)"
  by (simp add: books_inv_def take_off_def side_of_edit remove_level_inv)

lemma put_on_inv [book_inv_intros]:
  "books_inv books \<Longrightarrow> valid_price p \<Longrightarrow> books_inv (put_on books s d p q)"
  by (simp add: books_inv_def put_on_def side_of_edit add_level_inv)

lemma book_inv_init: "book_inv init_BookBuilder"
  by (simp add: book_inv_def init_BookBuilder_def pool_inv_init pool_lookup_init books_inv_init)

section \<open>Handlers against the pool's contract\<close>

text \<open>
  What each handler does when its guards let it through, in terms of the map of resting
  orders: the books after it and the tick.
\<close>

abbreviation orders_of :: "BookBuilder \<Rightarrow> u64 \<rightharpoonup> OrderRecord" where
  "orders_of b \<equiv> pool_lookup (bb_pool b)"

definition add_ok :: "AddOrder \<Rightarrow> bool" where
  "add_ok m \<longleftrightarrow> ao_symbol_id m < kMaxSymbols \<and> valid_price (ao_price m) \<and> ao_qty m \<noteq> 0"

definition modify_ok :: "ModifyOrder \<Rightarrow> bool" where
  "modify_ok m \<longleftrightarrow> mo_symbol_id m < kMaxSymbols \<and> valid_price (mo_price m) \<and> mo_qty m \<noteq> 0"

definition record_of_add :: "AddOrder \<Rightarrow> OrderRecord" where
  "record_of_add m = live_record (ao_order_id m) (ao_symbol_id m) (ao_side m) (ao_price m) (ao_qty m)"

definition record_of_modify :: "ModifyOrder \<Rightarrow> OrderRecord" where
  "record_of_modify m = live_record (mo_order_id m) (mo_symbol_id m) (mo_side m) (mo_price m) (mo_qty m)"

lemma record_ok:
  "add_ok a \<Longrightarrow> order_ok (record_of_add a)" "modify_ok m \<Longrightarrow> order_ok (record_of_modify m)"
  by (simp_all add: add_ok_def modify_ok_def order_ok_def record_of_add_def record_of_modify_def)

definition place :: "SymbolBook array \<Rightarrow> OrderRecord \<Rightarrow> SymbolBook array" where
  "place books r = put_on books (or_symbol_id r) (or_side r) (or_price r) (or_qty r)"

definition unplace :: "SymbolBook array \<Rightarrow> OrderRecord option \<Rightarrow> SymbolBook array" where
  "unplace books x = (case x of None \<Rightarrow> books | Some r \<Rightarrow> take_off books r)"

definition tick_if :: "TopOfBook \<Rightarrow> TopOfBook \<Rightarrow> NormalizedTick \<Rightarrow> NormalizedTick option" where
  "tick_if t t' n = (if same_bbo t t' then None else Some n)"

lemma top_cong: "bb_books b = bb_books b' \<Longrightarrow> top b s = top b' s"
  by (simp add: top_def Let_def)

lemma on_add_reject: "\<not> add_ok m \<Longrightarrow> on_add b m = (b, None)"
  by (auto simp: on_add_def add_ok_def not_less)

lemma on_add_full:
  "book_inv b \<Longrightarrow> kOrderPool \<le> card (dom (orders_of b)) \<Longrightarrow> on_add b m = (b, None)"
  using pool.ins_full [OF book_invD(1), of b "ao_order_id m" "bb_pool b"] by (simp add: on_add_def)

lemma on_add_accept:
  assumes inv: "book_inv b" and ok: "add_ok m" and room: "card (dom (orders_of b)) < kOrderPool"
  defines "old \<equiv> unplace (bb_books b) (orders_of b (ao_order_id m))"
  defines "new \<equiv> place old (record_of_add m)"
  shows "bb_books (fst (on_add b m)) = new"
    "pool_inv (bb_pool (fst (on_add b m)))"
    "orders_of (fst (on_add b m)) = (orders_of b)(ao_order_id m \<mapsto> record_of_add m)"
    "snd (on_add b m) = tick_if (top (b\<lparr>bb_books := old\<rparr>) (ao_symbol_id m))
       (top (b\<lparr>bb_books := new\<rparr>) (ao_symbol_id m))
       (make_tick (b\<lparr>bb_books := new\<rparr>) (ao_symbol_id m) (hdr_seq (ao_hdr m)) (hdr_ts_ns (ao_hdr m)) MT_AddOrder)"
proof -
  let ?k = "ao_order_id m"
  note p = book_invD(1) [OF inv]
  obtain q i where ins: "insert_order (bb_pool b) ?k = (q, Some i)" using pool.ins_room [OF p room] by blast
  define rec where "rec = op_orders q i"
  have rec: "rec = (case orders_of b ?k of None \<Rightarrow> blank_order ?k | Some r \<Rightarrow> r)"
    using pool.fetch_inserted [OF p ins] by (simp add: rec_def)
  have key: "or_order_id rec = ?k" "or_state rec = 1"
    using pool.found_key [of q ?k i] pool.ins_law [OF p ins] by (auto simp: rec_def)
  have off: "(if or_state rec = 1 \<and> or_qty rec > 0 \<and> or_order_id rec = ?k
      then take_off (bb_books b) rec else bb_books b) = old"
  proof (cases "orders_of b ?k")
    case None
    then have "or_qty rec = 0" using rec by (simp add: blank_order_def init_OrderRecord_def)
    then show ?thesis using None by (simp add: old_def unplace_def)
  next
    case (Some r)
    then have "or_qty rec > 0" "rec = r"
      using rec book_invD(3) [OF inv Some] by (auto simp: order_ok_def word_gt_0)
    then show ?thesis using Some key by (simp add: old_def unplace_def)
  qed
  have asg: "(assign_order rec (ao_symbol_id m) (ao_side m) (ao_price m) (ao_qty m))\<lparr>or_state := 1\<rparr> =
      record_of_add m"
    using key by (simp add: assign_order_live_state record_of_add_def)
  have guard: "\<not> (ao_symbol_id m \<ge> kMaxSymbols \<or> \<not> valid_price (ao_price m) \<or> ao_qty m = 0)"
    using ok by (auto simp: add_ok_def not_le)
  define b' where "b' = \<lparr>bb_books = new, bb_pool = write_record q i (record_of_add m)\<rparr>"
  have new: "put_on old (ao_symbol_id m) (ao_side m) (ao_price m) (ao_qty m) = new"
    by (simp add: new_def place_def record_of_add_def)
  have e: "on_add b m = (b', if same_bbo (top (b'\<lparr>bb_books := old\<rparr>) (ao_symbol_id m)) (top b' (ao_symbol_id m))
      then None else Some (make_tick b' (ao_symbol_id m) (hdr_seq (ao_hdr m)) (hdr_ts_ns (ao_hdr m)) MT_AddOrder))"
  proof (cases b)
    case (fields B P)
    then show ?thesis
      using guard off ins unfolding rec_def
      by (cases "live (op_orders q) i \<and> or_qty (op_orders q i) > 0 \<and> or_order_id (op_orders q i) = ?k")
        (auto simp: on_add_def b'_def Let_def asg [unfolded rec_def] new)
  qed
  have t: "top b' s = top (b\<lparr>bb_books := new\<rparr>) s" "top (b'\<lparr>bb_books := old\<rparr>) s = top (b\<lparr>bb_books := old\<rparr>) s"
    "make_tick b' s x y c = make_tick (b\<lparr>bb_books := new\<rparr>) s x y c" for s x y c
    by (simp_all add: b'_def top_def make_tick_def Let_def)
  show "bb_books (fst (on_add b m)) = new" by (simp add: e b'_def)
  show "snd (on_add b m) = tick_if (top (b\<lparr>bb_books := old\<rparr>) (ao_symbol_id m))
       (top (b\<lparr>bb_books := new\<rparr>) (ao_symbol_id m))
       (make_tick (b\<lparr>bb_books := new\<rparr>) (ao_symbol_id m) (hdr_seq (ao_hdr m)) (hdr_ts_ns (ao_hdr m)) MT_AddOrder)"
    unfolding e snd_conv t tick_if_def ..
  have "or_order_id (record_of_add m) = ?k" "or_state (record_of_add m) = 1"
    by (simp_all add: record_of_add_def)
  from pool.upsert [OF p ins this]
  show "pool_inv (bb_pool (fst (on_add b m)))"
    "orders_of (fst (on_add b m)) = (orders_of b)(?k \<mapsto> record_of_add m)"
    by (simp_all add: e b'_def)
qed

lemma on_modify_reject: "\<not> modify_ok m \<or> orders_of b (mo_order_id m) = None \<Longrightarrow> on_modify b m = (b, None)"
  by (auto simp: on_modify_def modify_ok_def not_less pool.lookup_find split: option.splits)

lemma on_modify_accept:
  assumes inv: "book_inv b" and ok: "modify_ok m" and r: "orders_of b (mo_order_id m) = Some r"
  defines "new \<equiv> place (take_off (bb_books b) r) (record_of_modify m)"
  shows "bb_books (fst (on_modify b m)) = new"
    "pool_inv (bb_pool (fst (on_modify b m)))"
    "orders_of (fst (on_modify b m)) = (orders_of b)(mo_order_id m \<mapsto> record_of_modify m)"
    "snd (on_modify b m) = tick_if (top b (or_symbol_id r)) (top (b\<lparr>bb_books := new\<rparr>) (mo_symbol_id m))
       (make_tick (b\<lparr>bb_books := new\<rparr>) (mo_symbol_id m) (hdr_seq (mo_hdr m)) (hdr_ts_ns (mo_hdr m)) MT_ModifyOrder)"
proof -
  let ?k = "mo_order_id m"
  note p = book_invD(1) [OF inv]
  obtain i where i: "find_order (bb_pool b) ?k = Some i" "op_orders (bb_pool b) i = r"
    using r by (auto simp: pool.lookup_find)
  have key: "or_order_id r = ?k" "or_state r = 1" using pool.lookup_key [OF p r] by auto
  have asg: "assign_order r (mo_symbol_id m) (mo_side m) (mo_price m) (mo_qty m) = record_of_modify m"
    using key by (simp add: assign_order_live record_of_modify_def)
  have guard: "\<not> (mo_symbol_id m \<ge> kMaxSymbols \<or> \<not> valid_price (mo_price m) \<or> mo_qty m = 0)"
    using ok by (auto simp: modify_ok_def not_le)
  define b' where "b' = b\<lparr>bb_pool := write_record (bb_pool b) i (record_of_modify m), bb_books := new\<rparr>"
  have new: "put_on (take_off (bb_books b) r) (mo_symbol_id m) (mo_side m) (mo_price m) (mo_qty m) = new"
    by (simp add: new_def place_def record_of_modify_def)
  have e: "on_modify b m = (b', if same_bbo (top b (or_symbol_id r)) (top b' (mo_symbol_id m))
      then None else Some (make_tick b' (mo_symbol_id m) (hdr_seq (mo_hdr m)) (hdr_ts_ns (mo_hdr m)) MT_ModifyOrder))"
    using guard i by (simp add: on_modify_def b'_def Let_def asg new [symmetric])
  have t: "top b' s = top (b\<lparr>bb_books := new\<rparr>) s"
    "make_tick b' s x y c = make_tick (b\<lparr>bb_books := new\<rparr>) s x y c" for s x y c
    by (simp_all add: b'_def top_def make_tick_def Let_def)
  show "bb_books (fst (on_modify b m)) = new" by (simp add: e b'_def)
  show "snd (on_modify b m) = tick_if (top b (or_symbol_id r)) (top (b\<lparr>bb_books := new\<rparr>) (mo_symbol_id m))
       (make_tick (b\<lparr>bb_books := new\<rparr>) (mo_symbol_id m) (hdr_seq (mo_hdr m)) (hdr_ts_ns (mo_hdr m)) MT_ModifyOrder)"
    unfolding e snd_conv t tick_if_def ..
  have "or_order_id (record_of_modify m) = ?k" "or_state (record_of_modify m) = 1"
    by (simp_all add: record_of_modify_def)
  from pool.put_law [OF p i(1) this]
  show "pool_inv (bb_pool (fst (on_modify b m)))"
    "orders_of (fst (on_modify b m)) = (orders_of b)(?k \<mapsto> record_of_modify m)"
    by (simp_all add: e b'_def)
qed

lemma on_delete_reject: "orders_of b (do_order_id m) = None \<Longrightarrow> on_delete b m = (b, None)"
  by (auto simp: on_delete_def pool.lookup_find)

lemma on_delete_accept:
  assumes inv: "book_inv b" and r: "orders_of b (do_order_id m) = Some r"
  defines "new \<equiv> take_off (bb_books b) r"
  shows "bb_books (fst (on_delete b m)) = new"
    "pool_inv (bb_pool (fst (on_delete b m)))"
    "orders_of (fst (on_delete b m)) = (orders_of b)(do_order_id m := None)"
    "snd (on_delete b m) = tick_if (top b (or_symbol_id r)) (top (b\<lparr>bb_books := new\<rparr>) (or_symbol_id r))
       (make_tick (b\<lparr>bb_books := new\<rparr>) (or_symbol_id r) (hdr_seq (do_hdr m)) (hdr_ts_ns (do_hdr m)) MT_DeleteOrder)"
proof -
  let ?k = "do_order_id m"
  obtain i where i: "find_order (bb_pool b) ?k = Some i" "op_orders (bb_pool b) i = r"
    using r by (auto simp: pool.lookup_find)
  define b' where "b' = b\<lparr>bb_books := new, bb_pool := erase_order (bb_pool b) ?k\<rparr>"
  have e: "on_delete b m = (b', if same_bbo (top b (or_symbol_id r)) (top b' (or_symbol_id r))
      then None else Some (make_tick b' (or_symbol_id r) (hdr_seq (do_hdr m)) (hdr_ts_ns (do_hdr m)) MT_DeleteOrder))"
    using i by (simp add: on_delete_def b'_def Let_def new_def)
  have t: "top b' s = top (b\<lparr>bb_books := new\<rparr>) s"
    "make_tick b' s x y c = make_tick (b\<lparr>bb_books := new\<rparr>) s x y c" for s x y c
    by (simp_all add: b'_def top_def make_tick_def Let_def)
  show "bb_books (fst (on_delete b m)) = new" by (simp add: e b'_def)
  show "snd (on_delete b m) = tick_if (top b (or_symbol_id r)) (top (b\<lparr>bb_books := new\<rparr>) (or_symbol_id r))
       (make_tick (b\<lparr>bb_books := new\<rparr>) (or_symbol_id r) (hdr_seq (do_hdr m)) (hdr_ts_ns (do_hdr m)) MT_DeleteOrder)"
    unfolding e snd_conv t tick_if_def ..
  from pool.del_law [OF book_invD(1) [OF inv]]
  show "pool_inv (bb_pool (fst (on_delete b m)))"
    "orders_of (fst (on_delete b m)) = (orders_of b)(?k := None)"
    by (simp_all add: e b'_def)
qed

lemma on_trade_books:
  "bb_pool (fst (on_trade b m)) = bb_pool b"
  "side_of d (bb_books (fst (on_trade b m)) i) = side_of d (bb_books b i)"
  by (simp add: on_trade_def Let_def) (cases d; simp add: on_trade_def Let_def)

section \<open>The map of resting orders\<close>

text \<open>
  The specification of the builder: a map from order ids to records, of at most 65536
  orders, changed by accepted adds, modifies and deletes.
\<close>

fun order_step :: "(u64 \<rightharpoonup> OrderRecord) \<Rightarrow> ParsedPayload \<Rightarrow> (u64 \<rightharpoonup> OrderRecord)" where
  "order_step os (P_AddOrder m) =
     (if add_ok m \<and> card (dom os) < kOrderPool then os(ao_order_id m \<mapsto> record_of_add m) else os)"
| "order_step os (P_ModifyOrder m) =
     (if modify_ok m \<and> mo_order_id m \<in> dom os then os(mo_order_id m \<mapsto> record_of_modify m) else os)"
| "order_step os (P_DeleteOrder m) = os(do_order_id m := None)"
| "order_step os (P_Trade m) = os"
| "order_step os Monostate = os"
| "order_step os (P_Heartbeat m) = os"
| "order_step os (P_GapRequest m) = os"
| "order_step os (P_GapResponse m) = os"

definition order_run :: "ParsedPayload list \<Rightarrow> u64 \<rightharpoonup> OrderRecord" where
  "order_run ps = foldl order_step Map.empty ps"

text \<open>
  The three kinds of steps: nothing in the books or the pool changes, or one order is
  placed in exchange for what the id had, or one is taken off.
\<close>

lemma book_step_cases:
  assumes inv: "book_inv b"
  obtains (same) "orders_of (fst (book_step b p)) = orders_of b" "order_step (orders_of b) p = orders_of b"
      "pool_inv (bb_pool (fst (book_step b p)))"
      "\<And>d i. side_of d (bb_books (fst (book_step b p)) i) = side_of d (bb_books b i)"
    | (place) k r where "orders_of (fst (book_step b p)) = (orders_of b)(k \<mapsto> r)"
      "order_step (orders_of b) p = (orders_of b)(k \<mapsto> r)"
      "pool_inv (bb_pool (fst (book_step b p)))" "order_ok r"
      "bb_books (fst (book_step b p)) = place (unplace (bb_books b) (orders_of b k)) r"
    | (remove) k r where "orders_of (fst (book_step b p)) = (orders_of b)(k := None)"
      "order_step (orders_of b) p = (orders_of b)(k := None)"
      "pool_inv (bb_pool (fst (book_step b p)))" "orders_of b k = Some r"
      "bb_books (fst (book_step b p)) = take_off (bb_books b) r"
proof (cases p)
  case (P_AddOrder m)
  show ?thesis
  proof (cases "add_ok m \<and> card (dom (orders_of b)) < kOrderPool")
    case True
    then show ?thesis
      using on_add_accept [OF inv, of m] record_ok(1) P_AddOrder
      by (intro place [of "ao_order_id m" "record_of_add m"]) simp_all
  next
    case False
    then have "on_add b m = (b, None)" using on_add_reject on_add_full [OF inv] by (meson not_le)
    then show ?thesis using False P_AddOrder book_invD(1) [OF inv] by (intro same) auto
  qed
next
  case (P_ModifyOrder m)
  show ?thesis
  proof (cases "modify_ok m \<and> mo_order_id m \<in> dom (orders_of b)")
    case True
    then obtain r where r: "orders_of b (mo_order_id m) = Some r" by auto
    show ?thesis
      using True r on_modify_accept [OF inv _ r] record_ok(2) P_ModifyOrder
      by (intro place [of "mo_order_id m" "record_of_modify m"]) (simp_all add: unplace_def)
  next
    case False
    then have "on_modify b m = (b, None)" by (intro on_modify_reject) auto
    then show ?thesis using False P_ModifyOrder book_invD(1) [OF inv] by (intro same) auto
  qed
next
  case (P_DeleteOrder m)
  show ?thesis
  proof (cases "orders_of b (do_order_id m)")
    case (Some r)
    then show ?thesis using on_delete_accept [OF inv Some] P_DeleteOrder
      by (intro remove [of "do_order_id m" r]) simp_all
  next
    case None
    then have "(orders_of b)(do_order_id m := None) = orders_of b" by auto
    then show ?thesis using on_delete_reject [OF None] P_DeleteOrder book_invD(1) [OF inv]
      by (intro same) simp_all
  qed
next
  case (P_Trade m)
  then show ?thesis using book_invD(1) [OF inv] by (intro same) (simp_all add: on_trade_books)
qed (use book_invD(1) [OF inv] in \<open>intro same; simp\<close>)+

lemma unplace_inv: "books_inv books \<Longrightarrow> books_inv (unplace books x)"
  by (simp add: unplace_def take_off_inv split: option.splits)

lemma place_inv: "books_inv books \<Longrightarrow> order_ok r \<Longrightarrow> books_inv (place books r)"
  by (simp add: place_def put_on_inv order_ok_def)

lemma book_step_inv: "book_inv b \<Longrightarrow> book_inv (fst (book_step b p))"
proof -
  assume inv: "book_inv b"
  note i = book_invD [OF inv]
  from inv show ?thesis
  proof (cases rule: book_step_cases [of b p])
    case same
    then show ?thesis using i by (simp add: book_inv_def books_inv_def)
  next
    case (place k r)
    then show ?thesis using i by (auto simp: book_inv_def unplace_inv place_inv)
  next
    case (remove k r)
    then show ?thesis using i by (auto simp: book_inv_def take_off_inv)
  qed
qed

lemma book_step_orders: "book_inv b \<Longrightarrow> orders_of (fst (book_step b p)) = order_step (orders_of b) p"
  by (cases rule: book_step_cases [of b p]) auto

lemma book_run_snoc: "book_run b (ps @ [p]) = fst (book_step (book_run b ps) p)"
  by (simp add: book_run_def)

lemma order_run_snoc: "order_run (ps @ [p]) = order_step (order_run ps) p"
  by (simp add: order_run_def)

lemma book_run_inv: "book_inv (book_run init_BookBuilder ps) \<and>
    orders_of (book_run init_BookBuilder ps) = order_run ps"
proof (induction ps rule: rev_induct)
  case Nil
  show ?case using book_inv_init by (simp add: book_run_def order_run_def init_BookBuilder_def pool_lookup_init)
next
  case (snoc p ps)
  then show ?case using book_step_inv book_step_orders by (simp add: book_run_snoc order_run_snoc)
qed

section \<open>Level quantities\<close>

text \<open>
  The quantity that the resting orders \<open>os\<close> put on one level: the sum over all ids. Symbols
  and prices are taken as naturals, so the sum does not wrap.
\<close>

definition share :: "OrderRecord option \<Rightarrow> nat \<Rightarrow> Side \<Rightarrow> nat \<Rightarrow> nat" where
  "share x s d p = (case x of None \<Rightarrow> 0 | Some r \<Rightarrow>
     if unat (or_symbol_id r) = s \<and> or_side r = d \<and> unat (or_price r) = p then unat (or_qty r) else 0)"

definition level_total :: "(u64 \<rightharpoonup> OrderRecord) \<Rightarrow> nat \<Rightarrow> Side \<Rightarrow> nat \<Rightarrow> nat" where
  "level_total os s d p = (\<Sum>k\<in>UNIV. share (os k) s d p)"

lemma share_None [simp]: "share None s d p = 0"
  by (simp add: share_def)

lemma level_total_empty [simp]: "level_total Map.empty s d p = 0"
  by (simp add: level_total_def)

lemma level_total_split:
  "level_total os s d p = share (os k) s d p + (\<Sum>j\<in>UNIV - {k}. share (os j) s d p)"
  unfolding level_total_def by (rule sum.remove) simp_all

lemma level_total_upd:
  "level_total (os(k := x)) s d p + share (os k) s d p = level_total os s d p + share x s d p"
proof -
  have "(\<Sum>j\<in>UNIV - {k}. share ((os(k := x)) j) s d p) = (\<Sum>j\<in>UNIV - {k}. share (os j) s d p)"
    by (rule sum.cong) auto
  then show ?thesis
    using level_total_split [of os s d p k] level_total_split [of "os(k := x)" s d p k] by simp
qed

lemma level_total_new: "os k = None \<Longrightarrow> level_total (os(k \<mapsto> r)) s d p = level_total os s d p + share (Some r) s d p"
  using level_total_upd [of os k "Some r" s d p] by simp

lemma level_total_gone: "level_total (os(k := None)) s d p + share (os k) s d p = level_total os s d p"
  using level_total_upd [of os k None s d p] by simp

lemma share_le_total: "share (os k) s d p \<le> level_total os s d p"
  using level_total_split [of os s d p k] by simp

text \<open>Every level of the 32 books carries the total of its orders, and is marked iff it is not empty.\<close>

definition levels_match :: "SymbolBook array \<Rightarrow> (u64 \<rightharpoonup> OrderRecord) \<Rightarrow> bool" where
  "levels_match books os \<longleftrightarrow> (\<forall>i d p. i < 32 \<longrightarrow>
     unat (sb_qty (side_of d (books i)) p) = level_total os i d p \<and>
     (occupied (sb_occupied (side_of d (books i))) p \<longleftrightarrow> level_total os i d p \<noteq> 0))"

definition fits :: "(u64 \<rightharpoonup> OrderRecord) \<Rightarrow> bool" where
  "fits os \<longleftrightarrow> (\<forall>i d p. level_total os i d p < 2 ^ 32)"

lemma levels_matchD:
  assumes "levels_match books os" "i < 32"
  shows "unat (sb_qty (side_of d (books i)) p) = level_total os i d p"
    "occupied (sb_occupied (side_of d (books i))) p \<longleftrightarrow> level_total os i d p \<noteq> 0"
  using assms unfolding levels_match_def by blast+

lemma books_invD: "books_inv books \<Longrightarrow> side_inv (d = Buy) (side_of d (books i))"
  by (simp add: books_inv_def)

lemma order_ok_bounds: "order_ok r \<Longrightarrow> unat (or_symbol_id r) < 32 \<and> 1 \<le> unat (or_price r) \<and>
    unat (or_price r) \<le> 4096 \<and> 0 < unat (or_qty r)"
  by (simp add: order_ok_def valid_price_iff kMaxSymbols_def word_less_nat_alt unat_gt_0)

lemma levels_match_take_off:
  assumes m: "levels_match books os" and inv: "books_inv books" and r: "os k = Some r" "order_ok r"
  shows "levels_match (take_off books r) (os(k := None))"
  unfolding levels_match_def
proof (intro allI impI)
  fix i d p assume i: "i < (32 :: nat)"
  let ?s = "side_of d (books i)" and ?s' = "side_of d (take_off books r i)"
  have gone: "level_total (os(k := None)) i d p + share (Some r) i d p = level_total os i d p"
    using level_total_gone [of os k i d p] r(1) by simp
  note l = levels_matchD [OF m i]
  show "unat (sb_qty ?s' p) = level_total (os(k := None)) i d p \<and>
     (occupied (sb_occupied ?s') p \<longleftrightarrow> level_total (os(k := None)) i d p \<noteq> 0)"
  proof (cases "i = unat (or_symbol_id r) \<and> d = or_side r \<and> p = unat (or_price r)")
    case True
    then have sh: "share (Some r) i d p = unat (or_qty r)" by (auto simp: share_def)
    have s': "?s' = remove_level ?s (or_price r) (or_qty r) (d = Buy)"
      using True by (simp add: take_off_def side_of_edit)
    have le: "unat (or_qty r) \<le> unat (sb_qty ?s p)" using gone sh l(1) [of d p] by linarith
    have "unat (sb_qty ?s' p) = unat (sb_qty ?s p) - unat (or_qty r)"
      using True le unfolding s' by (auto simp: word_le_nat_alt unat_sub)
    moreover have "occupied (sb_occupied ?s') p \<longleftrightarrow> unat (or_qty r) < unat (sb_qty ?s p)"
      using True unfolding s' remove_level_occupied [OF books_invD [OF inv]]
      by (simp add: word_less_nat_alt)
    ultimately show ?thesis using gone sh l(1) [of d p] by linarith
  next
    case False
    then have sh: "share (Some r) i d p = 0" by (auto simp: share_def)
    have "sb_qty ?s' p = sb_qty ?s p \<and> (occupied (sb_occupied ?s') p \<longleftrightarrow> occupied (sb_occupied ?s) p)"
    proof (cases "i = unat (or_symbol_id r) \<and> d = or_side r")
      case True
      then have "?s' = remove_level ?s (or_price r) (or_qty r) (d = Buy)" "p \<noteq> unat (or_price r)"
        using False by (simp_all add: take_off_def side_of_edit)
      then show ?thesis using remove_level_occupied [OF books_invD [OF inv]] by simp
    qed (auto simp: take_off_def side_of_edit)
    then show ?thesis using gone sh l by simp
  qed
qed

lemma levels_match_place:
  assumes m: "levels_match books os" and inv: "books_inv books" and k: "os k = None"
    and r: "order_ok r" and fit: "fits (os(k \<mapsto> r))"
  shows "levels_match (place books r) (os(k \<mapsto> r))"
  unfolding levels_match_def
proof (intro allI impI)
  fix i d p assume i: "i < (32 :: nat)"
  let ?s = "side_of d (books i)" and ?s' = "side_of d (place books r i)"
  have new: "level_total (os(k \<mapsto> r)) i d p = level_total os i d p + share (Some r) i d p"
    using k by (rule level_total_new)
  note l = levels_matchD [OF m i]
  show "unat (sb_qty ?s' p) = level_total (os(k \<mapsto> r)) i d p \<and>
     (occupied (sb_occupied ?s') p \<longleftrightarrow> level_total (os(k \<mapsto> r)) i d p \<noteq> 0)"
  proof (cases "i = unat (or_symbol_id r) \<and> d = or_side r \<and> p = unat (or_price r)")
    case True
    then have sh: "share (Some r) i d p = unat (or_qty r)" by (auto simp: share_def)
    have s': "?s' = add_level ?s (or_price r) (or_qty r) (d = Buy)"
      using True by (simp add: place_def put_on_def side_of_edit)
    have lt: "unat (sb_qty ?s p) + unat (or_qty r) < 2 ^ 32"
      using fit new sh l(1) [of d p] unfolding fits_def by metis
    have "unat (sb_qty ?s' p) = unat (sb_qty ?s p) + unat (or_qty r)"
      using True lt unfolding s' by (simp add: unat_word_ariths)
    moreover have "occupied (sb_occupied ?s') p"
      using True unfolding s' add_level_occupied [OF books_invD [OF inv]] by simp
    ultimately show ?thesis using new sh l(1) [of d p] order_ok_bounds [OF r] by simp
  next
    case False
    then have sh: "share (Some r) i d p = 0" by (auto simp: share_def)
    have "sb_qty ?s' p = sb_qty ?s p \<and> (occupied (sb_occupied ?s') p \<longleftrightarrow> occupied (sb_occupied ?s) p)"
    proof (cases "i = unat (or_symbol_id r) \<and> d = or_side r")
      case True
      then have "?s' = add_level ?s (or_price r) (or_qty r) (d = Buy)" "p \<noteq> unat (or_price r)"
        using False by (simp_all add: place_def put_on_def side_of_edit)
      then show ?thesis using add_level_occupied [OF books_invD [OF inv]] by simp
    qed (auto simp: place_def put_on_def side_of_edit)
    then show ?thesis using new sh l by simp
  qed
qed

lemma book_step_levels:
  assumes inv: "book_inv b" and m: "levels_match (bb_books b) (orders_of b)"
    and fit: "fits (order_step (orders_of b) p)"
  shows "levels_match (bb_books (fst (book_step b p))) (orders_of (fst (book_step b p)))"
  using inv
proof (cases rule: book_step_cases [of b p])
  case same
  then show ?thesis using m by (simp add: levels_match_def)
next
  case (place k r)
  note i = book_invD [OF inv]
  have "levels_match (unplace (bb_books b) (orders_of b k)) ((orders_of b)(k := None)) \<and>
      books_inv (unplace (bb_books b) (orders_of b k))"
  proof (cases "orders_of b k")
    case None
    then have "(orders_of b)(k := None) = orders_of b" by auto
    then show ?thesis using None m i(2) by (simp add: unplace_def)
  next
    case (Some r')
    then show ?thesis using levels_match_take_off [OF m i(2) Some i(3) [OF Some]] i(2)
      by (simp add: unplace_def take_off_inv)
  qed
  then show ?thesis
    using levels_match_place [of _ "(orders_of b)(k := None)" k r] place fit by simp
next
  case (remove k r)
  note i = book_invD [OF inv]
  show ?thesis using levels_match_take_off [OF m i(2) remove(4) i(3) [OF remove(4)]] remove by simp
qed

lemma fits_empty: "fits Map.empty"
  by (simp add: fits_def)

lemma levels_match_init: "levels_match (bb_books init_BookBuilder) Map.empty"
  unfolding levels_match_def
proof (intro allI impI)
  fix i :: nat and d p
  show "unat (sb_qty (side_of d (bb_books init_BookBuilder i)) p) = level_total Map.empty i d p \<and>
    (occupied (sb_occupied (side_of d (bb_books init_BookBuilder i))) p \<longleftrightarrow> level_total Map.empty i d p \<noteq> 0)"
    by (cases d) (simp_all add: init_BookBuilder_def init_SymbolBook_def)
qed

definition always_fits :: "ParsedPayload list \<Rightarrow> bool" where
  "always_fits ps \<longleftrightarrow> (\<forall>n \<le> length ps. fits (order_run (take n ps)))"

lemma always_fits_Nil: "always_fits []"
  by (simp add: always_fits_def order_run_def fits_empty)

lemma always_fits_snoc: "always_fits (ps @ [p]) \<longleftrightarrow> always_fits ps \<and> fits (order_run (ps @ [p]))"
  unfolding always_fits_def by (auto simp: le_Suc_eq)

lemma book_run_levels:
  "always_fits ps \<Longrightarrow> levels_match (bb_books (book_run init_BookBuilder ps)) (order_run ps)"
proof (induction ps rule: rev_induct)
  case Nil
  show ?case using levels_match_init by (simp add: book_run_def order_run_def)
next
  case (snoc p ps)
  note r = book_run_inv [of ps]
  then show ?case using snoc book_step_levels [of "book_run init_BookBuilder ps" p]
    book_step_orders [of "book_run init_BookBuilder ps" p]
    by (simp add: always_fits_snoc book_run_snoc order_run_snoc)
qed

section \<open>Properties\<close>

definition best_level :: "(u64 \<rightharpoonup> OrderRecord) \<Rightarrow> nat \<Rightarrow> Side \<Rightarrow> nat" where
  "best_level os s d =
     (let ps = {p \<in> {1..4096}. level_total os s d p \<noteq> 0} in
      if ps = {} then 0 else if d = Buy then Max ps else Min ps)"

text \<open>What \<^verbatim>\<open>top\<close> should answer, computed from the resting orders.\<close>

definition top_of_orders :: "(u64 \<rightharpoonup> OrderRecord) \<Rightarrow> u32 \<Rightarrow> TopOfBook" where
  "top_of_orders os s =
     (let bid = best_level os (unat s) Buy; ask = best_level os (unat s) Sell in
      \<lparr>tb_symbol_id = s, tb_bid_price = of_nat bid, tb_bid_qty = of_nat (level_total os (unat s) Buy bid),
       tb_ask_price = of_nat ask, tb_ask_qty = of_nat (level_total os (unat s) Sell ask),
       tb_seq = 0, tb_ts_ns = 0, tb_valid = (bid \<noteq> 0 \<or> ask \<noteq> 0)\<rparr>)"

lemma levels_match_best:
  assumes inv: "books_inv books" and m: "levels_match books os" and i: "i < 32"
  shows "sb_best_price (side_of d (books i)) = of_nat (best_level os i d)"
    "best_qty (side_of d (books i)) = of_nat (level_total os i d (best_level os i d))"
    "sb_best_price (side_of d (books i)) = 0 \<longleftrightarrow> best_level os i d = 0"
proof -
  let ?s = "side_of d (books i)"
  note s = books_invD [OF inv, of d i] and l = levels_matchD [OF m i]
  have ms: "marked_levels ?s = {p \<in> {1..4096}. level_total os i d p \<noteq> 0}"
    by (simp add: marked_levels_def l(2))
  have u: "unat (sb_best_price ?s) = best_level os i d"
    unfolding side_inv_best [OF s] best_level_def ms Let_def ..
  have z: "sb_qty ?s 0 = 0" using side_invD(1) [OF s, of 0] side_invD(2) [OF s, of 0] by auto
  have q: "best_qty ?s = sb_qty ?s (unat (sb_best_price ?s))" using z by (auto simp: best_qty_def unat_eq_0)
  show "sb_best_price ?s = of_nat (best_level os i d)"
    unfolding u [symmetric] by simp
  show "best_qty ?s = of_nat (level_total os i d (best_level os i d))"
    unfolding q l(1) [symmetric] u by simp
  show "sb_best_price ?s = 0 \<longleftrightarrow> best_level os i d = 0"
    unfolding u [symmetric] by (simp add: unat_eq_0)
qed

lemma levels_match_top:
  assumes "books_inv (bb_books b)" "levels_match (bb_books b) os" "s < kMaxSymbols"
  shows "top b s = top_of_orders os s"
proof -
  have i: "unat s < 32" using assms(3) by (simp add: kMaxSymbols_def word_less_nat_alt)
  note bid = levels_match_best [OF assms(1,2) i, of Buy, simplified]
    and ask = levels_match_best [OF assms(1,2) i, of Sell, simplified]
  show ?thesis using assms(3) bid(3) ask(3)
    by (auto simp: top_def top_of_orders_def Let_def init_TopOfBook_def bid(1,2) ask(1,2) word_gt_0 not_le
        simp flip: bid(1) ask(1))
qed

text \<open>
  C15: For every sequence of messages, the orders the builder holds are those of the
  abstract map: an add with a valid symbol, price and quantity stores its record (also in
  place of a live order with the same id) unless 65536 orders rest, a modify replaces the
  record of a live id, a delete removes it, and nothing else changes the orders. Every
  resting order has a symbol below 32, a price from 1 to 4096 and a positive quantity, so
  all array accesses through it are in range; and the best price of every side is the
  extremum of its marked levels, even when quantities overflow.
\<close>

theorem book_tracks_orders:
  "pool_lookup (bb_pool (book_run init_BookBuilder ps)) = order_run ps \<and>
   (\<forall>k r. order_run ps k = Some r \<longrightarrow> or_symbol_id r < 32 \<and> 1 \<le> or_price r \<and> or_price r \<le> 4096 \<and> or_qty r \<noteq> 0) \<and>
   (\<forall>i d. let side = side_of d (bb_books (book_run init_BookBuilder ps) i); ms = marked_levels side in
      unat (sb_best_price side) = (if ms = {} then 0 else if d = Buy then Max ms else Min ms))"
proof -
  let ?b = "book_run init_BookBuilder ps"
  have r: "book_inv ?b" "orders_of ?b = order_run ps" using book_run_inv by auto
  note i = book_invD [OF r(1)]
  have "order_ok x" if "order_run ps k = Some x" for k x using i(3) that r(2) by simp
  then show ?thesis
    using r(2) side_inv_best [OF books_invD [OF i(2)]]
    by (simp add: order_ok_def valid_price_def kMaxSymbols_def kPriceLevels_def Let_def)
qed

definition sample_add :: "u64 \<Rightarrow> u32 \<Rightarrow> Side \<Rightarrow> u32 \<Rightarrow> u32 \<Rightarrow> ParsedPayload" where
  "sample_add k s d p q = P_AddOrder \<lparr>ao_hdr = \<lparr>hdr_type = MT_AddOrder, hdr_length = 44, hdr_seq = k, hdr_ts_ns = k\<rparr>,
     ao_order_id = k, ao_symbol_id = s, ao_side = d, ao_price = p, ao_qty = q\<rparr>"

lemma order_run_Nil: "order_run [] = Map.empty"
  by (simp add: order_run_def)

lemma order_step_sample_add:
  assumes "s < 32" "1 \<le> p" "p \<le> 4096" "q \<noteq> 0" "card (dom os) < 65536"
  shows "order_step os (sample_add k s d p q) = os(k \<mapsto> live_record k s d p q)"
  using assms by (simp add: sample_add_def add_ok_def kMaxSymbols_def valid_price_def kPriceLevels_def
      kOrderPool_def record_of_add_def)

theorem book_tracks_orders_witness:
  "pool_lookup (bb_pool (book_run init_BookBuilder [sample_add 7 3 Buy 100 5])) 7 =
     Some (live_record 7 3 Buy 100 5)"
  using book_tracks_orders [of "[sample_add 7 3 Buy 100 5]"]
  by (simp add: order_run_def order_step_sample_add)

lemma book_run_top:
  "always_fits ps \<Longrightarrow> s < 32 \<Longrightarrow> top (book_run init_BookBuilder ps) s = top_of_orders (order_run ps) s"
  using levels_match_top [OF book_invD(2) book_run_levels] book_run_inv by (simp add: kMaxSymbols_def)

text \<open>
  C12: As long as no level's total reaches \<open>2 ^ 32\<close>, the book shows exactly its resting
  orders: \<^verbatim>\<open>bid_qty_at\<close> and \<^verbatim>\<open>ask_qty_at\<close> return the sum of the quantities of the live
  orders of that symbol, side and price, and \<^verbatim>\<open>top\<close> returns the highest bid and the lowest
  ask at which orders rest, with their total quantities.
\<close>

theorem book_levels_are_totals:
  assumes "always_fits ps" "s < 32" "1 \<le> price" "price \<le> 4096"
  shows "unat (bid_qty_at (book_run init_BookBuilder ps) s price) =
      level_total (order_run ps) (unat s) Buy (unat price) \<and>
    unat (ask_qty_at (book_run init_BookBuilder ps) s price) =
      level_total (order_run ps) (unat s) Sell (unat price) \<and>
    top (book_run init_BookBuilder ps) s = top_of_orders (order_run ps) s"
proof -
  let ?b = "book_run init_BookBuilder ps"
  have m: "levels_match (bb_books ?b) (order_run ps)" by (rule book_run_levels [OF assms(1)])
  have inv: "books_inv (bb_books ?b)" using book_run_inv book_invD(2) by blast
  have i: "unat s < 32" using assms(2) by (simp add: word_less_nat_alt)
  have "\<not> 32 \<le> s" using assms(2) by simp
  note l = levels_matchD(1) [OF m i] and ns = this
  show ?thesis
    using ns l [of Buy] l [of Sell] levels_match_top [OF inv m] assms(2-4)
    by (simp add: bid_qty_at_def ask_qty_at_def valid_price_def kPriceLevels_def kMaxSymbols_def)
qed

lemma fits_pair:
  "unat q1 + unat q2 < 2 ^ 32 \<Longrightarrow> k1 \<noteq> k2 \<Longrightarrow>
   fits [k1 \<mapsto> live_record k1 s1 d1 p1 q1, k2 \<mapsto> live_record k2 s2 d2 p2 q2]"
  unfolding fits_def by (auto simp: level_total_new share_def)

lemma fits_single: "fits [k \<mapsto> live_record k' s d p q]"
  unfolding fits_def
proof (intro allI)
  fix i e pr
  have "share (Some (live_record k' s d p q)) i e pr \<le> unat q" by (simp add: share_def)
  also have "unat q < 2 ^ 32" using unsigned_less [where w = q and 'a = nat] by simp
  finally show "level_total [k \<mapsto> live_record k' s d p q] i e pr < 2 ^ 32"
    by (simp add: level_total_new)
qed

theorem book_levels_are_totals_witness:
  "unat (bid_qty_at (book_run init_BookBuilder [sample_add 1 3 Buy 100 5, sample_add 2 3 Buy 100 7]) 3 100) = 12"
proof -
  let ?ps = "[sample_add 1 3 Buy 100 5, sample_add 2 3 Buy 100 7]"
  have r: "order_run [sample_add 1 3 Buy 100 5] = [1 \<mapsto> live_record 1 3 Buy 100 5]"
    "order_run ?ps = [1 \<mapsto> live_record 1 3 Buy 100 5, 2 \<mapsto> live_record 2 3 Buy 100 7]"
    by (simp_all add: order_run_def order_step_sample_add)
  have "always_fits ?ps"
    using always_fits_snoc [of "[sample_add 1 3 Buy 100 5]" "sample_add 2 3 Buy 100 7"]
      always_fits_snoc [of "[]" "sample_add 1 3 Buy 100 5"] r fits_single fits_pair
    by (simp add: always_fits_Nil)
  then show ?thesis
    using book_levels_are_totals [of ?ps 3 100] r by (simp add: level_total_new share_def)
qed

text \<open>Only the symbol whose side is edited gets another top.\<close>

lemma top_edit_other:
  "s' \<noteq> s \<Longrightarrow> top (b\<lparr>bb_books := edit_side books s d f\<rparr>) s' = top (b\<lparr>bb_books := books\<rparr>) s'"
  using unsigned_word_eqI [of s' s] by (auto simp: top_def edit_side_def Let_def)

lemma top_other_symbol:
  "s \<noteq> or_symbol_id r \<Longrightarrow> top (b\<lparr>bb_books := take_off books r\<rparr>) s = top (b\<lparr>bb_books := books\<rparr>) s"
  "s \<noteq> or_symbol_id r \<Longrightarrow> top (b\<lparr>bb_books := place books r\<rparr>) s = top (b\<lparr>bb_books := books\<rparr>) s"
  by (simp_all add: take_off_def place_def put_on_def top_edit_other)

lemma same_bbo_refl [simp]: "same_bbo t t"
  by (simp add: same_bbo_def)

lemma tick_if_None: "tick_if t t' n = None \<longleftrightarrow> same_bbo t t'"
  by (simp add: tick_if_def)

lemma same_bbo_one_symbol:
  assumes "\<And>s'. s' \<noteq> s \<Longrightarrow> top b' s' = top b s'"
  shows "(\<forall>s'. same_bbo (top b s') (top b' s')) \<longleftrightarrow> same_bbo (top b s) (top b' s)"
  using assms by (metis same_bbo_refl)

text \<open>
  The messages for which the handler compares the top of the same book before and after all
  its changes: every delete, an add of an id that is not live, and a modify that keeps the
  order's symbol.
\<close>

fun compares_whole_change :: "(u64 \<rightharpoonup> OrderRecord) \<Rightarrow> ParsedPayload \<Rightarrow> bool" where
  "compares_whole_change os (P_AddOrder m) = (os (ao_order_id m) = None)"
| "compares_whole_change os (P_ModifyOrder m) =
     (case os (mo_order_id m) of None \<Rightarrow> True | Some r \<Rightarrow> or_symbol_id r = mo_symbol_id m)"
| "compares_whole_change os (P_Trade m) = False"
| "compares_whole_change os _ = True"

lemma top_books: "top b' s = top (b\<lparr>bb_books := bb_books b'\<rparr>) s"
  by (rule top_cong) simp

lemma on_add_tick_iff:
  assumes inv: "book_inv b" and none: "orders_of b (ao_order_id m) = None"
  shows "snd (on_add b m) = None \<longleftrightarrow> (\<forall>s. same_bbo (top b s) (top (fst (on_add b m)) s))"
proof (cases "add_ok m \<and> card (dom (orders_of b)) < kOrderPool")
  case True
  let ?r = "record_of_add m" and ?b = "fst (on_add b m)"
  note a = on_add_accept [OF inv conjunct1 [OF True] conjunct2 [OF True]]
  have books: "bb_books ?b = place (bb_books b) ?r" using a(1) none by (simp add: unplace_def)
  have sy: "or_symbol_id ?r = ao_symbol_id m" by (simp add: record_of_add_def)
  have "top ?b s = top b s" if "s \<noteq> ao_symbol_id m" for s
    unfolding top_books [of ?b s b] books using top_other_symbol(2) [of s ?r] that sy by simp
  then show ?thesis
    using same_bbo_one_symbol [of "ao_symbol_id m" ?b b] a(4) none
      top_books [of ?b "ao_symbol_id m" b] books
    by (simp add: unplace_def tick_if_None)
next
  case False
  then have "on_add b m = (b, None)" using on_add_reject on_add_full [OF inv] by (meson not_le)
  then show ?thesis by simp
qed

lemma on_modify_tick_iff:
  assumes inv: "book_inv b"
    and same: "case orders_of b (mo_order_id m) of None \<Rightarrow> True | Some r \<Rightarrow> or_symbol_id r = mo_symbol_id m"
  shows "snd (on_modify b m) = None \<longleftrightarrow> (\<forall>s. same_bbo (top b s) (top (fst (on_modify b m)) s))"
proof (cases "modify_ok m \<and> orders_of b (mo_order_id m) \<noteq> None")
  case True
  then obtain r where r: "orders_of b (mo_order_id m) = Some r" and ok: "modify_ok m" by auto
  let ?r = "record_of_modify m" and ?b = "fst (on_modify b m)"
  note a = on_modify_accept [OF inv ok r]
  note books = a(1)
  have sy: "or_symbol_id ?r = mo_symbol_id m" "or_symbol_id r = mo_symbol_id m"
    using same r by (simp_all add: record_of_modify_def)
  have "top ?b s = top b s" if "s \<noteq> mo_symbol_id m" for s
    unfolding top_books [of ?b s b] books
    using top_other_symbol(2) [of s ?r] top_other_symbol(1) [of s r] that sy by simp
  then show ?thesis
    using same_bbo_one_symbol [of "mo_symbol_id m" ?b b] a(4) sy
      top_books [of ?b "mo_symbol_id m" b] books
    by (simp add: tick_if_None)
next
  case False
  then have "on_modify b m = (b, None)" by (intro on_modify_reject) auto
  then show ?thesis by simp
qed

lemma on_delete_tick_iff:
  assumes inv: "book_inv b"
  shows "snd (on_delete b m) = None \<longleftrightarrow> (\<forall>s. same_bbo (top b s) (top (fst (on_delete b m)) s))"
proof (cases "orders_of b (do_order_id m)")
  case None
  then show ?thesis using on_delete_reject [OF None] by simp
next
  case (Some r)
  let ?b = "fst (on_delete b m)"
  note a = on_delete_accept [OF inv Some]
  note books = a(1)
  have "top ?b s = top b s" if "s \<noteq> or_symbol_id r" for s
    unfolding top_books [of ?b s b] books using top_other_symbol(1) [of s r] that by simp
  then show ?thesis
    using same_bbo_one_symbol [of "or_symbol_id r" ?b b] a(4)
      top_books [of ?b "or_symbol_id r" b] books
    by (simp add: tick_if_None)
qed

lemma book_step_tick_iff:
  assumes "book_inv b" "compares_whole_change (orders_of b) p"
  shows "snd (book_step b p) = None \<longleftrightarrow> (\<forall>s. same_bbo (top b s) (top (fst (book_step b p)) s))"
  using assms on_add_tick_iff [OF assms(1)] on_modify_tick_iff [OF assms(1)] on_delete_tick_iff [OF assms(1)]
  by (cases p) simp_all

text \<open>
  C17: For a delete, an add of a new id and a modify that keeps the symbol, in every state
  that messages can lead to, a tick is emitted exactly when the best bid or ask (price or
  quantity) of some symbol changed.
\<close>

theorem tick_iff_bbo_changed:
  assumes "compares_whole_change (order_run ps) p"
  shows "snd (book_step (book_run init_BookBuilder ps) p) \<noteq> None \<longleftrightarrow>
    (\<exists>s. \<not> same_bbo (top (book_run init_BookBuilder ps) s)
           (top (book_run init_BookBuilder (ps @ [p])) s))"
  using book_step_tick_iff [of "book_run init_BookBuilder ps" p] book_run_inv [of ps] assms
  unfolding book_run_snoc by metis

theorem tick_iff_bbo_changed_witness:
  "snd (book_step (book_run init_BookBuilder []) (sample_add 1 3 Buy 100 5)) \<noteq> None \<longleftrightarrow>
    (\<exists>s. \<not> same_bbo (top (book_run init_BookBuilder []) s)
           (top (book_run init_BookBuilder ([] @ [sample_add 1 3 Buy 100 5])) s))"
  by (rule tick_iff_bbo_changed) (simp add: sample_add_def order_run_def)

text \<open>A tick carries the top of the book after the message and the message's own header fields.\<close>

definition tick_shows :: "BookBuilder \<Rightarrow> NormalizedTick \<Rightarrow> bool" where
  "tick_shows b t \<longleftrightarrow> nt_symbol_id t < kMaxSymbols \<and>
     (let book = bb_books b (unat (nt_symbol_id t)); to = top b (nt_symbol_id t) in
      nt_bid_price t = tb_bid_price to \<and> nt_bid_qty t = tb_bid_qty to \<and>
      nt_ask_price t = tb_ask_price to \<and> nt_ask_qty t = tb_ask_qty to \<and>
      nt_last_price t = sy_last_price book \<and> nt_last_qty t = sy_last_qty book)"

lemma make_tick_shows: "s < kMaxSymbols \<Longrightarrow> tick_shows b (make_tick b s x y c)"
  by (auto simp: tick_shows_def make_tick_def top_def Let_def)

lemma make_tick_header [simp]:
  "nt_seq (make_tick b s x y c) = x" "nt_ts_ns (make_tick b s x y c) = y" "nt_cause (make_tick b s x y c) = c"
  by (simp_all add: make_tick_def Let_def)

lemma make_tick_last:
  assumes "s < kMaxSymbols"
  shows "nt_symbol_id (make_tick b s x y c) = s"
    "nt_last_price (make_tick b s x y c) = sy_last_price (bb_books b (unat s))"
    "nt_last_qty (make_tick b s x y c) = sy_last_qty (bb_books b (unat s))"
  using assms by (simp_all add: make_tick_def Let_def)

fun payload_cause :: "ParsedPayload \<Rightarrow> MsgType" where
  "payload_cause (P_AddOrder m) = MT_AddOrder"
| "payload_cause (P_ModifyOrder m) = MT_ModifyOrder"
| "payload_cause (P_DeleteOrder m) = MT_DeleteOrder"
| "payload_cause (P_Trade m) = MT_Trade"
| "payload_cause _ = MT_Heartbeat"

lemma on_delete_symbol:
  assumes "book_inv b" "on_delete b m = (b', Some t)"
  shows "tick_shows b' t \<and> nt_seq t = hdr_seq (do_hdr m) \<and> nt_ts_ns t = hdr_ts_ns (do_hdr m) \<and>
    nt_cause t = MT_DeleteOrder"
proof (cases "find_order (bb_pool b) (do_order_id m)")
  case None
  then show ?thesis using assms(2) by (simp add: on_delete_def)
next
  case (Some i)
  have "order_ok (op_orders (bb_pool b) i)"
    using book_invD(3) [OF assms(1) pool.fetch_found [OF Some]] .
  then have "or_symbol_id (op_orders (bb_pool b) i) < kMaxSymbols" by (simp add: order_ok_def)
  then show ?thesis using assms(2) Some make_tick_shows
    by (auto simp: on_delete_def Let_def split: if_splits)
qed

text \<open>
  C18: Every tick that is emitted shows the best bid and ask and the last trade of its symbol
  as they are after the message, and carries the sequence number, time stamp and type of
  the message that caused it. A trade with a valid symbol, price and quantity always emits
  one, with its price and quantity as the last trade.
\<close>

theorem tick_shows_book:
  assumes "book_step (book_run init_BookBuilder ps) p = (b', Some t)"
  shows "tick_shows b' t \<and> (\<exists>h. payload_header p = Some h \<and> nt_seq t = hdr_seq h \<and> nt_ts_ns t = hdr_ts_ns h) \<and>
    nt_cause t = payload_cause p \<and>
    (\<forall>m. p = P_Trade m \<longrightarrow> nt_symbol_id t = tr_symbol_id m \<and> nt_last_price t = tr_price m \<and> nt_last_qty t = tr_qty m)"
proof -
  note inv = conjunct1 [OF book_run_inv [of ps]]
  show ?thesis
  proof (cases p)
    case (P_AddOrder m)
    then show ?thesis using assms make_tick_shows
      by (auto simp: on_add_def Let_def not_le split: if_splits prod.splits option.splits)
  next
    case (P_ModifyOrder m)
    then show ?thesis using assms make_tick_shows
      by (auto simp: on_modify_def Let_def not_le split: if_splits option.splits)
  next
    case (P_DeleteOrder m)
    then show ?thesis using assms on_delete_symbol [OF inv, of m b' t] by simp
  next
    case (P_Trade m)
    then show ?thesis using assms make_tick_shows
      by (auto simp: on_trade_def Let_def not_le make_tick_last split: if_splits)
  qed (use assms in simp_all)
qed

theorem tick_shows_book_witness:
  "\<exists>b' t. book_step (book_run init_BookBuilder []) (P_Trade \<lparr>tr_hdr = \<lparr>hdr_type = MT_Trade, hdr_length = 44,
       hdr_seq = 9, hdr_ts_ns = 4\<rparr>, tr_trade_id = 1, tr_symbol_id = 2, tr_side = Sell, tr_price = 50, tr_qty = 6\<rparr>)
     = (b', Some t) \<and> tick_shows b' t \<and> nt_seq t = 9 \<and> nt_last_price t = 50"
proof -
  let ?m = "\<lparr>tr_hdr = \<lparr>hdr_type = MT_Trade, hdr_length = 44, hdr_seq = 9, hdr_ts_ns = 4\<rparr>, tr_trade_id = 1,
    tr_symbol_id = 2, tr_side = Sell, tr_price = 50, tr_qty = 6\<rparr>"
  obtain b' t where e: "book_step (book_run init_BookBuilder []) (P_Trade ?m) = (b', Some t)"
    by (simp add: on_trade_def Let_def kMaxSymbols_def valid_price_def kPriceLevels_def)
  from tick_shows_book [OF e] e show ?thesis by auto
qed

section \<open>Where the comparison misses a change\<close>

text \<open>The best levels of two and three concrete orders.\<close>

lemma level_total_pair:
  "k1 \<noteq> k2 \<Longrightarrow> level_total [k1 \<mapsto> r1, k2 \<mapsto> r2] s d p = share (Some r1) s d p + share (Some r2) s d p"
  by (simp add: level_total_new)

lemma best_level_pair:
  assumes "k1 \<noteq> k2" "q1 \<noteq> 0" "q2 \<noteq> 0" "valid_price p1" "valid_price p2" "p1 \<le> p2"
  shows "best_level [k1 \<mapsto> live_record k1 s Buy p1 q1, k2 \<mapsto> live_record k2 s Buy p2 q2] (unat s) Buy = unat p2"
proof -
  have "{p \<in> {1..4096}. level_total [k1 \<mapsto> live_record k1 s Buy p1 q1, k2 \<mapsto> live_record k2 s Buy p2 q2]
      (unat s) Buy p \<noteq> 0} = {unat p1, unat p2}"
    using assms by (auto simp: level_total_pair share_def valid_price_iff unat_gt_0)
  then show ?thesis using assms(6) by (simp add: best_level_def Let_def max_def word_le_nat_alt)
qed

text \<open>
  A re-add of a live id, in terms of the orders: the handler compares the book without the
  old order, not the book before the message, with the book after it.
\<close>

lemma readd_tick:
  assumes fit: "always_fits ps" and ok: "add_ok m" and room: "card (dom (order_run ps)) < kOrderPool"
    and r: "order_run ps (ao_order_id m) = Some r" and fit': "fits (order_run (ps @ [P_AddOrder m]))"
  shows "snd (book_step (book_run init_BookBuilder ps) (P_AddOrder m)) = None \<longleftrightarrow>
    same_bbo (top_of_orders ((order_run ps)(ao_order_id m := None)) (ao_symbol_id m))
      (top_of_orders (order_run (ps @ [P_AddOrder m])) (ao_symbol_id m))"
proof -
  let ?b = "book_run init_BookBuilder ps" and ?k = "ao_order_id m"
  have inv: "book_inv ?b" and os: "orders_of ?b = order_run ps" using book_run_inv by auto
  note i = book_invD [OF inv]
  have m: "levels_match (bb_books ?b) (order_run ps)" by (rule book_run_levels [OF fit])
  have rk: "orders_of ?b ?k = Some r" using r os by simp
  have room': "card (dom (orders_of ?b)) < kOrderPool" using room os by simp
  note a = on_add_accept [OF inv ok room']
  have off: "unplace (bb_books ?b) (orders_of ?b ?k) = take_off (bb_books ?b) r" by (simp add: rk unplace_def)
  have m1: "levels_match (take_off (bb_books ?b) r) ((order_run ps)(?k := None))"
    using levels_match_take_off [OF m i(2) r i(3) [OF rk]] .
  have i1: "books_inv (take_off (bb_books ?b) r)" by (rule take_off_inv [OF i(2)])
  have run: "order_run (ps @ [P_AddOrder m]) = (order_run ps)(?k \<mapsto> record_of_add m)"
    using ok room by (simp add: order_run_snoc)
  have m2: "levels_match (place (take_off (bb_books ?b) r) (record_of_add m)) (order_run (ps @ [P_AddOrder m]))"
    using levels_match_place [OF m1 i1 _ record_ok(1) [OF ok], of ?k] fit' by (simp add: run)
  have i2: "books_inv (place (take_off (bb_books ?b) r) (record_of_add m))"
    by (rule place_inv [OF i1 record_ok(1) [OF ok]])
  have s: "ao_symbol_id m < kMaxSymbols" using ok by (simp add: add_ok_def)
  show ?thesis using a(4) off
      levels_match_top [of "?b\<lparr>bb_books := take_off (bb_books ?b) r\<rparr>", OF _ _ s] m1 i1
      levels_match_top [of "?b\<lparr>bb_books := place (take_off (bb_books ?b) r) (record_of_add m)\<rparr>", OF _ _ s] m2 i2
    by (simp add: tick_if_None)
qed

text \<open>
  An add that reuses a live order id can move the best bid without a tick: with bids of
  5 at 100 (order 1) and 3 at 99 (order 2), adding order 1 again at 98 takes the best bid
  from 100 to 99, and no tick is emitted, because the handler reads the top it compares
  with after it has taken the old order off.
\<close>

theorem readd_misses_bbo_change:
  "snd (book_step (book_run init_BookBuilder [sample_add 1 3 Buy 100 5, sample_add 2 3 Buy 99 3])
      (sample_add 1 3 Buy 98 4)) = None \<and>
   tb_bid_price (top (book_run init_BookBuilder [sample_add 1 3 Buy 100 5, sample_add 2 3 Buy 99 3]) 3) = 100 \<and>
   tb_bid_price (top (book_run init_BookBuilder
     [sample_add 1 3 Buy 100 5, sample_add 2 3 Buy 99 3, sample_add 1 3 Buy 98 4]) 3) = 99"
proof -
  let ?r1 = "live_record 1 3 Buy 100 5" and ?r2 = "live_record 2 3 Buy 99 3" and ?r3 = "live_record 1 3 Buy 98 4"
  let ?a = "sample_add 1 3 Buy 100 5" and ?b = "sample_add 2 3 Buy 99 3" and ?c = "sample_add 1 3 Buy 98 4"
  have tw: "[2 \<mapsto> ?r2, 1 \<mapsto> x] = [1 \<mapsto> x, (2 :: u64) \<mapsto> ?r2]" for x by (rule fun_upd_twist) simp
  have run: "order_run [] = Map.empty" "order_run [?a] = [1 \<mapsto> ?r1]" "order_run [?a, ?b] = [1 \<mapsto> ?r1, 2 \<mapsto> ?r2]"
    "order_run [?a, ?b, ?c] = [1 \<mapsto> ?r3, 2 \<mapsto> ?r2]"
    by (simp_all add: order_run_def order_step_sample_add tw [symmetric])
  have fit: "always_fits [?a, ?b]" "always_fits [?a, ?b, ?c]"
    using always_fits_snoc [of "[?a, ?b]" ?c] always_fits_snoc [of "[?a]" ?b] always_fits_snoc [of "[]" ?a]
      run fits_single fits_pair always_fits_Nil by simp_all
  have v: "valid_price 100" "valid_price 99" "valid_price 98" by (simp_all add: valid_price_def kPriceLevels_def)
  have bid: "best_level [1 \<mapsto> ?r1, 2 \<mapsto> ?r2] 3 Buy = 100" "best_level [1 \<mapsto> ?r3, 2 \<mapsto> ?r2] 3 Buy = 99"
    using best_level_pair [of 2 1 3 5 99 100 3] best_level_pair [of 1 2 4 3 98 99 3] v by (simp_all add: tw)
  have "{p \<in> {1..4096}. level_total [2 \<mapsto> ?r2] 3 Buy p \<noteq> 0} = {99}"
    by (auto simp: level_total_new share_def)
  then have bid2: "best_level [2 \<mapsto> ?r2] 3 Buy = 99" by (simp add: best_level_def Let_def)
  have ask: "best_level [2 \<mapsto> ?r2] 3 Sell = 0" "best_level [1 \<mapsto> ?r3, 2 \<mapsto> ?r2] 3 Sell = 0"
    by (simp_all add: best_level_def Let_def level_total_pair level_total_new share_def)
  have "same_bbo (top_of_orders [2 \<mapsto> ?r2] 3) (top_of_orders [1 \<mapsto> ?r3, 2 \<mapsto> ?r2] 3)"
    by (simp add: same_bbo_def top_of_orders_def Let_def bid bid2 ask level_total_pair level_total_new share_def)
  moreover have "[1 \<mapsto> ?r1, 2 \<mapsto> ?r2](1 := None) = [(2 :: u64) \<mapsto> ?r2]" by auto
  moreover obtain m where c: "?c = P_AddOrder m" "ao_order_id m = 1" "ao_symbol_id m = 3" "add_ok m"
    using v by (simp add: sample_add_def add_ok_def kMaxSymbols_def)
  ultimately have "snd (book_step (book_run init_BookBuilder [?a, ?b]) ?c) = None"
    using readd_tick [OF fit(1) c(4)] run fits_pair by (simp add: kOrderPool_def)
  then show ?thesis
    using book_run_top [OF fit(1), of 3] book_run_top [OF fit(2), of 3] run bid
    by (simp add: top_of_orders_def Let_def)
qed

text \<open>
  The bound on the level totals is needed: two live orders of \<open>2 ^ 31\<close> on one level wrap
  its 32-bit quantity around to 0, although the level stays marked as the best bid.
\<close>

theorem level_total_overflow:
  "bid_qty_at (book_run init_BookBuilder [sample_add 1 3 Buy 100 (2 ^ 31), sample_add 2 3 Buy 100 (2 ^ 31)]) 3 100 = 0 \<and>
   level_total (order_run [sample_add 1 3 Buy 100 (2 ^ 31), sample_add 2 3 Buy 100 (2 ^ 31)]) 3 Buy 100 = 2 ^ 32"
proof -
  let ?a = "sample_add 1 3 Buy 100 (2 ^ 31)" and ?b = "sample_add 2 3 Buy 100 (2 ^ 31)"
  let ?s = "book_run init_BookBuilder [?a]"
  have run: "order_run [?a] = [1 \<mapsto> live_record 1 3 Buy 100 (2 ^ 31)]"
    "order_run [?a, ?b] = [1 \<mapsto> live_record 1 3 Buy 100 (2 ^ 31), 2 \<mapsto> live_record 2 3 Buy 100 (2 ^ 31)]"
    by (simp_all add: order_run_def order_step_sample_add)
  have fit: "always_fits [?a]"
    using always_fits_snoc [of "[]" ?a] always_fits_Nil run(1) fits_single by simp
  have "unat (sb_qty (side_of Buy (bb_books ?s 3)) 100) = 2 ^ 31"
    using levels_matchD(1) [OF book_run_levels [OF fit], of 3 Buy 100] unfolding run(1)
    by (simp add: level_total_new share_def)
  then have q: "sb_qty (sy_bid (bb_books ?s 3)) 100 = 2 ^ 31"
    by (simp add: unsigned_word_eqI [where 'a = nat])
  obtain m where m: "?b = P_AddOrder m" "record_of_add m = live_record 2 3 Buy 100 (2 ^ 31)"
    "ao_order_id m = 2" "add_ok m"
    by (simp add: sample_add_def add_ok_def record_of_add_def kMaxSymbols_def valid_price_def kPriceLevels_def)
  have os: "orders_of ?s = order_run [?a]" and inv: "book_inv ?s" using book_run_inv by auto
  have "bb_books (fst (on_add ?s m)) = place (bb_books ?s) (live_record 2 3 Buy 100 (2 ^ 31))"
    using on_add_accept(1) [OF inv m(4)] m(2,3) os run(1) by (simp add: kOrderPool_def unplace_def)
  then have "bid_qty_at (book_run init_BookBuilder [?a, ?b]) 3 100 = 2 ^ 31 + 2 ^ 31"
    using q book_run_snoc [of init_BookBuilder "[?a]" ?b] m(1)
    by (simp add: bid_qty_at_def place_def put_on_def edit_side_def kMaxSymbols_def valid_price_def kPriceLevels_def)
  then show ?thesis unfolding run(2) by (simp add: level_total_pair share_def)
qed

end
