(* ===== verification/Text_Output.thy ===== *)
theory Text_Output
  imports Mdp_Prelude
begin

text \<open>
  Formatted text output as the program uses it (\<^verbatim>\<open>operator<<\<close> on integers, \<^verbatim>\<open>width\<close>), and
  the functions that read such text back, for the round-trip properties of the logs, the
  report and the command lines.
\<close>

section \<open>Printing\<close>

text \<open>\<^verbatim>\<open>operator<<\<close> on an unsigned integer: its decimal digits.\<close>

definition digit :: "nat \<Rightarrow> char" where
  "digit n = char_of (48 + n)"

fun dec :: "nat \<Rightarrow> string" where
  "dec n = (if n < 10 then [digit n] else dec (n div 10) @ [digit (n mod 10)])"

declare dec.simps [simp del]

text \<open>A signed integer, and a field of a minimal width filled with blanks.\<close>

definition dec_int :: "int \<Rightarrow> string" where
  "dec_int z = (if z < 0 then CHR ''-'' # dec (nat (- z)) else dec (nat z))"

definition pad_left :: "nat \<Rightarrow> string \<Rightarrow> string" where
  "pad_left w s = s @ replicate (w - length s) CHR '' ''"

definition pad_right :: "nat \<Rightarrow> string \<Rightarrow> string" where
  "pad_right w s = replicate (w - length s) CHR '' '' @ s"

section \<open>Reading\<close>

fun split_on :: "char \<Rightarrow> string \<Rightarrow> string list" where
  "split_on c [] = [[]]"
| "split_on c (x # xs) =
     (if x = c then [] # split_on c xs
      else case split_on c xs of [] \<Rightarrow> [[x]] | w # ws \<Rightarrow> (x # w) # ws)"

definition undec :: "string \<Rightarrow> nat" where
  "undec s = foldl (\<lambda>n ch. 10 * n + (of_char ch - 48)) 0 s"

definition newline :: char where "newline = char_of (10 :: nat)"

definition undec_int :: "string \<Rightarrow> int" where
  "undec_int s = (case s of c # ds \<Rightarrow> if c = CHR ''-'' then - int (undec ds) else int (undec s) | [] \<Rightarrow> 0)"

text \<open>The words of a line: its non-empty parts between blanks.\<close>

definition words :: "string \<Rightarrow> string list" where
  "words s = filter (\<lambda>w. w \<noteq> []) (split_on CHR '' '' s)"

section \<open>Round trips\<close>

lemma split_on_sep: "c \<notin> set w \<Longrightarrow> split_on c (w @ c # xs) = w # split_on c xs"
  by (induction w) auto

lemma split_on_last: "c \<notin> set w \<Longrightarrow> split_on c w = [w]"
  by (induction w) auto

lemma split_on_lines:
  "\<forall>w \<in> set ws. c \<notin> set w \<Longrightarrow> split_on c (concat (map (\<lambda>w. w @ [c]) ws)) = ws @ [[]]"
  by (induction ws) (auto simp: split_on_sep)

lemma of_char_digit: "n < 10 \<Longrightarrow> of_char (digit n) = 48 + n"
  by (simp add: digit_def)

lemma dec_chars: "ch \<in> set (dec n) \<Longrightarrow> \<exists>k < 10. ch = digit k"
proof (induction n rule: dec.induct)
  case (1 n)
  show ?case
  proof (cases "n < 10")
    case True
    then show ?thesis using "1.prems" by (subst (asm) dec.simps) auto
  next
    case False
    then have "ch \<in> set (dec (n div 10)) \<or> ch = digit (n mod 10)"
      using "1.prems" by (subst (asm) dec.simps) auto
    then show ?thesis using "1.IH" [OF False] by (auto intro: exI [of _ "n mod 10"])
  qed
qed

lemma undec_dec: "undec (dec n) = n"
proof (induction n rule: dec.induct)
  case (1 n)
  show ?case
  proof (cases "n < 10")
    case True
    then show ?thesis by (subst dec.simps) (simp add: undec_def of_char_digit)
  next
    case False
    then have "undec (dec n) = 10 * undec (dec (n div 10)) + n mod 10"
      by (subst dec.simps) (simp add: undec_def of_char_digit)
    then show ?thesis using "1.IH" [OF False] by simp
  qed
qed

lemma digit_not_sep: "k < 10 \<Longrightarrow> digit k \<noteq> CHR '','' \<and> digit k \<noteq> newline"
proof -
  assume "k < 10"
  then have "of_char (digit k) = 48 + k" by (rule of_char_digit)
  moreover have "(of_char CHR '','' :: nat) = 44" "(of_char newline :: nat) = 10"
    by (simp_all add: newline_def)
  ultimately show ?thesis by (auto dest: arg_cong [where f = "of_char :: char \<Rightarrow> nat"])
qed

lemma dec_no_sep: "CHR '','' \<notin> set (dec n)" "newline \<notin> set (dec n)"
  using dec_chars digit_not_sep by metis+

lemma dec_not_Nil [simp]: "dec n \<noteq> []"
  by (subst dec.simps) simp

lemma digit_not_char: "k < 10 \<Longrightarrow> digit k \<noteq> CHR '' '' \<and> digit k \<noteq> CHR ''-'' \<and> digit k \<noteq> CHR ''+''"
proof -
  assume "k < 10"
  then have "of_char (digit k) = 48 + k" by (rule of_char_digit)
  moreover have "(of_char CHR '' '' :: nat) = 32" "(of_char CHR ''-'' :: nat) = 45" "(of_char CHR ''+'' :: nat) = 43"
    by simp_all
  ultimately show ?thesis by (auto dest: arg_cong [where f = "of_char :: char \<Rightarrow> nat"])
qed

lemma newline_neq [simp]: "of_char c \<noteq> (10 :: nat) \<Longrightarrow> newline \<noteq> c"
  by (auto simp: newline_def)

lemma dec_int_no_blank: "CHR '' '' \<notin> set (dec_int z)" "newline \<notin> set (dec_int z)" "dec_int z \<noteq> []"
proof -
  have "CHR '' '' \<notin> set (dec n)" for n using dec_chars digit_not_char by metis
  moreover have "newline \<noteq> CHR ''-''" by simp
  ultimately show "CHR '' '' \<notin> set (dec_int z)" "newline \<notin> set (dec_int z)" "dec_int z \<noteq> []"
    using dec_no_sep by (auto simp: dec_int_def)
qed

lemma undec_dec_int: "undec_int (dec_int z) = z"
proof (cases "z < 0")
  case True
  then show ?thesis by (simp add: dec_int_def undec_int_def undec_dec)
next
  case False
  obtain c cs where c: "dec (nat z) = c # cs" by (metis dec_not_Nil neq_Nil_conv)
  then have "c \<noteq> CHR ''-''" using dec_chars [of c "nat z"] digit_not_char by auto
  then show ?thesis using False c undec_dec [of "nat z"] by (simp add: dec_int_def undec_int_def)
qed

lemma words_blanks: "words (replicate n CHR '' '' @ s) = words s"
  by (induction n) (simp_all add: words_def)

lemma words_word: "CHR '' '' \<notin> set w \<Longrightarrow> w \<noteq> [] \<Longrightarrow> words (w @ CHR '' '' # s) = w # words s"
  by (simp add: words_def split_on_sep)

lemma words_end: "CHR '' '' \<notin> set w \<Longrightarrow> w \<noteq> [] \<Longrightarrow> words w = [w]"
  by (simp add: words_def split_on_last)

end
