(* ===== verification/Consumers.thy ===== *)
theory Consumers
  imports Book_Builder Text_Output
begin

text \<open>
  The event consumers (\<^verbatim>\<open>include/mdp/consumers.hpp\<close>, \<^verbatim>\<open>src/consumers.cpp\<close>): the BBO and
  trade tape text logs, and the aggregation of trades into time and volume bars that are
  written as 52-byte records; and the reader of those records in \<^verbatim>\<open>python/research.py\<close>.

  An output stream is its state (\<open>False\<close> when the file could not be opened) and the
  data written to it so far; writing to a good stream succeeds.
\<close>

section \<open>Events and streams\<close>

datatype EventKind = Tick | TradeEvt

record TradeEvent =
  te_symbol_id :: u32
  te_price :: u32
  te_qty :: u32
  te_side :: Side
  te_seq :: u64
  te_ts_ns :: u64
  te_trade_id :: u64

record PipelineEvent =
  pe_kind :: EventKind
  pe_tick :: NormalizedTick
  pe_trade :: TradeEvent

definition init_TradeEvent :: TradeEvent where
  "init_TradeEvent = \<lparr>te_symbol_id = 0, te_price = 0, te_qty = 0, te_side = Buy, te_seq = 0,
     te_ts_ns = 0, te_trade_id = 0\<rparr>"

definition init_PipelineEvent :: PipelineEvent where
  "init_PipelineEvent = \<lparr>pe_kind = Tick, pe_tick = init_NormalizedTick, pe_trade = init_TradeEvent\<rparr>"

record 'c ofstream =
  os_good :: bool
  os_data :: "'c list"

definition write_stream :: "'c list \<Rightarrow> 'c ofstream \<Rightarrow> 'c ofstream" where
  "write_stream xs out = (if os_good out then out\<lparr>os_data := os_data out @ xs\<rparr> else out)"

section \<open>Text logs\<close>

fun csv_line :: "string list \<Rightarrow> string" where
  "csv_line [] = [char_of (10 :: nat)]"
| "csv_line [f] = f @ [char_of (10 :: nat)]"
| "csv_line (f # g # fs) = f @ CHR '','' # csv_line (g # fs)"

record BboPublisher =
  bp_out :: "char ofstream"
  bp_count :: u64

definition bbo_fields :: "NormalizedTick \<Rightarrow> nat list" where
  "bbo_fields t = [unat (nt_ts_ns t), unat (nt_symbol_id t), unat (nt_bid_price t), unat (nt_bid_qty t),
     unat (nt_ask_price t), unat (nt_ask_qty t), unat (nt_seq t)]"

definition bbo_on_tick :: "BboPublisher \<Rightarrow> NormalizedTick \<Rightarrow> BboPublisher" where
  "bbo_on_tick b tick =
     (if \<not> os_good (bp_out b) then b
      else b\<lparr>bp_out := write_stream (csv_line (map dec (bbo_fields tick))) (bp_out b),
             bp_count := bp_count b + 1\<rparr>)"

record TradeTapeWriter =
  tw_out :: "char ofstream"
  tw_count :: u64

definition tape_fields :: "TradeEvent \<Rightarrow> nat list" where
  "tape_fields t = [unat (te_ts_ns t), unat (te_symbol_id t), unat (te_price t), unat (te_qty t),
     unat (u8_of_Side (te_side t)), unat (te_trade_id t), unat (te_seq t)]"

definition tape_on_trade :: "TradeTapeWriter \<Rightarrow> TradeEvent \<Rightarrow> TradeTapeWriter" where
  "tape_on_trade w trade =
     (if \<not> os_good (tw_out w) then w
      else w\<lparr>tw_out := write_stream (csv_line (map dec (tape_fields trade))) (tw_out w),
             tw_count := tw_count w + 1\<rparr>)"

section \<open>Bars\<close>

record BinaryBar =
  bar_symbol_id :: u32
  bar_start_ts_ns :: u64
  bar_end_ts_ns :: u64
  bar_open :: u32
  bar_high :: u32
  bar_low :: u32
  bar_close :: u32
  bar_volume :: u64
  bar_type :: u8
  bar_pad :: bytes

definition BinaryBar_bytes :: "BinaryBar \<Rightarrow> bytes" where
  "BinaryBar_bytes b = to_le 4 (bar_symbol_id b) @ to_le 8 (bar_start_ts_ns b) @ to_le 8 (bar_end_ts_ns b) @
     to_le 4 (bar_open b) @ to_le 4 (bar_high b) @ to_le 4 (bar_low b) @ to_le 4 (bar_close b) @
     to_le 8 (bar_volume b) @ [bar_type b] @ bar_pad b"

record Acc =
  ac_active :: bool
  ac_start_ts :: u64
  ac_end_ts :: u64
  ac_open :: u32
  ac_high :: u32
  ac_low :: u32
  ac_close :: u32
  ac_volume :: u64

definition init_Acc :: Acc where
  "init_Acc = \<lparr>ac_active = False, ac_start_ts = 0, ac_end_ts = 0, ac_open = 0, ac_high = 0, ac_low = 0,
     ac_close = 0, ac_volume = 0\<rparr>"

record BarAggregator =
  ba_out :: "u8 ofstream"
  ba_time_bar_ns :: u64
  ba_volume_bar_qty :: u64
  ba_time_acc :: "Acc array"
  ba_vol_acc :: "Acc array"
  ba_time_bars :: u64
  ba_volume_bars :: u64

definition init_BarAggregator :: "bool \<Rightarrow> u64 \<Rightarrow> u64 \<Rightarrow> BarAggregator" where
  "init_BarAggregator opened time_bar_ns volume_bar_qty =
     \<lparr>ba_out = \<lparr>os_good = opened, os_data = []\<rparr>, ba_time_bar_ns = time_bar_ns,
      ba_volume_bar_qty = volume_bar_qty, ba_time_acc = (\<lambda>_. init_Acc), ba_vol_acc = (\<lambda>_. init_Acc),
      ba_time_bars = 0, ba_volume_bars = 0\<rparr>"

definition make_bar :: "u32 \<Rightarrow> Acc \<Rightarrow> u8 \<Rightarrow> BinaryBar" where
  "make_bar symbol_id a type =
     \<lparr>bar_symbol_id = symbol_id, bar_start_ts_ns = ac_start_ts a, bar_end_ts_ns = ac_end_ts a,
      bar_open = ac_open a, bar_high = ac_high a, bar_low = ac_low a, bar_close = ac_close a,
      bar_volume = ac_volume a, bar_type = type, bar_pad = replicate 7 0\<rparr>"

definition write_bar :: "BarAggregator \<Rightarrow> u32 \<Rightarrow> Acc \<Rightarrow> u8 \<Rightarrow> BarAggregator" where
  "write_bar g symbol_id a type =
     (let g = g\<lparr>ba_out := write_stream (BinaryBar_bytes (make_bar symbol_id a type)) (ba_out g)\<rparr> in
      if type = 0 then g\<lparr>ba_time_bars := ba_time_bars g + 1\<rparr>
      else g\<lparr>ba_volume_bars := ba_volume_bars g + 1\<rparr>)"

text \<open>Opening an accumulator with a trade, and adding a trade to an open one.\<close>

definition open_acc :: "TradeEvent \<Rightarrow> Acc" where
  "open_acc trade = \<lparr>ac_active = True, ac_start_ts = te_ts_ns trade, ac_end_ts = te_ts_ns trade,
     ac_open = te_price trade, ac_high = te_price trade, ac_low = te_price trade,
     ac_close = te_price trade, ac_volume = ucast (te_qty trade)\<rparr>"

definition extend_acc :: "Acc \<Rightarrow> TradeEvent \<Rightarrow> Acc" where
  "extend_acc a trade =
     a\<lparr>ac_end_ts := te_ts_ns trade,
       ac_high := (if te_price trade > ac_high a then te_price trade else ac_high a),
       ac_low := (if te_price trade < ac_low a then te_price trade else ac_low a),
       ac_close := te_price trade,
       ac_volume := ac_volume a + ucast (te_qty trade)\<rparr>"

definition set_time_acc :: "BarAggregator \<Rightarrow> u32 \<Rightarrow> Acc \<Rightarrow> BarAggregator" where
  "set_time_acc g symbol_id a = g\<lparr>ba_time_acc := (ba_time_acc g)(unat symbol_id := a)\<rparr>"

definition set_vol_acc :: "BarAggregator \<Rightarrow> u32 \<Rightarrow> Acc \<Rightarrow> BarAggregator" where
  "set_vol_acc g symbol_id a = g\<lparr>ba_vol_acc := (ba_vol_acc g)(unat symbol_id := a)\<rparr>"

definition on_time :: "BarAggregator \<Rightarrow> u32 \<Rightarrow> TradeEvent \<Rightarrow> BarAggregator" where
  "on_time g symbol_id trade =
     (let a = ba_time_acc g (unat symbol_id) in
      if \<not> ac_active a then set_time_acc g symbol_id (open_acc trade)
      else
        let a = extend_acc a trade;
            g = set_time_acc g symbol_id a
        in if te_ts_ns trade - ac_start_ts a \<ge> ba_time_bar_ns g
           then set_time_acc (write_bar g symbol_id a 0) symbol_id init_Acc
           else g)"

text \<open>
  The loop of \<^verbatim>\<open>on_volume\<close>. It need not end: with a bar quantity of 0 the volume never gets
  smaller. Not returning is the value \<^term>\<open>None\<close>.
\<close>

partial_function (option) volume_loop :: "u32 \<Rightarrow> TradeEvent \<Rightarrow> BarAggregator \<Rightarrow> BarAggregator option" where
  "volume_loop symbol_id trade g =
     (let a = ba_vol_acc g (unat symbol_id) in
      if ac_active a \<and> ac_volume a \<ge> ba_volume_bar_qty g then
        let emitted = a\<lparr>ac_volume := ba_volume_bar_qty g\<rparr>;
            g = write_bar g symbol_id emitted 1;
            leftover = ac_volume a - ba_volume_bar_qty g
        in if leftover = 0 then Some (set_vol_acc g symbol_id init_Acc)
           else volume_loop symbol_id trade (set_vol_acc g symbol_id
             (a\<lparr>ac_volume := leftover, ac_start_ts := te_ts_ns trade, ac_open := te_price trade,
                ac_high := te_price trade, ac_low := te_price trade, ac_close := te_price trade\<rparr>))
      else Some g)"

definition on_volume :: "BarAggregator \<Rightarrow> u32 \<Rightarrow> TradeEvent \<Rightarrow> BarAggregator option" where
  "on_volume g symbol_id trade =
     (let a = ba_vol_acc g (unat symbol_id);
          a = (if \<not> ac_active a then open_acc trade else extend_acc a trade)
      in volume_loop symbol_id trade (set_vol_acc g symbol_id a))"

definition bars_on_trade :: "BarAggregator \<Rightarrow> TradeEvent \<Rightarrow> BarAggregator option" where
  "bars_on_trade g trade =
     (if te_symbol_id trade \<ge> kMaxSymbols then Some g
      else on_volume (on_time g (te_symbol_id trade) trade) (te_symbol_id trade) trade)"

definition flush_symbol :: "BarAggregator \<Rightarrow> u32 \<Rightarrow> BarAggregator" where
  "flush_symbol g s =
     (let g = (if ac_active (ba_time_acc g (unat s))
               then set_time_acc (write_bar g s (ba_time_acc g (unat s)) 0) s init_Acc else g)
      in if ac_active (ba_vol_acc g (unat s)) \<and> ac_volume (ba_vol_acc g (unat s)) > 0
         then set_vol_acc (write_bar g s (ba_vol_acc g (unat s)) 1) s init_Acc else g)"

definition flush_all :: "BarAggregator \<Rightarrow> BarAggregator" where
  "flush_all g = foldl flush_symbol g (map of_nat [0..<unat kMaxSymbols])"

section \<open>The reader\<close>

text \<open>
  \<^verbatim>\<open>BAR_STRUCT.unpack_from\<close> with the format \<^verbatim>\<open><IQQIIIIQB7x\<close>: little-endian, unaligned,
  seven padding bytes that are skipped. \<^term>\<open>None\<close> is the \<^verbatim>\<open>ValueError\<close>.
\<close>

record bar_fields =
  bf_symbol_id :: nat
  bf_start_ts_ns :: nat
  bf_end_ts_ns :: nat
  bf_open :: nat
  bf_high :: nat
  bf_low :: nat
  bf_close :: nat
  bf_volume :: nat
  bf_bar_type :: nat

definition field_nat :: "nat \<Rightarrow> nat \<Rightarrow> bytes \<Rightarrow> nat" where
  "field_nat off n data = le_value (take n (drop off data))"

definition unpack_bar :: "bytes \<Rightarrow> bar_fields" where
  "unpack_bar d = \<lparr>bf_symbol_id = field_nat 0 4 d, bf_start_ts_ns = field_nat 4 8 d,
     bf_end_ts_ns = field_nat 12 8 d, bf_open = field_nat 20 4 d, bf_high = field_nat 24 4 d,
     bf_low = field_nat 28 4 d, bf_close = field_nat 32 4 d, bf_volume = field_nat 36 8 d,
     bf_bar_type = field_nat 44 1 d\<rparr>"

fun unpack_bars :: "nat \<Rightarrow> bytes \<Rightarrow> bar_fields list" where
  "unpack_bars 0 d = []"
| "unpack_bars (Suc n) d = unpack_bar d # unpack_bars n (drop 52 d)"

definition read_bars :: "bytes \<Rightarrow> bar_fields list option" where
  "read_bars data = (if length data mod 52 \<noteq> 0 then None else Some (unpack_bars (length data div 52) data))"

section \<open>Reading the text logs back\<close>

text \<open>Lines end in a newline; fields are separated by commas.\<close>

definition parse_log :: "string \<Rightarrow> nat list list" where
  "parse_log s = map (map undec \<circ> split_on CHR '','') (butlast (split_on newline s))"

fun csv_body :: "string list \<Rightarrow> string" where
  "csv_body [] = []"
| "csv_body [f] = f"
| "csv_body (f # g # fs) = f @ CHR '','' # csv_body (g # fs)"

lemma csv_line_body: "csv_line fs = csv_body fs @ [newline]"
  by (induction fs rule: csv_line.induct) (simp_all add: newline_def)

lemma split_csv_body:
  "fs \<noteq> [] \<Longrightarrow> \<forall>f \<in> set fs. CHR '','' \<notin> set f \<Longrightarrow> split_on CHR '','' (csv_body fs) = fs"
  by (induction fs rule: csv_body.induct) (simp_all add: split_on_sep split_on_last)

lemma newline_not_comma: "newline \<noteq> CHR '',''"
proof
  assume "newline = CHR '',''"
  then have "(of_char newline :: nat) = of_char CHR '',''" by simp
  then show False by (simp add: newline_def)
qed

lemma csv_body_newline: "\<forall>f \<in> set fs. newline \<notin> set f \<Longrightarrow> newline \<notin> set (csv_body fs)"
  by (induction fs rule: csv_body.induct) (auto simp: newline_not_comma)

lemma parse_log_lines:
  assumes "\<forall>r \<in> set rows. r \<noteq> []"
  shows "parse_log (concat (map (csv_line \<circ> map dec) rows)) = rows"
proof -
  let ?ws = "map (csv_body \<circ> map dec) rows"
  have e: "concat (map (csv_line \<circ> map dec) rows) = concat (map (\<lambda>w. w @ [newline]) ?ws)"
    by (simp add: csv_line_body comp_def)
  have "\<forall>w \<in> set ?ws. newline \<notin> set w" by (auto intro!: csv_body_newline simp: dec_no_sep)
  then have "butlast (split_on newline (concat (map (csv_line \<circ> map dec) rows))) = ?ws"
    unfolding e by (simp only: split_on_lines butlast_snoc)
  moreover have "map undec (split_on CHR '','' (csv_body (map dec r))) = r" if "r \<in> set rows" for r
    using assms that by (subst split_csv_body) (auto simp: dec_no_sep undec_dec comp_def)
  ultimately show ?thesis by (simp add: parse_log_def map_idI)
qed

definition open_stream :: "'c ofstream" where
  "open_stream = \<lparr>os_good = True, os_data = []\<rparr>"

lemma bbo_run:
  "bp_out b = \<lparr>os_good = True, os_data = d\<rparr> \<Longrightarrow>
   foldl bbo_on_tick b ts = \<lparr>bp_out = \<lparr>os_good = True, os_data = d @ concat (map (csv_line \<circ> map dec) (map bbo_fields ts))\<rparr>,
     bp_count = bp_count b + of_nat (length ts)\<rparr>"
proof (induction ts arbitrary: b d)
  case Nil
  then show ?case by (cases b) simp
next
  case (Cons t ts)
  then show ?case by (simp add: bbo_on_tick_def write_stream_def)
qed

lemma tape_run:
  "tw_out b = \<lparr>os_good = True, os_data = d\<rparr> \<Longrightarrow>
   foldl tape_on_trade b ts = \<lparr>tw_out = \<lparr>os_good = True, os_data = d @ concat (map (csv_line \<circ> map dec) (map tape_fields ts))\<rparr>,
     tw_count = tw_count b + of_nat (length ts)\<rparr>"
proof (induction ts arbitrary: b d)
  case Nil
  then show ?case by (cases b) simp
next
  case (Cons t ts)
  then show ?case by (simp add: tape_on_trade_def write_stream_def)
qed

text \<open>Reading back what was written to a freshly opened stream.\<close>

lemma parse_bbo_log:
  assumes "bp_out b = open_stream"
  shows "parse_log (os_data (bp_out (foldl bbo_on_tick b ticks))) = map bbo_fields ticks"
proof -
  have "\<forall>r \<in> set (map bbo_fields ticks). r \<noteq> []" by (auto simp: bbo_fields_def)
  then show ?thesis using parse_log_lines bbo_run [of b "[]" ticks] assms by (simp add: open_stream_def del: map_map)
qed

lemma parse_tape_log:
  assumes "tw_out b = open_stream"
  shows "parse_log (os_data (tw_out (foldl tape_on_trade b trades))) = map tape_fields trades"
proof -
  have "\<forall>r \<in> set (map tape_fields trades). r \<noteq> []" by (auto simp: tape_fields_def)
  then show ?thesis using parse_log_lines tape_run [of b "[]" trades] assms by (simp add: open_stream_def del: map_map)
qed

text \<open>
  The text logs can be read back: splitting the BBO log (the trade tape) into lines and
  comma-separated decimal fields gives, for every sequence of ticks (trades), the seven
  logged values of each in order, and the counter is their number modulo \<open>2 ^ 64\<close>. On a
  stream that could not be opened nothing is written or counted.
\<close>

theorem text_logs_readable:
  "parse_log (os_data (bp_out (foldl bbo_on_tick \<lparr>bp_out = open_stream, bp_count = 0\<rparr> ticks))) =
     map bbo_fields ticks \<and>
   bp_count (foldl bbo_on_tick \<lparr>bp_out = open_stream, bp_count = 0\<rparr> ticks) = of_nat (length ticks) \<and>
   parse_log (os_data (tw_out (foldl tape_on_trade \<lparr>tw_out = open_stream, tw_count = 0\<rparr> trades))) =
     map tape_fields trades \<and>
   tw_count (foldl tape_on_trade \<lparr>tw_out = open_stream, tw_count = 0\<rparr> trades) = of_nat (length trades) \<and>
   bbo_on_tick \<lparr>bp_out = \<lparr>os_good = False, os_data = d\<rparr>, bp_count = n\<rparr> tick =
     \<lparr>bp_out = \<lparr>os_good = False, os_data = d\<rparr>, bp_count = n\<rparr>"
  using bbo_run [of "\<lparr>bp_out = open_stream, bp_count = 0\<rparr>" "[]" ticks]
    tape_run [of "\<lparr>tw_out = open_stream, tw_count = 0\<rparr>" "[]" trades]
  by (simp add: parse_bbo_log parse_tape_log) (simp add: open_stream_def bbo_on_tick_def)

section \<open>Bar records\<close>

definition fields_of_bar :: "BinaryBar \<Rightarrow> bar_fields" where
  "fields_of_bar b = \<lparr>bf_symbol_id = unat (bar_symbol_id b), bf_start_ts_ns = unat (bar_start_ts_ns b),
     bf_end_ts_ns = unat (bar_end_ts_ns b), bf_open = unat (bar_open b), bf_high = unat (bar_high b),
     bf_low = unat (bar_low b), bf_close = unat (bar_close b), bf_volume = unat (bar_volume b),
     bf_bar_type = unat (bar_type b)\<rparr>"

lemma le_value_to_le: "8 * n = LENGTH('a) \<Longrightarrow> le_value (to_le n (w :: 'a::len word)) = unat w"
  using unat_of_le [of "to_le n w", where 'a = 'a] of_le_to_le [of n w] by simp

lemma length_BinaryBar_bytes: "length (BinaryBar_bytes b) = 45 + length (bar_pad b)"
  by (simp add: BinaryBar_bytes_def)

lemma unpack_bar_bytes: "unpack_bar (BinaryBar_bytes b @ rest) = fields_of_bar b"
  by (simp add: unpack_bar_def field_nat_def BinaryBar_bytes_def fields_of_bar_def le_value_to_le)

lemma unpack_bars_concat:
  "\<forall>b \<in> set bs. length (bar_pad b) = 7 \<Longrightarrow>
   unpack_bars (length bs) (concat (map BinaryBar_bytes bs)) = map fields_of_bar bs"
proof (induction bs)
  case (Cons b bs)
  then have "length (BinaryBar_bytes b) = 52" by (simp add: length_BinaryBar_bytes)
  then show ?case using Cons by (simp add: unpack_bar_bytes)
qed simp

lemma read_bars_concat:
  assumes "\<forall>b \<in> set bs. length (bar_pad b) = 7"
  shows "read_bars (concat (map BinaryBar_bytes bs)) = Some (map fields_of_bar bs)"
proof -
  have "length (concat (map BinaryBar_bytes bs)) = 52 * length bs"
    using assms by (induction bs) (simp_all add: length_BinaryBar_bytes)
  then show ?thesis using unpack_bars_concat [OF assms] by (simp add: read_bars_def)
qed

section \<open>What the aggregator keeps\<close>

text \<open>
  \<open>bar_log g bars\<close>: the file holds exactly the records \<open>bars\<close>, and the two counters count
  them by type.
\<close>

definition bar_log :: "BarAggregator \<Rightarrow> BinaryBar list \<Rightarrow> bool" where
  "bar_log g bars \<longleftrightarrow> ba_out g = \<lparr>os_good = True, os_data = concat (map BinaryBar_bytes bars)\<rparr> \<and>
     (\<forall>b \<in> set bars. length (bar_pad b) = 7) \<and>
     ba_time_bars g = of_nat (length (filter (\<lambda>b. bar_type b = 0) bars)) \<and>
     ba_volume_bars g = of_nat (length (filter (\<lambda>b. bar_type b \<noteq> 0) bars))"

definition bar_sum :: "u8 \<Rightarrow> u32 \<Rightarrow> BinaryBar list \<Rightarrow> u64" where
  "bar_sum ty s bars = sum_list (map bar_volume (filter (\<lambda>b. bar_type b = ty \<and> bar_symbol_id b = s) bars))"

definition pending :: "Acc \<Rightarrow> u64" where
  "pending a = (if ac_active a then ac_volume a else 0)"

definition traded :: "u32 \<Rightarrow> TradeEvent list \<Rightarrow> u64" where
  "traded s ts = sum_list (map (\<lambda>t. ucast (te_qty t)) (filter (\<lambda>t. te_symbol_id t = s) ts))"

definition ohlc_acc :: "Acc \<Rightarrow> bool" where
  "ohlc_acc a \<longleftrightarrow> ac_low a \<le> ac_open a \<and> ac_open a \<le> ac_high a \<and> ac_low a \<le> ac_close a \<and> ac_close a \<le> ac_high a"

definition ohlc_bar :: "BinaryBar \<Rightarrow> bool" where
  "ohlc_bar b \<longleftrightarrow> bar_low b \<le> bar_open b \<and> bar_open b \<le> bar_high b \<and> bar_low b \<le> bar_close b \<and> bar_close b \<le> bar_high b"

text \<open>
  For every symbol, what has been written to bars of a type and what is pending in the
  accumulator add up to the traded volume (modulo \<open>2 ^ 64\<close>, like the code's counters).
\<close>

definition agg_inv :: "BarAggregator \<Rightarrow> BinaryBar list \<Rightarrow> TradeEvent list \<Rightarrow> bool" where
  "agg_inv g bars ts \<longleftrightarrow> bar_log g bars \<and>
     (\<forall>s < kMaxSymbols. bar_sum 0 s bars + pending (ba_time_acc g (unat s)) = traded s ts) \<and>
     (\<forall>s < kMaxSymbols. bar_sum 1 s bars + pending (ba_vol_acc g (unat s)) = traded s ts) \<and>
     (\<forall>b \<in> set bars. ohlc_bar b) \<and>
     (\<forall>i. ohlc_acc (ba_time_acc g i) \<and> ohlc_acc (ba_vol_acc g i))"

lemma agg_invD:
  assumes "agg_inv g bars ts"
  shows "bar_log g bars"
    "s < kMaxSymbols \<Longrightarrow> bar_sum 0 s bars + pending (ba_time_acc g (unat s)) = traded s ts"
    "s < kMaxSymbols \<Longrightarrow> bar_sum 1 s bars + pending (ba_vol_acc g (unat s)) = traded s ts"
    "\<forall>b \<in> set bars. ohlc_bar b" "ohlc_acc (ba_time_acc g i)" "ohlc_acc (ba_vol_acc g i)"
  using assms unfolding agg_inv_def by blast+

lemma bar_sum_append [simp]: "bar_sum ty s (xs @ ys) = bar_sum ty s xs + bar_sum ty s ys"
  by (simp add: bar_sum_def)

lemma bar_sum_single: "bar_sum ty s [b] = (if bar_type b = ty \<and> bar_symbol_id b = s then bar_volume b else 0)"
  by (simp add: bar_sum_def)

lemma bar_sum_Nil [simp]: "bar_sum ty s [] = 0"
  by (simp add: bar_sum_def)

lemma traded_snoc: "traded s (ts @ [t]) = traded s ts + (if te_symbol_id t = s then ucast (te_qty t) else 0)"
  by (simp add: traded_def)

lemma make_bar_fields [simp]:
  "bar_symbol_id (make_bar s a ty) = s" "bar_type (make_bar s a ty) = ty" "bar_volume (make_bar s a ty) = ac_volume a"
  "length (bar_pad (make_bar s a ty)) = 7" "ohlc_bar (make_bar s a ty) = ohlc_acc a"
  by (simp_all add: make_bar_def ohlc_bar_def ohlc_acc_def)

lemma write_bar_log: "bar_log g bars \<Longrightarrow> bar_log (write_bar g s a ty) (bars @ [make_bar s a ty])"
  by (auto simp: bar_log_def write_bar_def write_stream_def Let_def)

lemma write_bar_fields [simp]:
  "ba_time_acc (write_bar g s a ty) = ba_time_acc g" "ba_vol_acc (write_bar g s a ty) = ba_vol_acc g"
  "ba_time_bar_ns (write_bar g s a ty) = ba_time_bar_ns g" "ba_volume_bar_qty (write_bar g s a ty) = ba_volume_bar_qty g"
  by (simp_all add: write_bar_def Let_def)

lemma set_acc_fields [simp]:
  "ba_time_acc (set_time_acc g s a) = (ba_time_acc g)(unat s := a)" "ba_vol_acc (set_time_acc g s a) = ba_vol_acc g"
  "ba_vol_acc (set_vol_acc g s a) = (ba_vol_acc g)(unat s := a)" "ba_time_acc (set_vol_acc g s a) = ba_time_acc g"
  "ba_time_bar_ns (set_time_acc g s a) = ba_time_bar_ns g" "ba_time_bar_ns (set_vol_acc g s a) = ba_time_bar_ns g"
  "ba_volume_bar_qty (set_time_acc g s a) = ba_volume_bar_qty g" "ba_volume_bar_qty (set_vol_acc g s a) = ba_volume_bar_qty g"
  by (simp_all add: set_time_acc_def set_vol_acc_def)

lemma bar_log_set_acc [simp]:
  "bar_log (set_time_acc g s a) bars = bar_log g bars" "bar_log (set_vol_acc g s a) bars = bar_log g bars"
  by (simp_all add: bar_log_def set_time_acc_def set_vol_acc_def)

lemma pending_simps [simp]:
  "pending init_Acc = 0" "pending (open_acc t) = ucast (te_qty t)"
  "ac_active a \<Longrightarrow> pending (extend_acc a t) = pending a + ucast (te_qty t)"
  by (simp_all add: pending_def init_Acc_def open_acc_def extend_acc_def)

lemma ohlc_simps [simp]: "ohlc_acc init_Acc" "ohlc_acc (open_acc t)"
  by (simp_all add: ohlc_acc_def init_Acc_def open_acc_def)

lemma ohlc_extend: "ohlc_acc a \<Longrightarrow> ohlc_acc (extend_acc a t)"
  unfolding ohlc_acc_def extend_acc_def by (auto simp: not_less)

lemma unat_inject: "unat a = unat b \<longleftrightarrow> a = (b :: u32)"
  using unsigned_word_eqI by blast

section \<open>Time bars\<close>

text \<open>The part of the invariant that a trade on symbol \<open>s\<close> changes, for either kind of bars.\<close>

lemma on_time_inv:
  assumes inv: "agg_inv g bars ts" and s: "te_symbol_id t < kMaxSymbols"
  defines "g' \<equiv> on_time g (te_symbol_id t) t"
  obtains new where "bar_log g' (bars @ new)" "\<forall>b \<in> set new. bar_type b = 0 \<and> ohlc_bar b"
    "\<And>s. s < kMaxSymbols \<Longrightarrow> bar_sum 0 s (bars @ new) + pending (ba_time_acc g' (unat s)) = traded s (ts @ [t])"
    "\<And>i. ohlc_acc (ba_time_acc g' i)" "ba_vol_acc g' = ba_vol_acc g"
    "ba_volume_bar_qty g' = ba_volume_bar_qty g" "ba_time_bar_ns g' = ba_time_bar_ns g"
proof -
  let ?s = "te_symbol_id t" and ?a = "ba_time_acc g (unat (te_symbol_id t))"
  note i = agg_invD [OF inv]
  let ?e = "extend_acc ?a t"
  consider (opens) "\<not> ac_active ?a" | (extends) "ac_active ?a" "\<not> te_ts_ns t - ac_start_ts ?e \<ge> ba_time_bar_ns g"
    | (closes) "ac_active ?a" "te_ts_ns t - ac_start_ts ?e \<ge> ba_time_bar_ns g" by blast
  then show thesis
  proof cases
    case opens
    then have g': "g' = set_time_acc g ?s (open_acc t)" by (simp add: g'_def on_time_def Let_def)
    have p: "pending ?a = 0" using opens by (simp add: pending_def)
    show thesis
    proof (rule that [of "[]"])
      show "bar_sum 0 s (bars @ []) + pending (ba_time_acc g' (unat s)) = traded s (ts @ [t])" if "s < kMaxSymbols" for s
        using i(2) [OF that] p unfolding g' by (auto simp: traded_snoc unat_inject)
    qed (use i(1,5) in \<open>simp_all add: g'\<close>)
  next
    case extends
    then have g': "g' = set_time_acc g ?s ?e" by (simp add: g'_def on_time_def Let_def)
    show thesis
    proof (rule that [of "[]"])
      show "bar_sum 0 s (bars @ []) + pending (ba_time_acc g' (unat s)) = traded s (ts @ [t])" if "s < kMaxSymbols" for s
        using i(2) [OF that] extends(1) unfolding g' by (auto simp: traded_snoc unat_inject algebra_simps)
    qed (use i(1,5) in \<open>simp_all add: g' ohlc_extend\<close>)
  next
    case closes
    then have g': "g' = set_time_acc (write_bar (set_time_acc g ?s ?e) ?s ?e 0) ?s init_Acc"
      by (simp add: g'_def on_time_def Let_def)
    have v: "ac_volume ?e = pending ?a + ucast (te_qty t)" using closes(1) by (simp add: pending_def extend_acc_def)
    show thesis
    proof (rule that [of "[make_bar ?s ?e 0]"])
      show "bar_sum 0 s (bars @ [make_bar ?s ?e 0]) + pending (ba_time_acc g' (unat s)) = traded s (ts @ [t])"
        if "s < kMaxSymbols" for s
        using i(2) [OF that] unfolding g' by (auto simp: traded_snoc unat_inject bar_sum_single v algebra_simps)
    qed (use i(1,5) in \<open>simp_all add: g' ohlc_extend write_bar_log\<close>)
  qed
qed

section \<open>Volume bars\<close>

definition vol_inv :: "BarAggregator \<Rightarrow> BinaryBar list \<Rightarrow> (u32 \<Rightarrow> u64) \<Rightarrow> bool" where
  "vol_inv g bars V \<longleftrightarrow> bar_log g bars \<and>
     (\<forall>s < kMaxSymbols. bar_sum 1 s bars + pending (ba_vol_acc g (unat s)) = V s) \<and>
     (\<forall>b \<in> set bars. ohlc_bar b) \<and> (\<forall>i. ohlc_acc (ba_vol_acc g i))"

text \<open>One turn of the loop: a bar of the full quantity is written, and what is left stays pending.\<close>

definition rest_acc :: "Acc \<Rightarrow> u64 \<Rightarrow> TradeEvent \<Rightarrow> Acc" where
  "rest_acc a v t = a\<lparr>ac_volume := v, ac_start_ts := te_ts_ns t, ac_open := te_price t,
     ac_high := te_price t, ac_low := te_price t, ac_close := te_price t\<rparr>"

lemma rest_acc_simps [simp]:
  "ac_active (rest_acc a v t) = ac_active a" "ac_volume (rest_acc a v t) = v" "ohlc_acc (rest_acc a v t)"
  by (simp_all add: rest_acc_def ohlc_acc_def)

lemma vol_inv_turn:
  assumes inv: "vol_inv g bars V" and a: "a = ba_vol_acc g (unat s)" "ac_active a"
    and v: "pending a' = ac_volume a - q" "ohlc_acc a'"
  shows "vol_inv (set_vol_acc (write_bar g s (a\<lparr>ac_volume := q\<rparr>) 1) s a') (bars @ [make_bar s (a\<lparr>ac_volume := q\<rparr>) 1]) V"
proof -
  let ?e = "a\<lparr>ac_volume := q\<rparr>"
  have oh: "ohlc_acc ?e" using inv a(1) by (simp add: vol_inv_def ohlc_acc_def)
  have "bar_sum 1 s' (bars @ [make_bar s ?e 1]) + pending (((ba_vol_acc g)(unat s := a')) (unat s')) = V s'"
    if "s' < kMaxSymbols" for s'
  proof -
    have e: "bar_sum 1 s' bars + pending (ba_vol_acc g (unat s')) = V s'" using inv that by (simp add: vol_inv_def)
    show ?thesis
    proof (cases "s' = s")
      case True
      have "pending (ba_vol_acc g (unat s)) = ac_volume a" using a by (simp add: pending_def)
      then show ?thesis using e True by (simp add: bar_sum_single v(1))
    next
      case False
      then show ?thesis using e by (simp add: bar_sum_single unat_inject)
    qed
  qed
  then show ?thesis using inv oh v(2) by (simp add: vol_inv_def write_bar_log)
qed

lemma volume_decreases:
  assumes "q \<le> v" "q \<noteq> 0"
  shows "unat (v - q) < unat (v :: u64)"
proof -
  have "0 < unat q" using assms(2) by (simp add: unat_gt_0)
  then show ?thesis using assms(1) by (simp add: unat_sub word_le_nat_alt)
qed

text \<open>The loop returns for a positive quantity, whether the file is open or not.\<close>

lemma volume_loop_returns:
  assumes "ba_volume_bar_qty g = q" "q \<noteq> 0"
  shows "\<exists>g'. volume_loop s t g = Some g' \<and> ba_volume_bar_qty g' = q"
  using assms(1)
proof (induction "unat (ac_volume (ba_vol_acc g (unat s)))" arbitrary: g rule: less_induct)
  case less
  let ?a = "ba_vol_acc g (unat s)"
  let ?w = "write_bar g s (?a\<lparr>ac_volume := q\<rparr>) 1"
  let ?g = "set_vol_acc ?w s (rest_acc ?a (ac_volume ?a - q) t)"
  show ?case
  proof (cases "ac_active ?a \<and> ac_volume ?a \<ge> q \<and> ac_volume ?a - q \<noteq> 0")
    case True
    then have "volume_loop s t g = volume_loop s t ?g"
      using less.prems by (subst volume_loop.simps) (simp add: Let_def rest_acc_def)
    moreover have "unat (ac_volume ?a - q) < unat (ac_volume ?a)" using True assms(2) by (simp add: volume_decreases)
    ultimately show ?thesis using less.hyps [of ?g] less.prems by simp
  next
    case False
    then show ?thesis using less.prems by (subst volume_loop.simps) (auto simp: Let_def)
  qed
qed

lemma volume_loop_result:
  assumes q: "ba_volume_bar_qty g = q" "q \<noteq> 0" and inv: "vol_inv g bars V"
  shows "\<exists>g' new. volume_loop s t g = Some g' \<and> vol_inv g' (bars @ new) V \<and>
    (\<forall>b \<in> set new. bar_type b = 1 \<and> bar_volume b = q) \<and> ba_time_acc g' = ba_time_acc g \<and>
    ba_volume_bar_qty g' = q \<and> ba_time_bar_ns g' = ba_time_bar_ns g"
  using q(1) inv
proof (induction "unat (ac_volume (ba_vol_acc g (unat s)))" arbitrary: g bars rule: less_induct)
  case less
  let ?a = "ba_vol_acc g (unat s)" and ?e = "(ba_vol_acc g (unat s))\<lparr>ac_volume := q\<rparr>"
  let ?w = "write_bar g s ?e 1" and ?b = "make_bar s ?e 1"
  show ?case
  proof (cases "ac_active ?a \<and> ac_volume ?a \<ge> q")
    case False
    then have "volume_loop s t g = Some g" using less.prems(1) by (subst volume_loop.simps) (auto simp: Let_def)
    then show ?thesis using less.prems by (intro exI [of _ g] exI [of _ "[]"]) simp
  next
    case True
    show ?thesis
    proof (cases "ac_volume ?a - q = 0")
      case full: True
      then have "volume_loop s t g = Some (set_vol_acc ?w s init_Acc)"
        using True less.prems(1) by (subst volume_loop.simps) (simp add: Let_def)
      moreover have "vol_inv (set_vol_acc ?w s init_Acc) (bars @ [?b]) V"
        using vol_inv_turn [OF less.prems(2) refl, of s init_Acc q] True full by simp
      ultimately show ?thesis using less.prems(1)
        by (intro exI [of _ "set_vol_acc ?w s init_Acc"] exI [of _ "[?b]"]) simp
    next
      case left: False
      let ?r = "rest_acc ?a (ac_volume ?a - q) t"
      let ?g = "set_vol_acc ?w s ?r"
      have step: "volume_loop s t g = volume_loop s t ?g"
        using True left less.prems(1) by (subst volume_loop.simps) (simp add: Let_def rest_acc_def)
      have "unat (ac_volume ?a - q) < unat (ac_volume ?a)" using True q(2) by (simp add: volume_decreases)
      moreover have "vol_inv ?g (bars @ [?b]) V"
        using vol_inv_turn [OF less.prems(2) refl, of s ?r q] True by (simp add: pending_def)
      ultimately obtain g' new where "volume_loop s t ?g = Some g'" "vol_inv g' ((bars @ [?b]) @ new) V"
        "\<forall>b \<in> set new. bar_type b = 1 \<and> bar_volume b = q" "ba_time_acc g' = ba_time_acc ?g"
        "ba_volume_bar_qty g' = q" "ba_time_bar_ns g' = ba_time_bar_ns ?g"
        using less.hyps [of ?g "bars @ [?b]"] less.prems(1) by auto
      then show ?thesis using step by (intro exI [of _ g'] exI [of _ "?b # new"]) simp
    qed
  qed
qed

lemma bar_sum_other: "\<forall>b \<in> set bs. bar_type b \<noteq> ty \<Longrightarrow> bar_sum ty s bs = 0"
  by (induction bs) (auto simp: bar_sum_def)

lemma bars_on_trade_inv:
  assumes inv: "agg_inv g bars ts" and q: "ba_volume_bar_qty g \<noteq> 0"
  shows "\<exists>g' new. bars_on_trade g t = Some g' \<and> agg_inv g' (bars @ new) (ts @ [t]) \<and>
    (\<forall>b \<in> set new. bar_type b = 1 \<longrightarrow> bar_volume b = ba_volume_bar_qty g) \<and>
    ba_volume_bar_qty g' = ba_volume_bar_qty g \<and> ba_time_bar_ns g' = ba_time_bar_ns g"
proof (cases "te_symbol_id t < kMaxSymbols")
  case False
  then have "bars_on_trade g t = Some g" by (simp add: bars_on_trade_def not_less)
  moreover have "agg_inv g bars (ts @ [t])"
    using inv False unfolding agg_inv_def by (auto simp: traded_snoc)
  ultimately show ?thesis by (intro exI [of _ g] exI [of _ "[]"]) simp
next
  case True
  let ?s = "te_symbol_id t" and ?g = "on_time g (te_symbol_id t) t"
  note i = agg_invD [OF inv]
  obtain new where n: "bar_log ?g (bars @ new)" "\<forall>b \<in> set new. bar_type b = 0 \<and> ohlc_bar b"
    "\<And>s. s < kMaxSymbols \<Longrightarrow> bar_sum 0 s (bars @ new) + pending (ba_time_acc ?g (unat s)) = traded s (ts @ [t])"
    "\<And>i. ohlc_acc (ba_time_acc ?g i)" "ba_vol_acc ?g = ba_vol_acc g"
    "ba_volume_bar_qty ?g = ba_volume_bar_qty g" "ba_time_bar_ns ?g = ba_time_bar_ns g"
    using on_time_inv [OF inv True] by metis
  let ?o = "ba_vol_acc g (unat ?s)"
  let ?a = "if \<not> ac_active ?o then open_acc t else extend_acc ?o t"
  let ?h = "set_vol_acc ?g ?s ?a"
  have n1: "bar_sum 1 s new = 0" for s by (rule bar_sum_other) (use n(2) in auto)
  have pa: "pending ?a = pending ?o + ucast (te_qty t)" by (simp add: pending_def [of ?o])
  have "vol_inv ?h (bars @ new) (\<lambda>s. traded s (ts @ [t]))"
    unfolding vol_inv_def
  proof (intro conjI allI impI)
    fix s assume s: "s < kMaxSymbols"
    show "bar_sum 1 s (bars @ new) + pending (ba_vol_acc ?h (unat s)) = traded s (ts @ [t])"
      using i(3) [OF s] pa n(5) n1 by (auto simp: traded_snoc unat_inject algebra_simps)
  next
    fix j show "ohlc_acc (ba_vol_acc ?h j)" using i(6) n(5) by (simp add: ohlc_extend)
  qed (use n(1,2) i(4) in auto)
  from volume_loop_result [OF _ _ this, of "ba_volume_bar_qty g" ?s t] q n(6)
  obtain g' new' where v: "volume_loop ?s t ?h = Some g'"
    "vol_inv g' ((bars @ new) @ new') (\<lambda>s. traded s (ts @ [t]))"
    "\<forall>b \<in> set new'. bar_type b = 1 \<and> bar_volume b = ba_volume_bar_qty g" "ba_time_acc g' = ba_time_acc ?h"
    "ba_volume_bar_qty g' = ba_volume_bar_qty g" "ba_time_bar_ns g' = ba_time_bar_ns ?h"
    by auto
  have n0: "bar_sum 0 s new' = 0" for s by (rule bar_sum_other) (use v(3) in auto)
  have "agg_inv g' (bars @ new @ new') (ts @ [t])"
    using v(2,4) n(3,4) n0 unfolding agg_inv_def vol_inv_def by simp
  moreover have "bars_on_trade g t = Some g'"
    using True v(1) n(5) by (simp add: bars_on_trade_def on_volume_def Let_def not_le)
  ultimately show ?thesis using v(3,5,6) n(2,7)
    by (intro exI [of _ g'] exI [of _ "new @ new'"]) auto
qed

section \<open>Runs\<close>

fun bars_run :: "BarAggregator \<Rightarrow> TradeEvent list \<Rightarrow> BarAggregator option" where
  "bars_run g [] = Some g"
| "bars_run g (t # ts) = (case bars_on_trade g t of None \<Rightarrow> None | Some g' \<Rightarrow> bars_run g' ts)"

lemma bars_run_returns: "ba_volume_bar_qty g \<noteq> 0 \<Longrightarrow> bars_run g ts \<noteq> None"
proof (induction ts arbitrary: g)
  case (Cons t ts)
  let ?s = "te_symbol_id t"
  have q: "ba_volume_bar_qty (on_time g ?s t) = ba_volume_bar_qty g" by (simp add: on_time_def Let_def)
  then have "\<exists>g'. on_volume (on_time g ?s t) ?s t = Some g' \<and> ba_volume_bar_qty g' = ba_volume_bar_qty g"
    unfolding on_volume_def Let_def by (intro volume_loop_returns [OF _ Cons.prems]) simp
  then obtain g' where "bars_on_trade g t = Some g'" "ba_volume_bar_qty g' = ba_volume_bar_qty g"
    by (cases "te_symbol_id t \<ge> kMaxSymbols") (auto simp: bars_on_trade_def)
  then show ?case using Cons by simp
qed simp

lemma bars_run_inv:
  assumes "agg_inv g bars ts" "ba_volume_bar_qty g = q" "q \<noteq> 0" "\<forall>b \<in> set bars. bar_type b = 1 \<longrightarrow> bar_volume b = q"
  shows "\<exists>g' bars'. bars_run g us = Some g' \<and> agg_inv g' bars' (ts @ us) \<and>
    (\<forall>b \<in> set bars'. bar_type b = 1 \<longrightarrow> bar_volume b = q)"
  using assms
proof (induction us arbitrary: g bars ts)
  case Nil
  then show ?case by (intro exI [of _ g] exI [of _ bars]) simp
next
  case (Cons u us)
  from bars_on_trade_inv [OF Cons.prems(1), of u] Cons.prems(2,3)
  obtain g' new where g': "bars_on_trade g u = Some g'" "agg_inv g' (bars @ new) (ts @ [u])"
    "\<forall>b \<in> set new. bar_type b = 1 \<longrightarrow> bar_volume b = q" "ba_volume_bar_qty g' = q" by auto
  have "\<forall>b \<in> set (bars @ new). bar_type b = 1 \<longrightarrow> bar_volume b = q" using g'(3) Cons.prems(4) by auto
  from Cons.IH [OF g'(2,4) Cons.prems(3) this] show ?case using g'(1) by simp
qed

lemma agg_inv_init: "agg_inv (init_BarAggregator True n q) [] []"
  by (simp add: agg_inv_def bar_log_def init_BarAggregator_def traded_def)

text \<open>Flushing one symbol empties its two accumulators and leaves the others.\<close>

definition flushed :: "BarAggregator \<Rightarrow> u32 \<Rightarrow> bool" where
  "flushed g s \<longleftrightarrow> pending (ba_time_acc g (unat s)) = 0 \<and> pending (ba_vol_acc g (unat s)) = 0"

lemma agg_inv_flush_time:
  assumes "agg_inv g bars ts" "ac_active (ba_time_acc g (unat s))"
  shows "agg_inv (set_time_acc (write_bar g s (ba_time_acc g (unat s)) 0) s init_Acc)
    (bars @ [make_bar s (ba_time_acc g (unat s)) 0]) ts"
proof -
  note i = agg_invD [OF assms(1)]
  have p: "pending (ba_time_acc g (unat s)) = ac_volume (ba_time_acc g (unat s))" using assms(2) by (simp add: pending_def)
  show ?thesis unfolding agg_inv_def using i(1,4,5,6) i(2,3)
    by (auto simp: write_bar_log bar_sum_single unat_inject p [symmetric])
qed

lemma agg_inv_flush_vol:
  assumes "agg_inv g bars ts" "ac_active (ba_vol_acc g (unat s))"
  shows "agg_inv (set_vol_acc (write_bar g s (ba_vol_acc g (unat s)) 1) s init_Acc)
    (bars @ [make_bar s (ba_vol_acc g (unat s)) 1]) ts"
proof -
  note i = agg_invD [OF assms(1)]
  have p: "pending (ba_vol_acc g (unat s)) = ac_volume (ba_vol_acc g (unat s))" using assms(2) by (simp add: pending_def)
  show ?thesis unfolding agg_inv_def using i(1,4,5,6) i(2,3)
    by (auto simp: write_bar_log bar_sum_single unat_inject p [symmetric])
qed

lemma flush_symbol_inv:
  assumes "agg_inv g bars ts"
  shows "\<exists>bars'. agg_inv (flush_symbol g s) bars' ts \<and> flushed (flush_symbol g s) s \<and>
    (\<forall>s'. flushed g s' \<longrightarrow> flushed (flush_symbol g s) s')"
proof -
  let ?g1 = "if ac_active (ba_time_acc g (unat s))
    then set_time_acc (write_bar g s (ba_time_acc g (unat s)) 0) s init_Acc else g"
  have 1: "\<exists>b1. agg_inv ?g1 b1 ts" using assms agg_inv_flush_time [OF assms, of s] by auto
  have f1: "pending (ba_time_acc ?g1 (unat s)) = 0" "\<And>s'. flushed g s' \<Longrightarrow> flushed ?g1 s'"
    "ba_vol_acc ?g1 = ba_vol_acc g"
    by (auto simp: flushed_def pending_def init_Acc_def)
  from 1 obtain b1 where b1: "agg_inv ?g1 b1 ts" ..
  have e: "flush_symbol g s = (if ac_active (ba_vol_acc ?g1 (unat s)) \<and> ac_volume (ba_vol_acc ?g1 (unat s)) > 0
      then set_vol_acc (write_bar ?g1 s (ba_vol_acc ?g1 (unat s)) 1) s init_Acc else ?g1)"
    unfolding flush_symbol_def Let_def ..
  show ?thesis
  proof (cases "ac_active (ba_vol_acc ?g1 (unat s)) \<and> ac_volume (ba_vol_acc ?g1 (unat s)) > 0")
    case True
    then have e': "flush_symbol g s = set_vol_acc (write_bar ?g1 s (ba_vol_acc ?g1 (unat s)) 1) s init_Acc"
      unfolding e by (simp only: if_True simp_thms)
    have "flushed (flush_symbol g s) s" "\<forall>s'. flushed g s' \<longrightarrow> flushed (flush_symbol g s) s'"
      unfolding e' using f1 by (auto simp: flushed_def)
    then show ?thesis using agg_inv_flush_vol [OF b1, of s] True unfolding e' by blast
  next
    case False
    then have e': "flush_symbol g s = ?g1" unfolding e by (simp only: if_False)
    have "flushed ?g1 s" using f1(1) False by (auto simp: flushed_def pending_def word_gt_0)
    then show ?thesis unfolding e' using b1 f1(2) by blast
  qed
qed

lemma flush_fold_inv:
  assumes "agg_inv g bars ts"
  shows "\<exists>bars'. agg_inv (foldl flush_symbol g ss) bars' ts \<and>
    (\<forall>s. s \<in> set ss \<or> flushed g s \<longrightarrow> flushed (foldl flush_symbol g ss) s)"
  using assms
proof (induction ss arbitrary: g bars)
  case (Cons s ss)
  from flush_symbol_inv [OF Cons.prems, of s] obtain b1 where b1: "agg_inv (flush_symbol g s) b1 ts"
    "flushed (flush_symbol g s) s" "\<And>s'. flushed g s' \<Longrightarrow> flushed (flush_symbol g s) s'" by blast
  from Cons.IH [OF b1(1)] b1(2,3) show ?case by auto
qed auto

lemma flush_all_inv:
  assumes "agg_inv g bars ts"
  shows "\<exists>bars'. agg_inv (flush_all g) bars' ts \<and> (\<forall>s < kMaxSymbols. flushed (flush_all g) s)"
proof -
  have "s \<in> set (map of_nat [0..<unat kMaxSymbols])" if "s < kMaxSymbols" for s :: u32
    using that by (intro image_eqI [of _ _ "unat s"] | simp add: word_less_nat_alt)+
  then show ?thesis using flush_fold_inv [OF assms] unfolding flush_all_def by metis
qed

section \<open>Properties\<close>

text \<open>The volume that the file's records of one symbol and type add up to.\<close>

definition file_volume :: "bar_fields list \<Rightarrow> u32 \<Rightarrow> nat \<Rightarrow> nat" where
  "file_volume fs s ty = sum_list (map bf_volume (filter (\<lambda>f. bf_symbol_id f = unat s \<and> bf_bar_type f = ty) fs))"

lemma file_volume_fields:
  "of_nat (file_volume (map fields_of_bar bars) s (unat ty)) = bar_sum ty s bars"
proof (induction bars)
  case (Cons b bars)
  have "bf_symbol_id (fields_of_bar b) = unat s \<and> bf_bar_type (fields_of_bar b) = unat ty \<longleftrightarrow>
      bar_type b = ty \<and> bar_symbol_id b = s"
    using unsigned_word_eqI [of "bar_type b" ty] by (auto simp: fields_of_bar_def unat_inject)
  moreover have "(of_nat (bf_volume (fields_of_bar b)) :: u64) = bar_volume b" by (simp add: fields_of_bar_def)
  ultimately show ?case using Cons by (simp add: file_volume_def bar_sum_def)
qed (simp add: file_volume_def bar_sum_def)

lemma ohlc_fields: "ohlc_bar b \<Longrightarrow> bf_low (fields_of_bar b) \<le> bf_open (fields_of_bar b) \<and>
    bf_open (fields_of_bar b) \<le> bf_high (fields_of_bar b) \<and> bf_low (fields_of_bar b) \<le> bf_close (fields_of_bar b) \<and>
    bf_close (fields_of_bar b) \<le> bf_high (fields_of_bar b)"
  by (simp add: ohlc_bar_def fields_of_bar_def word_le_nat_alt)

text \<open>The file after the final flush, read back.\<close>

lemma bars_run_total:
  assumes "volume_bar_qty \<noteq> 0"
  shows "\<exists>g bars. bars_run (init_BarAggregator True time_bar_ns volume_bar_qty) trades = Some g \<and> agg_inv g bars trades"
  using bars_run_inv [OF agg_inv_init, of time_bar_ns volume_bar_qty volume_bar_qty trades] assms
  by (auto simp: init_BarAggregator_def)

lemma flushed_file:
  assumes "agg_inv g bars trades"
  shows "\<exists>fs. read_bars (os_data (ba_out (flush_all g))) = Some fs \<and>
    (\<forall>f \<in> set fs. bf_low f \<le> bf_open f \<and> bf_open f \<le> bf_high f \<and> bf_low f \<le> bf_close f \<and> bf_close f \<le> bf_high f) \<and>
    (\<forall>s < 32. of_nat (file_volume fs s 0) = traded s trades \<and> of_nat (file_volume fs s 1) = traded s trades)"
proof -
  from flush_all_inv [OF assms] obtain bars' where b: "agg_inv (flush_all g) bars' trades"
    "\<forall>s < kMaxSymbols. flushed (flush_all g) s" by blast
  note i = agg_invD [OF b(1)]
  have r: "read_bars (os_data (ba_out (flush_all g))) = Some (map fields_of_bar bars')"
    using i(1) read_bars_concat [of bars'] by (simp add: bar_log_def)
  have v: "of_nat (file_volume (map fields_of_bar bars') s 0) = traded s trades"
    "of_nat (file_volume (map fields_of_bar bars') s 1) = traded s trades" if "s < 32" for s
    using i(2,3) [of s] b(2) that file_volume_fields [of bars' s 0] file_volume_fields [of bars' s 1]
    by (simp_all add: flushed_def kMaxSymbols_def)
  show ?thesis using r v i(4) ohlc_fields by (intro exI [of _ "map fields_of_bar bars'"]) auto
qed

text \<open>
  C26: For a positive volume bar quantity, aggregating any sequence of trades returns, and
  what the Python reader makes of the file after the final flush is complete: every record
  has low \<le> open, close \<le> high, and for each of the 32 symbols the volumes of its time bars
  and of its volume bars both add up to the traded quantity (modulo \<open>2 ^ 64\<close>).
\<close>

theorem bar_file_conserves_volume:
  assumes "volume_bar_qty \<noteq> 0"
  shows "\<exists>g fs. bars_run (init_BarAggregator True time_bar_ns volume_bar_qty) trades = Some g \<and>
    read_bars (os_data (ba_out (flush_all g))) = Some fs \<and>
    (\<forall>f \<in> set fs. bf_low f \<le> bf_open f \<and> bf_open f \<le> bf_high f \<and> bf_low f \<le> bf_close f \<and> bf_close f \<le> bf_high f) \<and>
    (\<forall>s < 32. of_nat (file_volume fs s 0) = traded s trades \<and> of_nat (file_volume fs s 1) = traded s trades)"
  using bars_run_total [OF assms, of time_bar_ns trades] flushed_file by blast

theorem bar_file_conserves_volume_witness:
  "\<exists>g fs. bars_run (init_BarAggregator True 1000 100) [init_TradeEvent\<lparr>te_price := 7, te_qty := 250\<rparr>] = Some g \<and>
    read_bars (os_data (ba_out (flush_all g))) = Some fs \<and>
    (of_nat (file_volume fs 0 0) :: u64) = 250 \<and> (of_nat (file_volume fs 0 1) :: u64) = 250"
proof -
  let ?t = "init_TradeEvent\<lparr>te_price := 7, te_qty := 250\<rparr>"
  have "traded 0 [?t] = 250" by (simp add: traded_def init_TradeEvent_def)
  then show ?thesis using bar_file_conserves_volume [of 100 1000 "[?t]"] by fastforce
qed

text \<open>
  Volume bars written before the final flush hold exactly the configured quantity each,
  and the counters \<^verbatim>\<open>time_bars()\<close> and \<^verbatim>\<open>volume_bars()\<close> are the numbers of records of the
  two types in the file (modulo \<open>2 ^ 64\<close>).
\<close>

theorem volume_bars_are_full:
  assumes "volume_bar_qty \<noteq> 0"
  shows "\<exists>g fs. bars_run (init_BarAggregator True time_bar_ns volume_bar_qty) trades = Some g \<and>
    read_bars (os_data (ba_out g)) = Some fs \<and>
    (\<forall>f \<in> set fs. bf_bar_type f = 1 \<longrightarrow> bf_volume f = unat volume_bar_qty) \<and>
    ba_time_bars g = of_nat (length (filter (\<lambda>f. bf_bar_type f = 0) fs)) \<and>
    ba_volume_bars g = of_nat (length (filter (\<lambda>f. bf_bar_type f \<noteq> 0) fs))"
proof -
  let ?g0 = "init_BarAggregator True time_bar_ns volume_bar_qty"
  obtain g bars where g: "bars_run ?g0 trades = Some g" "agg_inv g bars trades"
    "\<forall>b \<in> set bars. bar_type b = 1 \<longrightarrow> bar_volume b = volume_bar_qty"
    using bars_run_inv [OF agg_inv_init, of time_bar_ns volume_bar_qty volume_bar_qty trades] assms
    by (auto simp: init_BarAggregator_def)
  have l: "bar_log g bars" using agg_invD(1) [OF g(2)] .
  have ty: "bf_bar_type (fields_of_bar b) = unat (bar_type b)" "bf_volume (fields_of_bar b) = unat (bar_volume b)" for b
    by (simp_all add: fields_of_bar_def)
  have t1: "unat (bar_type b) = Suc 0 \<longleftrightarrow> bar_type b = 1" "unat (bar_type b) = 0 \<longleftrightarrow> bar_type b = 0" for b
    using unsigned_word_eqI [where 'a = nat, of "bar_type b" 1] by (auto simp: unat_eq_0)
  have "read_bars (os_data (ba_out g)) = Some (map fields_of_bar bars)"
    using l read_bars_concat [of bars] by (simp add: bar_log_def)
  then show ?thesis using g(1,3) l
    by (intro exI [of _ g] exI [of _ "map fields_of_bar bars"])
      (simp add: bar_log_def filter_map comp_def ty t1 unat_gt_0)
qed

theorem volume_bars_are_full_witness:
  "\<exists>g fs. bars_run (init_BarAggregator True 1000 100) [init_TradeEvent\<lparr>te_price := 7, te_qty := 250\<rparr>] = Some g \<and>
    read_bars (os_data (ba_out g)) = Some fs \<and> (\<forall>f \<in> set fs. bf_bar_type f = 1 \<longrightarrow> bf_volume f = unat (100 :: u64))"
  using volume_bars_are_full [of 100 1000 "[init_TradeEvent\<lparr>te_price := 7, te_qty := 250\<rparr>]"] by auto

lemma ucast_u32_zero: "ucast (w :: u32) = (0 :: u64) \<longleftrightarrow> w = 0"
proof
  assume "ucast w = (0 :: u64)"
  then have "take_bit 64 (unat w) = 0" using unsigned_ucast_eq [of w, where 'c = 64 and 'a = nat] by simp
  moreover have "take_bit 64 (unat w) = unat w"
    using unsigned_less [of w, where 'a = nat] by (simp add: take_bit_nat_eq_self_iff)
  ultimately show "w = 0" by (simp add: unat_eq_0)
qed simp

lemma volume_loop_diverges:
  assumes "volume_loop s t g = Some g'" "ba_volume_bar_qty g = 0" "ac_active (ba_vol_acc g (unat s))"
  shows "ac_volume (ba_vol_acc g (unat s)) = 0"
  using assms(2,3)
proof (induction rule: volume_loop.raw_induct [OF _ assms(1), rotated])
  case (1 loop s t g g')
  show ?case
  proof (rule ccontr)
    let ?a = "ba_vol_acc g (unat s)"
    assume v: "ac_volume ?a \<noteq> 0"
    let ?g = "set_vol_acc (write_bar g s (?a\<lparr>ac_volume := 0\<rparr>) 1) s (rest_acc ?a (ac_volume ?a) t)"
    have "loop s t ?g = Some g'" using 1(2-4) v by (simp add: Let_def rest_acc_def)
    from 1(1) [OF this] show False using 1(3,4) v by simp
  qed
qed

text \<open>What \<^verbatim>\<open>on_volume\<close> has accumulated for the symbol of a trade when its loop starts.\<close>

definition volume_before_loop :: "BarAggregator \<Rightarrow> TradeEvent \<Rightarrow> u64" where
  "volume_before_loop g t =
     (let a = ba_vol_acc g (unat (te_symbol_id t))
      in (if ac_active a then ac_volume a else 0) + ucast (te_qty t))"

lemma volume_loop_stops:
  assumes "ba_volume_bar_qty g = 0" "ac_active (ba_vol_acc g (unat s))" "ac_volume (ba_vol_acc g (unat s)) = 0"
  shows "volume_loop s t g \<noteq> None"
  using assms by (subst volume_loop.simps) (simp add: Let_def write_bar_def)

lemma on_time_volume_side:
  "ba_vol_acc (on_time g s t) = ba_vol_acc g" "ba_volume_bar_qty (on_time g s t) = ba_volume_bar_qty g"
  by (simp_all add: on_time_def Let_def set_time_acc_def write_bar_def)

text \<open>
  C27: The volume bar loop needs the positive quantity: with \<^verbatim>\<open>volume_bar_qty\<close> 0, which
  nothing in the configuration excludes, a trade on a valid symbol never returns, except
  when it leaves the accumulated volume of its symbol at 0. For a new aggregator, whose
  accumulators are inactive, this is a trade of quantity 0.
\<close>

theorem zero_volume_bar_diverges:
  assumes "ba_volume_bar_qty g = 0" "te_symbol_id t < 32"
  shows "(bars_on_trade g t = None \<longleftrightarrow> volume_before_loop g t \<noteq> 0) \<and>
    (\<not> ac_active (ba_vol_acc g (unat (te_symbol_id t))) \<longrightarrow> (bars_on_trade g t = None \<longleftrightarrow> te_qty t \<noteq> 0))"
proof -
  let ?s = "te_symbol_id t" and ?g = "on_time g (te_symbol_id t) t"
  let ?a = "if \<not> ac_active (ba_vol_acc g (unat ?s)) then open_acc t else extend_acc (ba_vol_acc g (unat ?s)) t"
  let ?h = "set_vol_acc ?g ?s ?a"
  have b: "bars_on_trade g t = volume_loop ?s t ?h"
    using assms(2) by (auto simp: bars_on_trade_def kMaxSymbols_def on_volume_def on_time_volume_side Let_def)
  have h: "ba_volume_bar_qty ?h = 0" "ba_vol_acc ?h (unat ?s) = ?a" "ac_active ?a"
    using assms(1) by (simp_all add: on_time_volume_side set_vol_acc_def open_acc_def extend_acc_def)
  have v: "ac_volume ?a = volume_before_loop g t"
    by (simp add: volume_before_loop_def open_acc_def extend_acc_def Let_def)
  have "volume_loop ?s t ?h \<noteq> None" if "volume_before_loop g t = 0"
    using volume_loop_stops [of ?h ?s t] that h v by simp
  moreover have "volume_before_loop g t = 0" if "volume_loop ?s t ?h = Some g'" for g'
    using volume_loop_diverges [OF that h(1)] h(2,3) v by simp
  ultimately have "bars_on_trade g t = None \<longleftrightarrow> volume_before_loop g t \<noteq> 0" unfolding b by fastforce
  then show ?thesis by (simp add: volume_before_loop_def ucast_u32_zero)
qed

theorem zero_volume_bar_diverges_witness:
  "bars_on_trade (init_BarAggregator True 1000 0) (init_TradeEvent\<lparr>te_price := 7, te_qty := 1\<rparr>) = None"
proof -
  let ?t = "init_TradeEvent\<lparr>te_price := 7, te_qty := 1\<rparr>" and ?g = "init_BarAggregator True 1000 0"
  have "ba_volume_bar_qty ?g = 0" "te_symbol_id ?t < 32" "\<not> ac_active (ba_vol_acc ?g (unat (te_symbol_id ?t)))" "te_qty ?t \<noteq> 0"
    by (simp_all add: init_TradeEvent_def init_BarAggregator_def init_Acc_def)
  then show ?thesis using zero_volume_bar_diverges [of ?g ?t] by blast
qed

end
