(* ===== verification/Doubles.thy ===== *)
theory Doubles
  imports Mdp_Prelude Complex_Main
begin

text \<open>
  Doubles, as IEEE 754 has them: a finite double is the real number it stands for, and an
  operation rounds the exact result to the nearest double, to the even one of two that are
  equally near, with 53 significant bits and gradual underflow. \<^term>\<open>None\<close> is a result that is
  not finite: an overflow, or a division by zero.
\<close>

section \<open>Rounding\<close>

text \<open>The nearest integer, and the exponent of the unit in the last place of a number.\<close>

definition round_even :: "real \<Rightarrow> int" where
  "round_even y =
     (let n = \<lfloor>y\<rfloor>; d = y - of_int n
      in if d < 1 / 2 \<or> d = 1 / 2 \<and> even n then n else n + 1)"

definition ulp_exponent :: "real \<Rightarrow> int" where
  "ulp_exponent x = max (\<lfloor>log 2 \<bar>x\<bar>\<rfloor> - 52) (- 1074)"

definition ulp :: "real \<Rightarrow> real" where
  "ulp x = 2 powr of_int (ulp_exponent x)"

definition round_double :: "real \<Rightarrow> real" where
  "round_double x = (if x = 0 then 0 else of_int (round_even (x / ulp x)) * ulp x)"

definition finite_double :: "real \<Rightarrow> real option" where
  "finite_double x = (let d = round_double x in if \<bar>d\<bar> < 2 ^ 1024 then Some d else None)"

definition double_div :: "real \<Rightarrow> real \<Rightarrow> real option" where
  "double_div a b = (if b = 0 then None else finite_double (a / b))"

section \<open>How far a double is off\<close>

lemma round_even_error: "\<bar>of_int (round_even y) - y\<bar> \<le> 1 / 2"
  unfolding round_even_def Let_def by (auto simp: not_less abs_le_iff)

lemma round_even_int [simp]: "round_even (of_int n) = n"
  by (simp add: round_even_def)

lemma ulp_pos [simp]: "0 < ulp x" "ulp x \<noteq> 0"
  by (simp_all add: ulp_def)

lemma round_double_0 [simp]: "round_double 0 = 0"
  by (simp add: round_double_def)

lemma round_double_ulp: "\<bar>round_double x - x\<bar> \<le> ulp x / 2"
proof (cases "x = 0")
  case False
  have "round_double x - x = (of_int (round_even (x / ulp x)) - x / ulp x) * ulp x"
    using False by (simp add: round_double_def left_diff_distrib)
  then have "\<bar>round_double x - x\<bar> = \<bar>of_int (round_even (x / ulp x)) - x / ulp x\<bar> * ulp x"
    by (simp only: abs_mult abs_of_pos ulp_pos)
  also have "\<dots> \<le> 1 / 2 * ulp x" by (intro mult_right_mono round_even_error) (simp add: less_imp_le)
  finally show ?thesis by simp
qed (simp add: less_imp_le)

text \<open>A number is in the normal range from \<open>2 ^ -1022\<close> upwards: there the error is relative to it.\<close>

abbreviation normal :: "real \<Rightarrow> bool" where
  "normal x \<equiv> 1 / 2 ^ 1022 \<le> \<bar>x\<bar>"

lemma ulp_normal:
  assumes "normal x"
  shows "ulp x \<le> \<bar>x\<bar> / 2 ^ 52"
proof -
  have x: "0 < \<bar>x\<bar>" using assms by (rule less_le_trans [rotated]) simp
  have "2 powr (- 1022) = (1 / 2 ^ 1022 :: real)" by (simp add: powr_minus_divide powr_realpow [symmetric])
  then have "2 powr (- 1022) \<le> \<bar>x\<bar>" using assms by simp
  then have "- 1022 \<le> log 2 \<bar>x\<bar>" using x by (simp add: le_log_iff)
  then have "ulp_exponent x = \<lfloor>log 2 \<bar>x\<bar>\<rfloor> - 52" unfolding ulp_exponent_def by linarith
  then have "ulp x = 2 powr of_int \<lfloor>log 2 \<bar>x\<bar>\<rfloor> / 2 ^ 52"
    by (simp add: ulp_def powr_diff powr_realpow [symmetric])
  moreover have "2 powr of_int \<lfloor>log 2 \<bar>x\<bar>\<rfloor> \<le> \<bar>x\<bar>"
    using x by (subst le_log_iff [symmetric]) (simp_all add: of_int_floor_le)
  ultimately show ?thesis by (simp add: divide_right_mono)
qed

abbreviation near_one :: "real \<Rightarrow> bool" where
  "near_one a \<equiv> \<bar>a - 1\<bar> \<le> 1 / 2 ^ 53"

lemma rounded_factor:
  assumes "x = 0 \<or> normal x"
  obtains a where "round_double x = x * a" "near_one a"
proof (cases "x = 0")
  case True
  then show thesis using that [of 1] by simp
next
  case False
  have "\<bar>round_double x - x\<bar> \<le> \<bar>x\<bar> / 2 ^ 52 / 2"
    using round_double_ulp [of x] ulp_normal [of x] assms False by (simp add: order_trans [OF _ divide_right_mono])
  then have e: "\<bar>round_double x - x\<bar> \<le> 1 / 2 ^ 53 * \<bar>x\<bar>" by simp
  have "round_double x / x - 1 = (round_double x - x) / x" using False by (simp add: field_simps)
  then have "\<bar>round_double x / x - 1\<bar> = \<bar>round_double x - x\<bar> / \<bar>x\<bar>" by (simp only: abs_divide)
  also have "\<dots> \<le> 1 / 2 ^ 53" using e False by (simp only: pos_divide_le_eq zero_less_abs_iff not_False_eq_True)
  finally show thesis using that [of "round_double x / x"] False by simp
qed

text \<open>Whole numbers below \<open>2 ^ 53\<close> are doubles.\<close>

lemma round_double_int:
  assumes "\<bar>n\<bar> < 2 ^ 53"
  shows "round_double (of_int n) = of_int n"
proof (cases "n = 0")
  case False
  define e where "e = ulp_exponent (of_int n)"
  have "\<bar>real_of_int n\<bar> < 2 ^ 53" using assms by (metis of_int_abs of_int_less_iff of_int_numeral of_int_power)
  then have "\<bar>real_of_int n\<bar> < 2 powr 53" by (simp add: powr_realpow [symmetric])
  then have "log 2 \<bar>real_of_int n\<bar> < 53" using False by (simp add: log_less_iff)
  then have "\<lfloor>log 2 \<bar>real_of_int n\<bar>\<rfloor> \<le> 52" by linarith
  then have e: "e \<le> 0" by (simp add: e_def ulp_exponent_def)
  have "of_int n / ulp (of_int n) = of_int n * 2 powr real (nat (- e))"
    using e by (simp add: ulp_def e_def [symmetric] powr_minus_divide [symmetric] divide_powr_uminus)
  also have "\<dots> = of_int (n * 2 ^ nat (- e))" by (simp add: powr_realpow)
  finally have q: "of_int n / ulp (of_int n) = of_int (n * 2 ^ nat (- e))" .
  have "of_int n / ulp (of_int n) * ulp (of_int n) = (of_int n :: real)"
    by simp
  then show ?thesis using False unfolding round_double_def q round_even_int by simp
qed simp

text \<open>Numbers of up to 70 digits are far from an overflow.\<close>

lemma finite_double_near:
  assumes "round_double x = x * a" "near_one a" "\<bar>x\<bar> \<le> 10 ^ 70"
  shows "finite_double x = Some (x * a)"
proof -
  have "\<bar>a\<bar> \<le> 1 + 1 / 2 ^ 53" using assms(2) by linarith
  then have "\<bar>a\<bar> \<le> 2" by (rule order_trans) simp
  then have "\<bar>x * a\<bar> \<le> 10 ^ 70 * 2" unfolding abs_mult using assms(3) by (intro mult_mono) simp_all
  also have "(10 ^ 70 * 2 :: real) < 2 ^ 1024" by simp
  finally show ?thesis using assms(1) by (simp add: finite_double_def Let_def)
qed

end
