(* ===== verification/Instrumentation.thy ===== *)
theory Instrumentation
  imports Doubles Text_Output
begin

text \<open>
  Stage latencies and counters (\<^verbatim>\<open>include/mdp/instrumentation.hpp\<close>,
  \<^verbatim>\<open>src/instrumentation.cpp\<close>). The HDR histogram is a third-party library: its state is the
  type \<open>'h\<close> and its functions are parameters, and so is the way \<^verbatim>\<open>operator<<\<close> prints a double
  (\<^term>\<open>None\<close> for one that is not finite).
\<close>

section \<open>Histograms and counters\<close>

record 'h LatencyHist =
  lh_name :: string
  lh_hist :: "'h option"

record 'h PipelineStats =
  ps_wire_to_parse :: "'h LatencyHist"
  ps_parse_to_book :: "'h LatencyHist"
  ps_book_to_consumer :: "'h LatencyHist"
  ps_messages :: u64
  ps_start_ns :: u64
  ps_end_ns :: u64

text \<open>\<^verbatim>\<open>hdr_init\<close> gives the histogram it leaves behind the pointer, if any.\<close>

definition init_LatencyHist :: "(int \<Rightarrow> int \<Rightarrow> int \<Rightarrow> 'h option) \<Rightarrow> string \<Rightarrow> int \<Rightarrow> int \<Rightarrow> int \<Rightarrow> 'h LatencyHist" where
  "init_LatencyHist hdr_init name min_ns max_ns sigfigs =
     \<lparr>lh_name = name, lh_hist = hdr_init min_ns max_ns sigfigs\<rparr>"

definition init_PipelineStats :: "(int \<Rightarrow> int \<Rightarrow> int \<Rightarrow> 'h option) \<Rightarrow> 'h PipelineStats" where
  "init_PipelineStats hdr_init =
     \<lparr>ps_wire_to_parse = init_LatencyHist hdr_init ''wire_to_parse'' 1 1000000000 3,
      ps_parse_to_book = init_LatencyHist hdr_init ''parse_to_book'' 1 1000000000 3,
      ps_book_to_consumer = init_LatencyHist hdr_init ''book_to_consumer'' 1 1000000000 3,
      ps_messages = 0, ps_start_ns = 0, ps_end_ns = 0\<rparr>"

text \<open>A value that is not positive is not recorded.\<close>

definition lat_record :: "('h \<Rightarrow> int \<Rightarrow> 'h) \<Rightarrow> 'h LatencyHist \<Rightarrow> int \<Rightarrow> 'h LatencyHist" where
  "lat_record hdr_record_value l ns =
     (case lh_hist l of
        Some h \<Rightarrow> if ns > 0 then l\<lparr>lh_hist := Some (hdr_record_value h ns)\<rparr> else l
      | None \<Rightarrow> l)"

definition note_message :: "'h PipelineStats \<Rightarrow> 'h PipelineStats" where
  "note_message s = s\<lparr>ps_messages := ps_messages s + 1\<rparr>"

text \<open>The reading functions of the library, and the members that call them.\<close>

record 'h hdr_reader =
  hr_value_at_percentile :: "'h \<Rightarrow> real \<Rightarrow> int"
  hr_max :: "'h \<Rightarrow> int"
  hr_total_count :: "'h \<Rightarrow> int"

definition value_at_percentile :: "'h hdr_reader \<Rightarrow> 'h LatencyHist \<Rightarrow> real \<Rightarrow> int" where
  "value_at_percentile lib l p = (case lh_hist l of None \<Rightarrow> 0 | Some h \<Rightarrow> hr_value_at_percentile lib h p)"

definition hist_max :: "'h hdr_reader \<Rightarrow> 'h LatencyHist \<Rightarrow> int" where
  "hist_max lib l = (case lh_hist l of None \<Rightarrow> 0 | Some h \<Rightarrow> hr_max lib h)"

definition hist_count :: "'h hdr_reader \<Rightarrow> 'h LatencyHist \<Rightarrow> int" where
  "hist_count lib l = (case lh_hist l of None \<Rightarrow> 0 | Some h \<Rightarrow> hr_total_count lib h)"

section \<open>The report\<close>

text \<open>\<^term>\<open>None\<close> would be an infinity or not a number.\<close>

definition throughput_mps :: "'h PipelineStats \<Rightarrow> real option" where
  "throughput_mps s =
     (if ps_end_ns s \<le> ps_start_ns s then Some 0
      else case double_div (round_double (real (unat (ps_end_ns s - ps_start_ns s)))) 1000000000 of
        None \<Rightarrow> None
      | Some seconds \<Rightarrow>
          if seconds \<le> 0 then Some 0 else double_div (round_double (real (unat (ps_messages s)))) seconds)"

definition table_head :: string where
  "table_head = ''stage            p50(ns)   p99(ns)  p99.9(ns)    max(ns)    count'' @ [newline]"

definition table_row :: "'h hdr_reader \<Rightarrow> 'h LatencyHist \<Rightarrow> string" where
  "table_row lib l = pad_left 16 (lh_name l) @ '' '' @
     pad_right 9 (dec_int (value_at_percentile lib l 50)) @ '' '' @
     pad_right 9 (dec_int (value_at_percentile lib l 99)) @ '' '' @
     pad_right 10 (dec_int (value_at_percentile lib l (round_double (999 / 10)))) @ '' '' @
     pad_right 10 (dec_int (hist_max lib l)) @ '' '' @
     pad_right 8 (dec_int (hist_count lib l)) @ [newline]"

definition format_table :: "'h hdr_reader \<Rightarrow> (real option \<Rightarrow> string) \<Rightarrow> 'h PipelineStats \<Rightarrow> string" where
  "format_table lib show_double s =
     table_head @
     concat (map (table_row lib) [ps_wire_to_parse s, ps_parse_to_book s, ps_book_to_consumer s]) @
     ''throughput_mps='' @ show_double (throughput_mps s) @ '' messages='' @
     dec (unat (ps_messages s)) @ [newline]"

section \<open>Reading the report\<close>

definition row_values :: "'h hdr_reader \<Rightarrow> 'h LatencyHist \<Rightarrow> int list" where
  "row_values lib l = [value_at_percentile lib l 50, value_at_percentile lib l 99,
     value_at_percentile lib l (round_double (999 / 10)), hist_max lib l, hist_count lib l]"

lemma words_pad_right:
  "words (pad_right w (dec_int z) @ CHR '' '' # s) = dec_int z # words s" "words (pad_right w (dec_int z)) = [dec_int z]"
  by (simp_all add: pad_right_def words_blanks words_word words_end dec_int_no_blank)

lemma words_pad_left:
  assumes "CHR '' '' \<notin> set name" "name \<noteq> []"
  shows "words (pad_left w name @ CHR '' '' # s) = name # words s"
proof (cases "w - length name")
  case 0
  then show ?thesis using assms by (simp add: pad_left_def words_word)
next
  case (Suc n)
  have "words (name @ CHR '' '' # replicate n CHR '' '' @ CHR '' '' # s) = name # words s"
    using words_word [OF assms] words_blanks [of n "CHR '' '' # s"] words_blanks [of 1 s] by simp
  then show ?thesis using Suc by (simp add: pad_left_def)
qed

definition row_text :: "'h hdr_reader \<Rightarrow> 'h LatencyHist \<Rightarrow> string" where
  "row_text lib l = butlast (table_row lib l)"

lemma table_row_text: "table_row lib l = row_text lib l @ [newline]"
  by (simp add: row_text_def table_row_def butlast_append)

lemma row_text_words:
  assumes "CHR '' '' \<notin> set (lh_name l)" "lh_name l \<noteq> []"
  shows "words (row_text lib l) = lh_name l # map dec_int (row_values lib l)"
  by (simp add: row_text_def table_row_def butlast_append words_pad_left [OF assms] words_pad_right row_values_def)

lemma newline_not_blank: "newline \<noteq> CHR '' ''"
  by simp

lemma row_text_one_line: "newline \<notin> set (lh_name l) \<Longrightarrow> newline \<notin> set (row_text lib l)"
  using newline_not_blank
  by (auto simp: row_text_def table_row_def butlast_append pad_left_def pad_right_def dec_int_no_blank)

definition plain_name :: "'h LatencyHist \<Rightarrow> bool" where
  "plain_name l \<longleftrightarrow> lh_name l \<noteq> [] \<and> CHR '' '' \<notin> set (lh_name l) \<and> newline \<notin> set (lh_name l)"

lemma plain_names:
  "plain_name (ps_wire_to_parse (init_PipelineStats hdr_init))" "plain_name (ps_parse_to_book (init_PipelineStats hdr_init))"
  "plain_name (ps_book_to_consumer (init_PipelineStats hdr_init))"
  by (simp_all add: plain_name_def init_PipelineStats_def init_LatencyHist_def)

lemma head_one_line: "newline \<notin> set (butlast table_head)"
  by (simp add: table_head_def)

text \<open>
  C36: The report reads back. When the stage names are single words and a double prints
  without a line break, its lines are the heading, one row for each of the three stages in
  order, and the summary; the words of a row are the name of the stage and the decimal
  numerals of its 50th, 99th and 99.9th percentile, maximum and count.
\<close>

theorem report_readable:
  assumes "plain_name (ps_wire_to_parse s)" "plain_name (ps_parse_to_book s)" "plain_name (ps_book_to_consumer s)"
    and "newline \<notin> set (show_double (throughput_mps s))"
  shows "\<exists>r1 r2 r3 summary. split_on newline (format_table lib show_double s) =
      [butlast table_head, r1, r2, r3, summary, []] \<and>
    map (\<lambda>r. (hd (words r), map undec_int (tl (words r)))) [r1, r2, r3] =
      map (\<lambda>l. (lh_name l, row_values lib l)) [ps_wire_to_parse s, ps_parse_to_book s, ps_book_to_consumer s] \<and>
    summary = ''throughput_mps='' @ show_double (throughput_mps s) @ '' messages='' @ dec (unat (ps_messages s))"
proof -
  let ?ls = "[ps_wire_to_parse s, ps_parse_to_book s, ps_book_to_consumer s]"
  define summary where "summary = ''throughput_mps='' @ show_double (throughput_mps s) @ '' messages='' @ dec (unat (ps_messages s))"
  define ws where "ws = butlast table_head # map (row_text lib) ?ls @ [summary]"
  have h: "butlast table_head @ [newline] = table_head" by (simp add: table_head_def)
  have "format_table lib show_double s = concat (map (\<lambda>w. w @ [newline]) ws)"
    by (simp add: ws_def h format_table_def table_row_text summary_def)
  moreover have "newline \<notin> set summary"
    using assms(4) dec_no_sep(2) by (simp add: summary_def)
  then have "\<forall>w \<in> set ws. newline \<notin> set w"
    using assms(1-3) head_one_line row_text_one_line by (auto simp: ws_def plain_name_def)
  ultimately have lines: "split_on newline (format_table lib show_double s) = ws @ [[]]"
    by (simp only: split_on_lines)
  have rows: "(hd (words (row_text lib l)), map undec_int (tl (words (row_text lib l)))) = (lh_name l, row_values lib l)"
    if "plain_name l" for l
    using that by (simp add: row_text_words plain_name_def comp_def undec_dec_int)
  show ?thesis unfolding lines ws_def summary_def using rows [OF assms(1)] rows [OF assms(2)] rows [OF assms(3)]
    by (intro exI [of _ "row_text lib (ps_wire_to_parse s)"] exI [of _ "row_text lib (ps_parse_to_book s)"]
        exI [of _ "row_text lib (ps_book_to_consumer s)"] exI conjI) simp_all
qed

definition sample_lib :: "int list hdr_reader" where
  "sample_lib = \<lparr>hr_value_at_percentile = (\<lambda>h p. Max (set h)), hr_max = (\<lambda>h. Max (set h)), hr_total_count = (\<lambda>h. int (length h))\<rparr>"

theorem report_readable_witness:
  "\<exists>r1 r2 r3 summary. split_on newline (format_table sample_lib (\<lambda>_. ''1e+06'') (init_PipelineStats (\<lambda>_ _ _. Some [5, 7]))) =
      [butlast table_head, r1, r2, r3, summary, []] \<and>
    hd (words r1) = ''wire_to_parse'' \<and> map undec_int (tl (words r1)) = [7, 7, 7, 7, 2]"
proof -
  let ?s = "init_PipelineStats (\<lambda>_ _ _. Some [5, 7])"
  have n: "newline \<notin> set ((\<lambda>_ :: real option. ''1e+06'') (throughput_mps ?s))" by simp
  have v: "row_values sample_lib (ps_wire_to_parse ?s) = [7, 7, 7, 7, 2]"
    "lh_name (ps_wire_to_parse ?s) = ''wire_to_parse''"
    by (simp_all add: row_values_def sample_lib_def init_PipelineStats_def init_LatencyHist_def
        value_at_percentile_def hist_max_def hist_count_def)
  from report_readable [OF plain_names n, of sample_lib] obtain r1 r2 r3 summary where r:
    "split_on newline (format_table sample_lib (\<lambda>_. ''1e+06'') ?s) = [butlast table_head, r1, r2, r3, summary, []]"
    "map (\<lambda>r. (hd (words r), map undec_int (tl (words r)))) [r1, r2, r3] =
      map (\<lambda>l. (lh_name l, row_values sample_lib l)) [ps_wire_to_parse ?s, ps_parse_to_book ?s, ps_book_to_consumer ?s]"
    by blast
  then have "hd (words r1) = ''wire_to_parse''" "map undec_int (tl (words r1)) = [7, 7, 7, 7, 2]" using v by simp_all
  then show ?thesis by (intro exI conjI) (rule r(1))
qed

section \<open>The throughput figure\<close>

lemma near_one_quotient:
  assumes "near_one a" "near_one b" "near_one c" "near_one e"
  shows "\<bar>a * e / (b * c) - 1\<bar> \<le> 5 / 2 ^ 53" "0 < b" "0 < c"
proof -
  define d :: real where "d = 1 / 2 ^ 53"
  have d: "0 < d" "100 * d \<le> 1" by (simp_all add: d_def)
  have i: "1 - d \<le> a" "a \<le> 1 + d" "1 - d \<le> b" "b \<le> 1 + d" "1 - d \<le> c" "c \<le> 1 + d" "1 - d \<le> e" "e \<le> 1 + d"
    using assms unfolding d_def by linarith+
  show pos: "0 < b" "0 < c" using i d by linarith+
  have up: "a * e \<le> (1 + d) * (1 + d)" "(1 - d) * (1 - d) \<le> b * c" "(1 - d) * (1 - d) \<le> a * e" "b * c \<le> (1 + d) * (1 + d)"
    using i d by (intro mult_mono; linarith)+
  have "(1 + d) * (1 + d) \<le> (1 + 5 * d) * ((1 - d) * (1 - d))"
  proof -
    have "(1 + 5 * d) * ((1 - d) * (1 - d)) - (1 + d) * (1 + d) = d * (1 - 10 * d + 5 * d * d)" by algebra
    moreover have "0 \<le> d * (1 - 10 * d + 5 * d * d)" using d by (intro mult_nonneg_nonneg) (auto intro: add_nonneg_nonneg)
    ultimately show ?thesis by linarith
  qed
  also have "\<dots> \<le> (1 + 5 * d) * (b * c)" using up(2) d by (intro mult_left_mono) linarith+
  finally have hi: "a * e \<le> (1 + 5 * d) * (b * c)" using up(1) by linarith
  have "(1 - 5 * d) * (b * c) \<le> (1 - 5 * d) * ((1 + d) * (1 + d))" using up(4) d by (intro mult_left_mono) linarith+
  also have "\<dots> \<le> (1 - d) * (1 - d)"
  proof -
    have "(1 - d) * (1 - d) - (1 - 5 * d) * ((1 + d) * (1 + d)) = d * (1 + 10 * d + 5 * d * d)" by algebra
    moreover have "0 \<le> d * (1 + 10 * d + 5 * d * d)" using d by (intro mult_nonneg_nonneg add_nonneg_nonneg) auto
    ultimately show ?thesis by linarith
  qed
  finally have lo: "(1 - 5 * d) * (b * c) \<le> a * e" using up(3) by linarith
  have bc: "0 < b * c" using pos by simp
  have "a * e / (b * c) \<le> 1 + 5 * d" "1 - 5 * d \<le> a * e / (b * c)"
    using hi lo bc by (simp_all add: pos_divide_le_eq pos_le_divide_eq)
  then have "\<bar>a * e / (b * c) - 1\<bar> \<le> 5 * d" by linarith
  then show "\<bar>a * e / (b * c) - 1\<bar> \<le> 5 / 2 ^ 53" unfolding d_def by (simp only: times_divide_eq_right mult_1_right)
qed

text \<open>A count per second from a count and a number of nanoseconds of 64 bits, as a double.\<close>

lemma near_one_half: "near_one a \<Longrightarrow> 1 / 2 \<le> a \<and> a \<le> 2"
proof -
  assume "near_one a"
  moreover have "1 / 2 ^ 53 \<le> (1 / 2 :: real)" by simp
  ultimately show ?thesis by linarith
qed

lemma normal_large: "1 / 10 ^ 30 \<le> x \<Longrightarrow> normal x"
proof -
  assume "1 / 10 ^ 30 \<le> x"
  moreover have "1 / 2 ^ 1022 \<le> (1 / 10 ^ 30 :: real)" by simp
  ultimately show ?thesis by linarith
qed

lemma rounded_per_second:
  assumes t: "1 \<le> t" "t \<le> 2 ^ 64" and n: "n = 0 \<or> 1 \<le> n" "n \<le> 2 ^ 64"
  defines "exact \<equiv> n * 1000000000 / t"
  obtains seconds v where "double_div (round_double t) 1000000000 = Some seconds" "0 < seconds"
    "double_div (round_double n) seconds = Some v" "\<bar>v - exact\<bar> \<le> 5 / 2 ^ 53 * exact"
proof -
  have "normal t" using t(1) by (intro normal_large) simp
  then obtain b where b: "round_double t = t * b" "near_one b" using rounded_factor by blast
  have "n = 0 \<or> normal n" using n(1) normal_large [of n] by fastforce
  then obtain a where a: "round_double n = n * a" "near_one a" using rounded_factor by blast
  have "1 * (1 / 2) \<le> t * b" and hi: "t * b \<le> 2 ^ 64 * 2"
    using t near_one_half [OF b(2)] by (intro mult_mono; simp)+
  then have lo: "1 / 2 \<le> t * b" by (simp only: mult_1)
  define x where "x = t * b / 1000000000"
  have x: "1 / 2 / 1000000000 \<le> x" "x \<le> 2 ^ 64 * 2 / 1000000000" unfolding x_def using lo hi by (intro divide_right_mono; simp)+
  have "normal x" using x(1) by (intro normal_large) simp
  then obtain c where c: "round_double x = x * c" "near_one c" using rounded_factor by blast
  define seconds where "seconds = x * c"
  have s: "1 / 4 / 1000000000 \<le> seconds" "seconds \<le> 2 ^ 66"
    using mult_mono [of "1 / 2 / 1000000000" x "1 / 2" c] mult_mono [of x "2 ^ 64 * 2 / 1000000000" c 2] x near_one_half [OF c(2)]
    by (simp_all add: seconds_def)
  have s0: "0 < seconds" using s(1) by linarith
  have "\<bar>x\<bar> \<le> 10 ^ 70" using x by simp
  then have sec: "double_div (round_double t) 1000000000 = Some seconds"
    using finite_double_near [OF c] unfolding double_div_def b(1) x_def [symmetric] seconds_def by simp
  define y where "y = n * a / seconds"
  have y: "y = 0 \<or> normal y" "\<bar>y\<bar> \<le> 10 ^ 70"
  proof -
    have na: "n = 0 \<or> 1 / 2 \<le> n * a" "0 \<le> n * a" "n * a \<le> 2 ^ 64 * 2"
      using mult_mono [of 1 n "1 / 2" a] mult_mono [of n "2 ^ 64" a 2] n near_one_half [OF a(2)] by auto
    have "1 / 2 / 2 ^ 66 \<le> y" if "1 / 2 \<le> n * a" unfolding y_def using that s s0 by (intro frac_le) auto
    moreover have "1 / 10 ^ 30 \<le> (1 / 2 / 2 ^ 66 :: real)" by simp
    ultimately have "n = 0 \<or> normal y" using na(1) normal_large [of y] order_trans by blast
    then show "y = 0 \<or> normal y" by (auto simp: y_def)
    have "y \<le> 2 ^ 64 * 2 / (1 / 4 / 1000000000)" unfolding y_def using na(2,3) s s0 by (intro frac_le) auto
    moreover have "0 \<le> y" unfolding y_def using na(2) s0 by simp
    ultimately show "\<bar>y\<bar> \<le> 10 ^ 70" by simp
  qed
  obtain e where e: "round_double y = y * e" "near_one e" using rounded_factor [OF y(1)] by blast
  have v: "double_div (round_double n) seconds = Some (y * e)"
    using finite_double_near [OF e y(2)] s0 unfolding double_div_def a(1) y_def by simp
  note q = near_one_quotient [OF a(2) b(2) c(2) e(2)]
  have "y * e = exact * (a * e / (b * c))" using t q(2,3) by (simp add: y_def seconds_def x_def exact_def field_simps)
  then have "y * e - exact = exact * (a * e / (b * c) - 1)" by (simp add: algebra_simps)
  then have "\<bar>y * e - exact\<bar> = \<bar>exact\<bar> * \<bar>a * e / (b * c) - 1\<bar>" by (simp only: abs_mult)
  moreover have "0 \<le> exact" using t n by (auto simp: exact_def)
  ultimately have "\<bar>y * e - exact\<bar> \<le> 5 / 2 ^ 53 * exact"
    using mult_left_mono [OF q(1), of exact] by (simp add: mult.commute)
  then show thesis using that sec s0 v by blast
qed

lemma real_unat_u64: "real (unat (w :: u64)) \<le> 2 ^ 64" "w \<noteq> 0 \<longleftrightarrow> 1 \<le> real (unat w)" "real (unat w) = 0 \<or> 1 \<le> real (unat w)"
proof -
  have "unat w < 2 ^ 64" using unsigned_less [of w, where 'a = nat] by simp
  then have "real (unat w) < real (2 ^ 64)" by (simp only: of_nat_less_iff)
  then show "real (unat w) \<le> 2 ^ 64" by simp
  have r: "(k \<noteq> 0 \<longleftrightarrow> 1 \<le> real k) \<and> (real k = 0 \<or> 1 \<le> real k)" for k by (cases k) simp_all
  show "w \<noteq> 0 \<longleftrightarrow> 1 \<le> real (unat w)" using r [of "unat w"] unfolding unat_eq_0 by (rule conjunct1)
  show "real (unat w) = 0 \<or> 1 \<le> real (unat w)" using r [of "unat w"] by (rule conjunct2)
qed

text \<open>
  C35: The throughput figure is always a finite double: it is 0 when the clock has not
  advanced, and otherwise the number of messages per second with a relative error of at
  most \<open>5 \<cdot> 2 ^ -53\<close>, in the arithmetic of IEEE doubles. The divisor is then positive, so the
  second check of the function is never taken.
\<close>

theorem throughput_accurate:
  "\<exists>v. throughput_mps s = Some v \<and>
     (if ps_end_ns s \<le> ps_start_ns s then v = 0
      else (\<exists>seconds > 0. double_div (round_double (real (unat (ps_end_ns s - ps_start_ns s)))) 1000000000 = Some seconds) \<and>
        \<bar>v - real (unat (ps_messages s)) * 1000000000 / real (unat (ps_end_ns s - ps_start_ns s))\<bar>
          \<le> 5 / 2 ^ 53 * (real (unat (ps_messages s)) * 1000000000 / real (unat (ps_end_ns s - ps_start_ns s))))"
proof (cases "ps_end_ns s \<le> ps_start_ns s")
  case False
  have "ps_end_ns s - ps_start_ns s \<noteq> 0" using False by auto
  then have t: "1 \<le> real (unat (ps_end_ns s - ps_start_ns s))" by (simp only: real_unat_u64(2))
  show ?thesis
    by (rule rounded_per_second [OF t real_unat_u64(1) real_unat_u64(3) [of "ps_messages s"] real_unat_u64(1)])
      (use False in \<open>auto simp: throughput_mps_def\<close>)
qed (simp add: throughput_mps_def)

end
