(* ===== verification/Feed_Handler.thy ===== *)
theory Feed_Handler
  imports Sequence_Tracker Spsc_Queue Consumers Instrumentation "HOL-Library.Sublist"
begin

text \<open>
  The feed handler (\<^verbatim>\<open>include/mdp/feed_handler.hpp\<close>, \<^verbatim>\<open>src/feed_handler.cpp\<close>) : a
  datagram is parsed, sequenced, recovered over TCP when there is a gap, applied to the book, and the
  resulting events go through the queue to the consumer thread.

  What the handler calls but does not define is an environment \<open>env\<close>: the readings of the
  steady clock, the calls of the third-party HDR histogram, the result of the socket calls
  of a recovery connection as a function of the request bytes, and the scheduling of the
  consumer thread, which runs a number of turns before each attempt to push an event.
\<close>

section \<open>State\<close>

record HandlerConfig =
  hc_udp_host :: string
  hc_udp_port :: u16
  hc_recovery_host :: string
  hc_recovery_port :: u16
  hc_bbo_path :: string
  hc_tape_path :: string
  hc_bars_path :: string
  hc_time_bar_ns :: u64
  hc_volume_bar_qty :: u64
  hc_print_stats :: bool
  hc_run_seconds :: int

definition init_HandlerConfig :: HandlerConfig where
  "init_HandlerConfig =
     \<lparr>hc_udp_host = ''127.0.0.1'', hc_udp_port = 9000, hc_recovery_host = ''127.0.0.1'',
      hc_recovery_port = 9001, hc_bbo_path = ''bbo.log'', hc_tape_path = ''tape.log'',
      hc_bars_path = ''bars.bin'', hc_time_bar_ns = 1000000000, hc_volume_bar_qty = 1000,
      hc_print_stats = False, hc_run_seconds = 0\<rparr>"

definition kEventQueueCapacity :: u64 where "kEventQueueCapacity = 2 ^ 14"

text \<open>
  What the socket calls of one recovery connection do: the first one that fails, or the
  bytes of the response structure and the chunks the following \<^verbatim>\<open>recv\<close> calls return before
  one returns 0 or an error.
\<close>

datatype recovery_io = Socket_failed | Connect_failed | Send_failed | Response_short
  | Replied bytes "bytes list"

record 'h env =
  ev_clock :: "nat \<Rightarrow> u64"
  ev_hdr :: "'h \<Rightarrow> int \<Rightarrow> 'h"
  ev_net :: "nat \<Rightarrow> bytes \<Rightarrow> recovery_io"
  ev_turns :: "nat \<Rightarrow> nat"

text \<open>
  \<open>fh_clock\<close> counts the clock readings and \<open>fh_sched\<close> the scheduling points so far;
  \<open>fh_stuck\<close> says that the consumer thread is in a loop it never leaves.
\<close>

record 'h FeedHandler =
  fh_tracker :: SequenceTracker
  fh_book :: BookBuilder
  fh_queue :: "PipelineEvent SpscQueue"
  fh_stats :: "'h PipelineStats"
  fh_stop :: bool
  fh_bbo :: BboPublisher
  fh_tape :: TradeTapeWriter
  fh_bars :: BarAggregator
  fh_stuck :: bool
  fh_clock :: nat
  fh_sched :: nat

text \<open>The constructor; \<open>opened\<close> says which files can be opened for writing.\<close>

definition init_FeedHandler :: "(int \<Rightarrow> int \<Rightarrow> int \<Rightarrow> 'h option) \<Rightarrow> (string \<Rightarrow> bool) \<Rightarrow> HandlerConfig \<Rightarrow> 'h FeedHandler" where
  "init_FeedHandler hdr_init opened cfg =
     \<lparr>fh_tracker = init_SequenceTracker, fh_book = init_BookBuilder,
      fh_queue = init_SpscQueue init_PipelineEvent, fh_stats = init_PipelineStats hdr_init,
      fh_stop = False,
      fh_bbo = \<lparr>bp_out = \<lparr>os_good = opened (hc_bbo_path cfg), os_data = []\<rparr>, bp_count = 0\<rparr>,
      fh_tape = \<lparr>tw_out = \<lparr>os_good = opened (hc_tape_path cfg), os_data = []\<rparr>, tw_count = 0\<rparr>,
      fh_bars = init_BarAggregator (opened (hc_bars_path cfg)) (hc_time_bar_ns cfg) (hc_volume_bar_qty cfg),
      fh_stuck = False, fh_clock = 0, fh_sched = 0\<rparr>"

definition now_ns :: "'h env \<Rightarrow> 'h FeedHandler \<Rightarrow> u64 \<times> 'h FeedHandler" where
  "now_ns env h = (ev_clock env (fh_clock h), h\<lparr>fh_clock := fh_clock h + 1\<rparr>)"

section \<open>The consumer thread\<close>

text \<open>One turn of the loop of \<^verbatim>\<open>consumer_loop\<close>.\<close>

definition consumer_turn :: "'h env \<Rightarrow> 'h FeedHandler \<Rightarrow> 'h FeedHandler" where
  "consumer_turn env h =
     (if fh_stuck h then h
      else case try_pop kEventQueueCapacity (fh_queue h) of
        (None, q) \<Rightarrow> h\<lparr>fh_queue := q\<rparr>
      | (Some ev, q) \<Rightarrow>
          (let (t0, h) = now_ns env (h\<lparr>fh_queue := q\<rparr>);
               h = (case pe_kind ev of
                      Tick \<Rightarrow> h\<lparr>fh_bbo := bbo_on_tick (fh_bbo h) (pe_tick ev)\<rparr>
                    | TradeEvt \<Rightarrow>
                        let h = h\<lparr>fh_tape := tape_on_trade (fh_tape h) (pe_trade ev)\<rparr> in
                        (case bars_on_trade (fh_bars h) (pe_trade ev) of
                           None \<Rightarrow> h\<lparr>fh_stuck := True\<rparr>
                         | Some g \<Rightarrow> h\<lparr>fh_bars := g\<rparr>))
           in if fh_stuck h then h
              else
                let (t1, h) = now_ns env h in
                h\<lparr>fh_stats := (fh_stats h)\<lparr>ps_book_to_consumer :=
                  lat_record (ev_hdr env) (ps_book_to_consumer (fh_stats h)) (sint (t1 - t0))\<rparr>\<rparr>))"

text \<open>
  What remains of \<^verbatim>\<open>consumer_loop\<close> once \<^verbatim>\<open>stop_\<close> is set: it empties the queue and flushes
  the bars. It does not return (\<^term>\<open>None\<close>) when a bar loop does not.
\<close>

partial_function (option) consumer_finish :: "'h env \<Rightarrow> 'h FeedHandler \<Rightarrow> 'h FeedHandler option" where
  "consumer_finish env h =
     (if fh_stuck h then None
      else if queue_empty (fh_queue h) then Some (h\<lparr>fh_bars := flush_all (fh_bars h)\<rparr>)
      else consumer_finish env (consumer_turn env h))"

definition consumer_runs :: "'h env \<Rightarrow> 'h FeedHandler \<Rightarrow> 'h FeedHandler" where
  "consumer_runs env h =
     (consumer_turn env ^^ ev_turns env (fh_sched h)) (h\<lparr>fh_sched := fh_sched h + 1\<rparr>)"

section \<open>The feed thread\<close>

text \<open>\<^verbatim>\<open>publish\<close>: 64 attempts in the loop and one after it.\<close>

fun publish_tries :: "'h env \<Rightarrow> PipelineEvent \<Rightarrow> nat \<Rightarrow> 'h FeedHandler \<Rightarrow> bool \<times> 'h FeedHandler" where
  "publish_tries env ev 0 h = (False, h)"
| "publish_tries env ev (Suc n) h =
     (let h = consumer_runs env h in
      case try_push kEventQueueCapacity ev (fh_queue h) of
        (True, q) \<Rightarrow> (True, h\<lparr>fh_queue := q\<rparr>)
      | (False, q) \<Rightarrow> publish_tries env ev n (h\<lparr>fh_queue := q\<rparr>))"

definition publish :: "'h env \<Rightarrow> PipelineEvent \<Rightarrow> 'h FeedHandler \<Rightarrow> bool \<times> 'h FeedHandler" where
  "publish env ev h = publish_tries env ev (64 + 1) h"

text \<open>The \<^verbatim>\<open>recv\<close> loop of \<^verbatim>\<open>try_recover\<close>: at most \<open>want\<close> bytes are taken.\<close>

fun recv_loop :: "nat \<Rightarrow> bytes \<Rightarrow> bytes list \<Rightarrow> bytes" where
  "recv_loop want got [] = got"
| "recv_loop want got (c # cs) =
     (if length got < want then
        let n = take (want - length got) c in
        if n = [] then got else recv_loop want (got @ n) cs
      else got)"

text \<open>The loop that pushes the recovered frames.\<close>

function push_recovered :: "SequenceTracker \<Rightarrow> bytes \<Rightarrow> SequenceTracker" where
  "push_recovered t data =
     (if data = [] then t
      else
        let parsed = parse_message data in
        if pm_status parsed \<noteq> Ok \<or> pm_consumed parsed = 0 then t
        else push_recovered (snd (push t (take (pm_consumed parsed) data)))
               (drop (pm_consumed parsed) data))"
  by pat_completeness auto
termination by (relation "measure (\<lambda>(t, data). length data)") auto

declare push_recovered.simps [simp del]

definition try_recover :: "'h env \<Rightarrow> 'h FeedHandler \<Rightarrow> 'h FeedHandler" where
  "try_recover env h =
     (if \<not> gap_pending (fh_tracker h) then h
      else
        let (t0, h) = now_ns env h;
            attempt = fh_clock h;
            (ts, h') = now_ns env h;
            req = gap_request_frame 0 ts (st_gap_start (fh_tracker h)) (st_gap_end (fh_tracker h))
        in case ev_net env attempt req of
             Socket_failed \<Rightarrow> h
           | Connect_failed \<Rightarrow> h
           | Send_failed \<Rightarrow> h'
           | Response_short \<Rightarrow> h'
           | Replied resp chunks \<Rightarrow>
               (let nbytes = get_be32 (wr_payload_bytes (bytes_WireGapResponse resp));
                    payload = recv_loop (unat nbytes) [] chunks;
                    h = h'\<lparr>fh_tracker := push_recovered (fh_tracker h') payload\<rparr>;
                    (t1, h) = now_ns env h
                in h\<lparr>fh_tracker := clear_gap (note_recovery (fh_tracker h) (t1 - t0))\<rparr>))"

definition tick_event :: "NormalizedTick \<Rightarrow> PipelineEvent" where
  "tick_event tick = init_PipelineEvent\<lparr>pe_kind := Tick, pe_tick := tick\<rparr>"

definition trade_event :: "Trade \<Rightarrow> PipelineEvent" where
  "trade_event m = init_PipelineEvent\<lparr>pe_kind := TradeEvt, pe_trade :=
     \<lparr>te_symbol_id = tr_symbol_id m, te_price = tr_price m, te_qty = tr_qty m, te_side = tr_side m,
      te_seq = hdr_seq (tr_hdr m), te_ts_ns = hdr_ts_ns (tr_hdr m), te_trade_id = tr_trade_id m\<rparr>\<rparr>"

definition publish_tick :: "'h env \<Rightarrow> NormalizedTick option \<Rightarrow> 'h FeedHandler \<Rightarrow> 'h FeedHandler" where
  "publish_tick env tick h = (case tick of None \<Rightarrow> h | Some t \<Rightarrow> snd (publish env (tick_event t) h))"

definition publish_trade :: "'h env \<Rightarrow> ParsedPayload \<Rightarrow> 'h FeedHandler \<Rightarrow> 'h FeedHandler" where
  "publish_trade env payload h =
     (case payload of P_Trade m \<Rightarrow> snd (publish env (trade_event m) h) | _ \<Rightarrow> h)"

definition handle_parsed :: "'h env \<Rightarrow> ParsedMessage \<Rightarrow> u64 \<Rightarrow> u64 \<Rightarrow> 'h FeedHandler \<Rightarrow> 'h FeedHandler" where
  "handle_parsed env msg wire_ns parse_ns h =
     (let h = h\<lparr>fh_stats := note_message ((fh_stats h)\<lparr>ps_wire_to_parse :=
            lat_record (ev_hdr env) (ps_wire_to_parse (fh_stats h)) (sint (parse_ns - wire_ns))\<rparr>)\<rparr>;
          (book_t0, h) = now_ns env h;
          (book, tick) = book_step (fh_book h) (pm_payload msg);
          h = publish_tick env tick (h\<lparr>fh_book := book\<rparr>);
          h = publish_trade env (pm_payload msg) h;
          (t1, h) = now_ns env h
      in h\<lparr>fh_stats := (fh_stats h)\<lparr>ps_parse_to_book :=
            lat_record (ev_hdr env) (ps_parse_to_book (fh_stats h)) (sint (t1 - book_t0))\<rparr>\<rparr>)"

definition handle_frame :: "'h env \<Rightarrow> u64 \<Rightarrow> u64 \<Rightarrow> 'h FeedHandler \<Rightarrow> bytes \<Rightarrow> 'h FeedHandler" where
  "handle_frame env wire_ns parse_ns h frame =
     (let ordered = parse_message frame in
      if pm_status ordered = Ok then handle_parsed env ordered wire_ns parse_ns h else h)"

definition process_datagram :: "'h env \<Rightarrow> bytes \<Rightarrow> u64 \<Rightarrow> 'h FeedHandler \<Rightarrow> 'h FeedHandler" where
  "process_datagram env bs wire_ns h =
     (let parsed = parse_message bs;
          (parse_ns, h) = now_ns env h
      in if pm_status parsed \<noteq> Ok then h
         else
           let h = h\<lparr>fh_tracker := snd (push (fh_tracker h) (take (pm_consumed parsed) bs))\<rparr>;
               h = (if gap_pending (fh_tracker h) then try_recover env h else h);
               h = foldl (handle_frame env wire_ns parse_ns) h (st_ready (fh_tracker h))
           in h\<lparr>fh_tracker := clear_ready (fh_tracker h)\<rparr>)"

text \<open>
  The receive loop of \<^verbatim>\<open>run\<close>: each turn gets no datagram (\<^term>\<open>None\<close>: the select timed out
  or the receive failed) or one, of which the 2048-byte buffer keeps the front.
\<close>

definition run_turn :: "'h env \<Rightarrow> 'h FeedHandler \<Rightarrow> bytes option \<Rightarrow> 'h FeedHandler" where
  "run_turn env h dgram =
     (case dgram of
        None \<Rightarrow> h
      | Some bs \<Rightarrow>
          let buf = take 2048 bs in
          if buf = [] then h
          else let (wire_ns, h) = now_ns env h in process_datagram env buf wire_ns h)"

definition request_stop :: "'h FeedHandler \<Rightarrow> 'h FeedHandler" where
  "request_stop h = h\<lparr>fh_stop := True\<rparr>"

declare request_stop_def [simp]

text \<open>
  \<^verbatim>\<open>run\<close>: the turns until the deadline or a stop request, then the consumer is joined.
  The exit code comes with the final state; \<^term>\<open>None\<close> is a join that never returns.
\<close>

definition run :: "'h env \<Rightarrow> bool \<Rightarrow> bytes option list \<Rightarrow> 'h FeedHandler \<Rightarrow> (int \<times> 'h FeedHandler) option" where
  "run env bound turns h =
     (if \<not> bound then Some (1, h)
      else
        let (t0, h) = now_ns env h;
            h = h\<lparr>fh_stats := (fh_stats h)\<lparr>ps_start_ns := t0\<rparr>\<rparr>;
            h = foldl (run_turn env) h turns;
            h = request_stop h
        in case consumer_finish env h of
             None \<Rightarrow> None
           | Some h \<Rightarrow>
               let (t1, h) = now_ns env h in
               Some (0, h\<lparr>fh_stats := (fh_stats h)\<lparr>ps_end_ns := t1\<rparr>\<rparr>))"

text \<open>What \<^verbatim>\<open>run\<close> prints before it returns 0.\<close>

definition run_prints :: "'h hdr_reader \<Rightarrow> (real option \<Rightarrow> string) \<Rightarrow> HandlerConfig \<Rightarrow> 'h FeedHandler \<Rightarrow> string" where
  "run_prints lib show_double cfg h =
     (if hc_print_stats cfg then format_table lib show_double (fh_stats h) else [])"

section \<open>Recovering a gap\<close>

text \<open>
  \<open>clean n r t\<close>: the tracker waits for number \<open>n\<close>, buffers nothing, has no gap pending and
  has the frames \<open>r\<close> ready. \<open>waiting n s f r t\<close>: it has buffered the one frame \<open>f\<close> with the
  later number \<open>s\<close>, and the gap before it is pending.
\<close>

definition clean :: "nat \<Rightarrow> bytes list \<Rightarrow> SequenceTracker \<Rightarrow> bool" where
  "clean n r t \<longleftrightarrow> next_expected t = of_nat n \<and> (\<forall>i<64. \<not> sl_occupied (st_window t i)) \<and>
     st_gap_start t = 0 \<and> st_ready t = r"

definition waiting :: "nat \<Rightarrow> nat \<Rightarrow> bytes \<Rightarrow> bytes list \<Rightarrow> SequenceTracker \<Rightarrow> bool" where
  "waiting n s f r t \<longleftrightarrow> next_expected t = of_nat n \<and>
     (\<forall>i<64. sl_occupied (st_window t i) \<longleftrightarrow> i = s mod 64) \<and>
     sl_length (st_window t (s mod 64)) = of_nat (length f) \<and>
     (\<exists>d. sl_data (st_window t (s mod 64)) = f @ d) \<and>
     st_gap_start t \<noteq> 0 \<and> st_gap_end t = of_nat (s - 1) \<and> st_ready t = r"

definition legal_frame :: "bytes \<Rightarrow> nat \<Rightarrow> bool" where
  "legal_frame f i \<longleftrightarrow> 20 \<le> length f \<and> length f \<le> 44 \<and> frame_seq f = of_nat i"

lemma of_nat_less_u64: "a < 2 ^ 64 \<Longrightarrow> b < 2 ^ 64 \<Longrightarrow> (of_nat a :: u64) < of_nat b \<longleftrightarrow> a < b"
  by (simp add: word_less_nat_alt unat_of_nat take_bit_eq_mod)

lemma of_nat_eq_u64: "a < 2 ^ 64 \<Longrightarrow> b < 2 ^ 64 \<Longrightarrow> (of_nat a :: u64) = of_nat b \<longleftrightarrow> a = b"
  by (simp add: word_unat_eq_iff unat_of_nat take_bit_eq_mod)

lemma flush_loop_none:
  "\<not> sl_occupied (st_window t (window_index (next_expected t))) \<Longrightarrow> flush_loop t = t"
  by (subst flush_loop.simps) (simp add: Let_def)

lemma flush_loop_other:
  "frame_seq (sl_data (st_window t (window_index (next_expected t)))) \<noteq> next_expected t \<Longrightarrow> flush_loop t = t"
  by (subst flush_loop.simps) (simp add: Let_def)

lemma flush_loop_take:
  "sl_occupied (st_window t (window_index (next_expected t))) \<Longrightarrow>
   frame_seq (sl_data (st_window t (window_index (next_expected t)))) = next_expected t \<Longrightarrow>
   flush_loop t = flush_loop (take_slot t)"
  by (subst flush_loop.simps) (simp add: Let_def)

lemma push_legal:
  assumes "legal_frame f i"
  shows "frame_seq f = next_expected t \<Longrightarrow> push t f = (True, flush_contiguous (deliver t f))"
    "frame_seq f < next_expected t \<Longrightarrow> push t f = (False, note_drop t)"
    "next_expected t < frame_seq f \<Longrightarrow> push t f = (True, widen_gap (buffer_ooo t f) (frame_seq f))"
  using push_cases [of f t] assms unfolding legal_frame_def by (metis leD less_irrefl less_asym)+

lemma clean_push_next:
  assumes c: "clean n r t" and f: "legal_frame f n"
  shows "clean (n + 1) (r @ [f]) (snd (push t f))"
proof -
  have p: "push t f = (True, flush_contiguous (deliver t f))"
    using push_legal(1) [OF f, of t] c f by (simp add: clean_def legal_frame_def)
  have "flush_loop (deliver t f) = deliver t f" by (rule flush_loop_none) (use c in \<open>simp add: clean_def\<close>)
  then have "flush_contiguous (deliver t f) = deliver t f"
    using c by (simp add: flush_contiguous_def clean_def)
  then show ?thesis using c p by (simp add: clean_def add.commute)
qed

lemma clean_push_stale:
  assumes c: "clean n r t" and f: "legal_frame f i" "i < n" "n < 2 ^ 64"
  shows "clean n r (snd (push t f))"
proof -
  have "frame_seq f < next_expected t"
    using c f of_nat_less_u64 [of i n] by (simp add: clean_def legal_frame_def)
  then have "push t f = (False, note_drop t)" by (rule push_legal(2) [OF f(1)])
  then show ?thesis using c by (simp add: clean_def)
qed

lemma clean_push_ahead:
  assumes c: "clean n r t" and f: "legal_frame f s" "n < s" "s < 2 ^ 64" "1 \<le> n"
  shows "waiting n s f r (snd (push t f))" "st_gap_start (snd (push t f)) = of_nat n"
proof -
  have q: "frame_seq f = of_nat s" using f(1) by (simp add: legal_frame_def)
  have "next_expected t < frame_seq f"
    using c f of_nat_less_u64 [of n s] by (simp add: clean_def legal_frame_def)
  then have p: "push t f = (True, widen_gap (buffer_ooo t f) (of_nat s))"
    using push_legal(3) [OF f(1)] q by simp
  have i: "window_index (of_nat s) = s mod 64" using f(3) by simp
  have free: "\<not> sl_occupied (st_window t (s mod 64))" using c by (simp add: clean_def)
  have w: "st_window (buffer_ooo t f) = (st_window t)(s mod 64 :=
      \<lparr>sl_occupied = True, sl_length = of_nat (length f),
       sl_data = f @ drop (length f) (sl_data (st_window t (s mod 64)))\<rparr>)"
    using free by (simp add: buffer_ooo_def store_ooo_def Let_def q i)
  have pred: "(of_nat s - 1 :: u64) = of_nat (s - 1)" using f(2) by (simp add: of_nat_diff)
  have nz: "(of_nat n :: u64) \<noteq> 0" using of_nat_eq_u64 [of n 0] f by simp
  have g: "widen_gap (buffer_ooo t f) (of_nat s) =
      (buffer_ooo t f)\<lparr>st_gap_start := of_nat n, st_gap_end := of_nat (s - 1)\<rparr>"
    using c unfolding widen_gap_def by (simp add: clean_def pred)
  show "waiting n s f r (snd (push t f))"
    using c nz unfolding p g by (auto simp: waiting_def clean_def w)
  show "st_gap_start (snd (push t f)) = of_nat n" unfolding p g by simp
qed

lemma waiting_push_inner:
  assumes w: "waiting n s f r t" and f: "legal_frame f s" and e: "legal_frame e n" and n: "n + 1 < s" "s < 2 ^ 64"
  shows "waiting (n + 1) s f (r @ [e]) (snd (push t e))"
proof -
  define u where "u = deliver t e"
  have u: "st_window u = st_window t" "st_ready u = st_ready t @ [e]" "st_gap_start u = st_gap_start t"
    "st_gap_end u = st_gap_end t" by (simp_all add: u_def)
  have p: "push t e = (True, flush_contiguous u)"
    using push_legal(1) [OF e, of t] w e by (simp add: waiting_def legal_frame_def u_def)
  have nx: "next_expected u = of_nat (n + 1)" using w by (simp add: waiting_def u_def add.commute)
  have i: "window_index (of_nat (n + 1)) = (n + 1) mod 64" using n by (intro window_index_of_nat) simp
  have "flush_loop u = u"
  proof (cases "(n + 1) mod 64 = s mod 64")
    case True
    obtain d where "sl_data (st_window t (s mod 64)) = f @ d" using w by (auto simp: waiting_def)
    then have "frame_seq (sl_data (st_window t (s mod 64))) = of_nat s"
      using f by (simp add: legal_frame_def)
    moreover have "(of_nat s :: u64) \<noteq> of_nat (n + 1)" using of_nat_eq_u64 [of s "n + 1"] n by simp
    ultimately show ?thesis using True i by (intro flush_loop_other) (simp add: nx u del: of_nat_add of_nat_Suc)
  next
    case False
    then show ?thesis using w i by (intro flush_loop_none) (simp add: nx u waiting_def del: of_nat_add of_nat_Suc)
  qed
  moreover have "\<not> next_expected u > st_gap_end u"
  proof -
    have "(of_nat (n + 1) :: u64) \<le> of_nat (s - 1)"
      using of_nat_less_u64 [of "s - 1" "n + 1"] n by (simp add: not_less [symmetric] del: of_nat_add of_nat_Suc)
    then show ?thesis using w unfolding nx by (simp add: u waiting_def not_less del: of_nat_add of_nat_Suc)
  qed
  ultimately have "flush_contiguous u = u" by (simp add: flush_contiguous_def Let_def)
  then show ?thesis using w p nx unfolding waiting_def by (simp add: u)
qed

lemma waiting_push_last:
  assumes w: "waiting n s f r t" and f: "legal_frame f s" and e: "legal_frame e n" and n: "n + 1 = s" "s + 1 < 2 ^ 64"
  shows "clean (s + 1) (r @ [e, f]) (snd (push t e))"
proof -
  define u where "u = deliver t e"
  have u: "st_window u = st_window t" "st_ready u = st_ready t @ [e]" "st_gap_start u = st_gap_start t"
    "st_gap_end u = st_gap_end t" by (simp_all add: u_def)
  have p: "push t e = (True, flush_contiguous u)"
    using push_legal(1) [OF e, of t] w e by (simp add: waiting_def legal_frame_def u_def)
  have nx: "next_expected u = of_nat s" using w n by (auto simp: waiting_def u_def)
  have i: "window_index (of_nat s) = s mod 64" using n by (intro window_index_of_nat) simp
  obtain d where d: "sl_data (st_window t (s mod 64)) = f @ d" using w by (auto simp: waiting_def)
  have len: "unat (of_nat (length f) :: u16) = length f" using f by (intro unat_length_u16) (simp add: legal_frame_def)
  have sq: "frame_seq (f @ d) = of_nat s" using f by (simp add: legal_frame_def)
  have occ: "sl_occupied (st_window t (s mod 64))" and sl: "sl_length (st_window t (s mod 64)) = of_nat (length f)"
    using w by (simp_all add: waiting_def)
  have s1: "flush_loop u = flush_loop (take_slot u)"
    by (rule flush_loop_take) (simp_all add: nx i u occ d sq)
  have tk: "next_expected (take_slot u) = of_nat (s + 1)" "st_ready (take_slot u) = r @ [e, f]"
    "st_window (take_slot u) = (st_window t)(s mod 64 := (st_window t (s mod 64))\<lparr>sl_occupied := False, sl_length := 0\<rparr>)"
    "st_gap_start (take_slot u) = st_gap_start t" "st_gap_end (take_slot u) = of_nat (s - 1)"
    using w by (simp_all add: take_slot_def Let_def nx i u d sl len waiting_def add.commute)
  have free: "\<not> sl_occupied (st_window (take_slot u) j)" if "j < 64" for j
    using w that by (simp add: tk waiting_def)
  have "flush_loop (take_slot u) = take_slot u" by (rule flush_loop_none) (simp add: free)
  moreover have "(of_nat (s - 1) :: u64) < of_nat (s + 1)"
    using of_nat_less_u64 [of "s - 1" "s + 1"] n by (simp del: of_nat_add of_nat_Suc)
  ultimately have "flush_contiguous u = clear_gap (take_slot u)"
    using s1 tk w by (simp add: flush_contiguous_def Let_def waiting_def del: of_nat_add of_nat_Suc)
  then show ?thesis using p tk free unfolding clean_def by (simp add: clear_gap_def)
qed

text \<open>A frame that the parser accepts as a whole, with number \<open>i\<close>.\<close>

definition session_frame :: "bytes \<Rightarrow> nat \<Rightarrow> bool" where
  "session_frame f i \<longleftrightarrow> pm_status (parse_message f) = Ok \<and> pm_consumed (parse_message f) = length f \<and>
     frame_seq f = of_nat i"

lemma session_frame_legal: "session_frame f i \<Longrightarrow> legal_frame f i"
  using parse_ok_consumed [of f] by (simp add: session_frame_def legal_frame_def kMaxMessageSize_def)

lemma push_recovered_frame:
  assumes "session_frame f i"
  shows "push_recovered t (f @ rest) = push_recovered (snd (push t f)) rest"
proof -
  have "20 \<le> length f" using session_frame_legal [OF assms] by (simp add: legal_frame_def)
  then have f: "f \<noteq> []" "length f \<noteq> 0" by auto
  have "parse_message (f @ rest) = parse_message f"
    using assms by (intro parse_message_front) (simp add: session_frame_def)
  then show ?thesis using assms f by (subst push_recovered.simps) (simp add: session_frame_def Let_def)
qed

lemma push_recovered_Nil [simp]: "push_recovered t [] = t"
  by (subst push_recovered.simps) simp

lemma push_recovered_gap:
  assumes F: "\<And>i. n \<le> i \<Longrightarrow> i \<le> s \<Longrightarrow> session_frame (F i) i" and s: "n < s" "s + 1 < 2 ^ 64"
    and w: "waiting n s (F s) r t"
  shows "clean (s + 1) (r @ map F [n..<s + 1]) (push_recovered t (concat (map F [n..<s])))"
  using F s(1) w
proof (induction "s - n" arbitrary: n r t)
  case (Suc k)
  have e: "session_frame (F n) n" "session_frame (F s) s" using Suc.prems by simp_all
  have up: "[n..<s] = n # [n + 1..<s]" "[n..<s + 1] = n # [n + 1..<s + 1]"
    using Suc.prems(2) by (simp_all add: upt_conv_Cons)
  have st: "push_recovered t (concat (map F [n..<s])) =
      push_recovered (snd (push t (F n))) (concat (map F [n + 1..<s]))"
    unfolding up by (simp add: push_recovered_frame [OF e(1)])
  show ?case
  proof (cases "n + 1 = s")
    case True
    have "clean (s + 1) (r @ [F n, F s]) (snd (push t (F n)))"
      using waiting_push_last [OF Suc.prems(3)] e session_frame_legal True s(2) by blast
    then show ?thesis unfolding st using True up by simp
  next
    case False
    then have ns: "n + 1 < s" using Suc.prems(2) by simp
    have "waiting (n + 1) s (F s) (r @ [F n]) (snd (push t (F n)))"
      using waiting_push_inner [OF Suc.prems(3)] e session_frame_legal ns s(2) by (metis add_lessD1)
    from Suc.hyps(1) [OF _ _ ns this] Suc.hyps(2) Suc.prems(1)
    have "clean (s + 1) ((r @ [F n]) @ map F [n + 1..<s + 1])
        (push_recovered (snd (push t (F n))) (concat (map F [n + 1..<s])))" by simp
    then show ?thesis unfolding st unfolding up(2) by (simp del: upt_Suc)
  qed
qed simp

lemma recv_loop_all:
  "[] \<notin> set cs \<Longrightarrow> recv_loop (length got + length (concat cs)) got cs = got @ concat cs"
proof (induction cs arbitrary: got)
  case (Cons c cs)
  then have "c \<noteq> []" "take (length (concat (c # cs))) c = c" by auto
  then show ?case using Cons.IH [of "got @ c"] Cons.prems by (simp add: add.assoc)
qed simp

section \<open>What the threads leave alone\<close>

text \<open>Consuming and publishing events do not touch the tracker or the book.\<close>

lemma now_ns_simps [simp]:
  "fh_tracker (snd (now_ns env h)) = fh_tracker h" "fh_book (snd (now_ns env h)) = fh_book h"
  "fst (now_ns env h) = ev_clock env (fh_clock h)" "snd (now_ns env h) = h\<lparr>fh_clock := fh_clock h + 1\<rparr>"
  by (simp_all add: now_ns_def)

abbreviation messages_of :: "'h FeedHandler \<Rightarrow> u64" where
  "messages_of h \<equiv> ps_messages (fh_stats h)"

lemma consumer_turn_core [simp]:
  "fh_tracker (consumer_turn env h) = fh_tracker h" "fh_book (consumer_turn env h) = fh_book h"
  "messages_of (consumer_turn env h) = messages_of h"
  unfolding consumer_turn_def now_ns_def
  by (auto simp: Let_def split: prod.splits option.splits EventKind.splits)

lemma consumer_turns_core [simp]:
  "fh_tracker ((consumer_turn env ^^ n) h) = fh_tracker h" "fh_book ((consumer_turn env ^^ n) h) = fh_book h"
  "messages_of ((consumer_turn env ^^ n) h) = messages_of h"
  by (induction n) simp_all

lemma consumer_runs_core [simp]:
  "fh_tracker (consumer_runs env h) = fh_tracker h" "fh_book (consumer_runs env h) = fh_book h"
  "messages_of (consumer_runs env h) = messages_of h"
  by (simp_all add: consumer_runs_def)

lemma publish_tries_core [simp]:
  "fh_tracker (snd (publish_tries env ev n h)) = fh_tracker h"
  "fh_book (snd (publish_tries env ev n h)) = fh_book h"
  "messages_of (snd (publish_tries env ev n h)) = messages_of h"
  by (induction n arbitrary: h) (simp_all add: Let_def split: prod.splits bool.splits)

lemma publish_core [simp]:
  "fh_tracker (snd (publish env ev h)) = fh_tracker h" "fh_book (snd (publish env ev h)) = fh_book h"
  "messages_of (snd (publish env ev h)) = messages_of h"
  by (simp_all add: publish_def)

lemma publish_tick_core [simp]:
  "fh_tracker (publish_tick env x h) = fh_tracker h" "fh_book (publish_tick env x h) = fh_book h"
  "messages_of (publish_tick env x h) = messages_of h"
  by (simp_all add: publish_tick_def split: option.splits)

lemma publish_trade_core [simp]:
  "fh_tracker (publish_trade env p h) = fh_tracker h" "fh_book (publish_trade env p h) = fh_book h"
  "messages_of (publish_trade env p h) = messages_of h"
  by (simp_all add: publish_trade_def split: ParsedPayload.splits)

lemma handle_parsed_core [simp]:
  "fh_tracker (handle_parsed env msg a b h) = fh_tracker h"
  "fh_book (handle_parsed env msg a b h) = fst (book_step (fh_book h) (pm_payload msg))"
  "messages_of (handle_parsed env msg a b h) = messages_of h + 1"
  unfolding handle_parsed_def now_ns_def
  by (auto simp: Let_def note_message_def split: prod.splits)

definition frame_payload :: "bytes \<Rightarrow> ParsedPayload" where
  "frame_payload f = pm_payload (parse_message f)"

lemma handle_frames_core:
  assumes "\<forall>f \<in> set fs. pm_status (parse_message f) = Ok"
  shows "fh_tracker (foldl (handle_frame env a b) h fs) = fh_tracker h \<and>
    fh_book (foldl (handle_frame env a b) h fs) = book_run (fh_book h) (map frame_payload fs) \<and>
    messages_of (foldl (handle_frame env a b) h fs) = messages_of h + of_nat (length fs)"
  using assms
proof (induction fs arbitrary: h)
  case (Cons f fs)
  then show ?case by (simp add: handle_frame_def Let_def book_run_def frame_payload_def)
qed (simp add: book_run_def)

section \<open>From the queue to the consumers\<close>

definition tick_list :: "PipelineEvent list \<Rightarrow> NormalizedTick list" where
  "tick_list evs = map pe_tick (filter (\<lambda>e. pe_kind e = Tick) evs)"

definition trade_list :: "PipelineEvent list \<Rightarrow> TradeEvent list" where
  "trade_list evs = map pe_trade (filter (\<lambda>e. pe_kind e = TradeEvt) evs)"

text \<open>The consumers of \<open>h\<close> are those of \<open>h0\<close> after exactly the events \<open>evs\<close>.\<close>

definition delivered :: "'h FeedHandler \<Rightarrow> 'h FeedHandler \<Rightarrow> PipelineEvent list \<Rightarrow> bool" where
  "delivered h0 h evs \<longleftrightarrow> \<not> fh_stuck h \<and>
     fh_bbo h = foldl bbo_on_tick (fh_bbo h0) (tick_list evs) \<and>
     fh_tape h = foldl tape_on_trade (fh_tape h0) (trade_list evs) \<and>
     bars_run (fh_bars h0) (trade_list evs) = Some (fh_bars h)"

text \<open>
  The accepted events \<open>acc\<close> are those delivered followed by those in the queue. When the
  consumer keeps up (\<open>k\<close>), at most one event is waiting.
\<close>

definition pipe_inv :: "bool \<Rightarrow> 'h FeedHandler \<Rightarrow> 'h FeedHandler \<Rightarrow> PipelineEvent list \<Rightarrow> bool" where
  "pipe_inv k h0 h acc \<longleftrightarrow> (\<forall>ts. bars_run (fh_bars h0) ts \<noteq> None) \<and>
     (\<exists>out xs. acc = out @ xs \<and> queue_rep kEventQueueCapacity (fh_queue h) xs \<and> delivered h0 h out \<and>
        (k \<longrightarrow> length xs \<le> 1))"

definition pipe_state :: "'h FeedHandler \<Rightarrow> _" where
  "pipe_state h = (fh_queue h, fh_bbo h, fh_tape h, fh_bars h, fh_stuck h)"

lemma pipe_state_updates [simp]:
  "pipe_state (h\<lparr>fh_clock := c\<rparr>) = pipe_state h" "pipe_state (h\<lparr>fh_tracker := t\<rparr>) = pipe_state h"
  "pipe_state (h\<lparr>fh_stats := s\<rparr>) = pipe_state h" "pipe_state (h\<lparr>fh_book := b\<rparr>) = pipe_state h"
  by (simp_all add: pipe_state_def)

lemma pipe_inv_cong: "pipe_state h = pipe_state h' \<Longrightarrow> pipe_inv k h0 h acc = pipe_inv k h0 h' acc"
  by (simp add: pipe_state_def pipe_inv_def delivered_def)

lemma cap_ok_events: "cap_ok kEventQueueCapacity"
  unfolding cap_ok_def kEventQueueCapacity_def by (intro exI [of _ 14]) simp

lemma unat_events: "unat kEventQueueCapacity = 16384"
  by (simp add: kEventQueueCapacity_def)

lemma bars_run_snoc:
  "bars_run g (ts @ [t]) = (case bars_run g ts of None \<Rightarrow> None | Some g' \<Rightarrow> bars_on_trade g' t)"
proof (induction ts arbitrary: g)
  case Nil
  show ?case by (simp split: option.splits)
next
  case (Cons u ts)
  then show ?case by (simp split: option.splits)
qed

lemma delivered_turn:
  assumes d: "delivered h0 h out" and tot: "\<forall>ts. bars_run (fh_bars h0) ts \<noteq> None"
    and pop: "try_pop kEventQueueCapacity (fh_queue h) = (Some ev, q)"
  shows "delivered h0 (consumer_turn env h) (out @ [ev])" "fh_queue (consumer_turn env h) = q"
proof -
  have ns: "\<not> fh_stuck h" using d by (simp add: delivered_def)
  have "delivered h0 (consumer_turn env h) (out @ [ev]) \<and> fh_queue (consumer_turn env h) = q"
  proof (cases "pe_kind ev")
    case Tick
    then show ?thesis using d ns pop
      by (simp add: consumer_turn_def now_ns_def Let_def delivered_def tick_list_def trade_list_def)
  next
    case TradeEvt
    have run: "bars_run (fh_bars h0) (trade_list out) = Some (fh_bars h)" using d by (simp add: delivered_def)
    have "bars_run (fh_bars h0) (trade_list out @ [pe_trade ev]) \<noteq> None" using tot by blast
    then obtain g where g: "bars_on_trade (fh_bars h) (pe_trade ev) = Some g"
      using run by (auto simp: bars_run_snoc)
    then have "bars_run (fh_bars h0) (trade_list (out @ [ev])) = Some g"
      using run TradeEvt by (simp add: trade_list_def bars_run_snoc)
    moreover have "tick_list (out @ [ev]) = tick_list out" "trade_list (out @ [ev]) = trade_list out @ [pe_trade ev]"
      using TradeEvt by (simp_all add: tick_list_def trade_list_def)
    ultimately show ?thesis using d ns pop TradeEvt g
      by (simp add: consumer_turn_def now_ns_def Let_def delivered_def)
  qed
  then show "delivered h0 (consumer_turn env h) (out @ [ev])" "fh_queue (consumer_turn env h) = q" by blast+
qed

lemma consumer_turn_rep:
  assumes q: "queue_rep kEventQueueCapacity (fh_queue h) xs" and d: "delivered h0 h out"
    and tot: "\<forall>ts. bars_run (fh_bars h0) ts \<noteq> None"
  shows "queue_rep kEventQueueCapacity (fh_queue (consumer_turn env h)) (tl xs) \<and>
    delivered h0 (consumer_turn env h) (out @ take 1 xs)"
proof (cases "try_pop kEventQueueCapacity (fh_queue h)")
  case (Pair y q')
  note l = spsc.pop_law [OF q Pair]
  show ?thesis
  proof (cases xs)
    case Nil
    then have y: "y = None" "queue_rep kEventQueueCapacity q' []" using l by simp_all
    have "\<not> fh_stuck h" using d by (simp add: delivered_def)
    then have "consumer_turn env h = h\<lparr>fh_queue := q'\<rparr>" using Pair y by (simp add: consumer_turn_def)
    then show ?thesis using Nil y d by (simp add: delivered_def)
  next
    case (Cons x xs')
    then have y: "y = Some x" "queue_rep kEventQueueCapacity q' xs'" using l by simp_all
    then show ?thesis using delivered_turn [OF d tot, of x q' env] Pair Cons by simp
  qed
qed

lemma consumer_turns_rep:
  assumes "queue_rep kEventQueueCapacity (fh_queue h) xs" "delivered h0 h out"
    "\<forall>ts. bars_run (fh_bars h0) ts \<noteq> None"
  shows "queue_rep kEventQueueCapacity (fh_queue ((consumer_turn env ^^ n) h)) (drop n xs) \<and>
    delivered h0 ((consumer_turn env ^^ n) h) (out @ take n xs)"
proof (induction n)
  case 0
  show ?case using assms by simp
next
  case (Suc n)
  have "tl (drop n xs) = drop (Suc n) xs" by (simp add: drop_Suc tl_drop)
  moreover have "out @ take (Suc n) xs = (out @ take n xs) @ take 1 (drop n xs)"
    using take_add [of n 1 xs] by simp
  ultimately show ?case
    using consumer_turn_rep [OF conjunct1 [OF Suc] conjunct2 [OF Suc] assms(3), of env] by simp
qed

lemma consumer_runs_inv:
  assumes "pipe_inv k h0 h acc" "k \<longrightarrow> 1 \<le> ev_turns env (fh_sched h)"
  shows "\<exists>out xs. acc = out @ xs \<and> queue_rep kEventQueueCapacity (fh_queue (consumer_runs env h)) xs \<and>
    delivered h0 (consumer_runs env h) out \<and> (k \<longrightarrow> xs = [])"
proof -
  obtain out xs where x: "acc = out @ xs" "queue_rep kEventQueueCapacity (fh_queue h) xs" "delivered h0 h out"
    "k \<longrightarrow> length xs \<le> 1" and tot: "\<forall>ts. bars_run (fh_bars h0) ts \<noteq> None"
    using assms(1) by (auto simp: pipe_inv_def)
  let ?n = "ev_turns env (fh_sched h)" and ?h = "h\<lparr>fh_sched := fh_sched h + 1\<rparr>"
  have "queue_rep kEventQueueCapacity (fh_queue ?h) xs" "delivered h0 ?h out"
    using x by (simp_all add: delivered_def)
  from consumer_turns_rep [OF this tot, where env = env and n = ?n]
  have "queue_rep kEventQueueCapacity (fh_queue (consumer_runs env h)) (drop ?n xs) \<and>
    delivered h0 (consumer_runs env h) (out @ take ?n xs)" by (simp add: consumer_runs_def)
  moreover have "k \<longrightarrow> drop ?n xs = []" using x(4) assms(2) by auto
  ultimately show ?thesis using x(1) by (intro exI [of _ "out @ take ?n xs"] exI [of _ "drop ?n xs"]) simp
qed

lemma publish_tries_inv:
  assumes "pipe_inv k h0 h acc" "k \<longrightarrow> (\<forall>n. 1 \<le> ev_turns env n) \<and> 0 < n"
  shows "pipe_inv k h0 (snd (publish_tries env ev n h)) (acc @ (if fst (publish_tries env ev n h) then [ev] else [])) \<and>
    (k \<longrightarrow> fst (publish_tries env ev n h))"
  using assms
proof (induction n arbitrary: h)
  case (Suc n)
  let ?h = "consumer_runs env h"
  obtain out xs where x: "acc = out @ xs" "queue_rep kEventQueueCapacity (fh_queue ?h) xs" "delivered h0 ?h out"
    "k \<longrightarrow> xs = []" using consumer_runs_inv [OF Suc.prems(1), of env] Suc.prems(2) by blast
  have tot: "\<forall>ts. bars_run (fh_bars h0) ts \<noteq> None" using Suc.prems(1) by (simp add: pipe_inv_def)
  obtain ok q where p: "try_push kEventQueueCapacity ev (fh_queue ?h) = (ok, q)" by fastforce
  note l = spsc.push_law [OF x(2) p]
  have d: "delivered h0 (?h\<lparr>fh_queue := q\<rparr>) out" using x(3) by (simp add: delivered_def)
  show ?case
  proof (cases "length xs < unat kEventQueueCapacity")
    case True
    then have "publish_tries env ev (Suc n) h = (True, ?h\<lparr>fh_queue := q\<rparr>)" using p l by (simp add: Let_def)
    moreover have "pipe_inv k h0 (?h\<lparr>fh_queue := q\<rparr>) (acc @ [ev])"
      unfolding pipe_inv_def using x(1,4) l True d tot
      by (intro conjI exI [of _ out] exI [of _ "xs @ [ev]"]) auto
    ultimately show ?thesis by simp
  next
    case False
    then have nk: "\<not> k" using x(4) unat_events by auto
    have e: "publish_tries env ev (Suc n) h = publish_tries env ev n (?h\<lparr>fh_queue := q\<rparr>)"
      using False p l by (simp add: Let_def)
    have "pipe_inv k h0 (?h\<lparr>fh_queue := q\<rparr>) acc"
      unfolding pipe_inv_def using x(1) l False d tot nk
      by (intro conjI exI [of _ out] exI [of _ xs]) auto
    from Suc.IH [OF this] nk show ?thesis unfolding e by simp
  qed
qed simp


lemma publish_inv:
  assumes "pipe_inv k h0 h acc" "k \<longrightarrow> (\<forall>n. 1 \<le> ev_turns env n)"
  shows "pipe_inv k h0 (snd (publish env ev h)) (acc @ (if fst (publish env ev h) then [ev] else [])) \<and>
    (k \<longrightarrow> fst (publish env ev h))"
  unfolding publish_def by (rule publish_tries_inv) (use assms in simp_all)

text \<open>
  From \<open>h\<close> to \<open>h'\<close> the handler has offered the events \<open>evs\<close>: some of them, in order, were
  accepted, and all of them when the consumer keeps up.
\<close>

definition carries :: "bool \<Rightarrow> 'h FeedHandler \<Rightarrow> 'h FeedHandler \<Rightarrow> PipelineEvent list \<Rightarrow> bool" where
  "carries k h h' evs \<longleftrightarrow> (\<forall>h0 acc. pipe_inv k h0 h acc \<longrightarrow>
     (\<exists>acc'. pipe_inv k h0 h' (acc @ acc') \<and> subseq acc' evs \<and> (k \<longrightarrow> acc' = evs)))"

lemma carries_same: "pipe_state h = pipe_state h' \<Longrightarrow> carries k h h' []"
  unfolding carries_def using pipe_inv_cong [of h h'] by (intro allI impI exI [of _ "[]"]) simp

lemma carries_trans:
  assumes "carries k h1 h2 xs" "carries k h2 h3 ys"
  shows "carries k h1 h3 (xs @ ys)"
  unfolding carries_def
proof (intro allI impI)
  fix h0 acc
  assume "pipe_inv k h0 h1 acc"
  then obtain a where a: "pipe_inv k h0 h2 (acc @ a)" "subseq a xs" "k \<longrightarrow> a = xs"
    using assms(1) unfolding carries_def by blast
  then obtain b where b: "pipe_inv k h0 h3 ((acc @ a) @ b)" "subseq b ys" "k \<longrightarrow> b = ys"
    using assms(2) unfolding carries_def by blast
  show "\<exists>acc'. pipe_inv k h0 h3 (acc @ acc') \<and> subseq acc' (xs @ ys) \<and> (k \<longrightarrow> acc' = xs @ ys)"
    using a b by (intro exI [of _ "a @ b"]) (auto intro: list_emb_append_mono)
qed

lemma carries_left: "pipe_state h1 = pipe_state h2 \<Longrightarrow> carries k h2 h3 xs \<Longrightarrow> carries k h1 h3 xs"
  using carries_trans [OF carries_same] by fastforce

lemma carries_right: "carries k h1 h2 xs \<Longrightarrow> pipe_state h2 = pipe_state h3 \<Longrightarrow> carries k h1 h3 xs"
  using carries_trans [OF _ carries_same] by fastforce

lemma carries_publish:
  assumes "k \<longrightarrow> (\<forall>n. 1 \<le> ev_turns env n)"
  shows "carries k h (snd (publish env ev h)) [ev]"
  unfolding carries_def
proof (intro allI impI)
  fix h0 acc
  assume "pipe_inv k h0 h acc"
  from publish_inv [OF this assms, of ev]
  show "\<exists>acc'. pipe_inv k h0 (snd (publish env ev h)) (acc @ acc') \<and> subseq acc' [ev] \<and> (k \<longrightarrow> acc' = [ev])"
    by (intro exI [of _ "if fst (publish env ev h) then [ev] else []"]) auto
qed

text \<open>The events of one message and of a sequence of messages, from the book alone.\<close>

definition step_events :: "BookBuilder \<Rightarrow> ParsedPayload \<Rightarrow> PipelineEvent list" where
  "step_events b p =
     (case snd (book_step b p) of None \<Rightarrow> [] | Some t \<Rightarrow> [tick_event t]) @
     (case p of P_Trade m \<Rightarrow> [trade_event m] | _ \<Rightarrow> [])"

fun session_events :: "BookBuilder \<Rightarrow> ParsedPayload list \<Rightarrow> PipelineEvent list" where
  "session_events b [] = []"
| "session_events b (p # ps) = step_events b p @ session_events (fst (book_step b p)) ps"

lemma session_events_append:
  "session_events b (ps @ qs) = session_events b ps @ session_events (book_run b ps) qs"
  by (induction ps arbitrary: b) (simp_all add: book_run_def)

lemma carries_publish_tick:
  "k \<longrightarrow> (\<forall>n. 1 \<le> ev_turns env n) \<Longrightarrow>
   carries k h (publish_tick env x h) (case x of None \<Rightarrow> [] | Some t \<Rightarrow> [tick_event t])"
  by (simp add: publish_tick_def carries_same carries_publish split: option.splits)

lemma carries_handle_parsed:
  assumes "k \<longrightarrow> (\<forall>n. 1 \<le> ev_turns env n)"
  shows "carries k h (handle_parsed env msg a b h) (step_events (fh_book h) (pm_payload msg))"
proof -
  obtain book x where s: "book_step (fh_book h) (pm_payload msg) = (book, x)" by fastforce
  define h1 where "h1 = h\<lparr>fh_stats := note_message ((fh_stats h)\<lparr>ps_wire_to_parse :=
      lat_record (ev_hdr env) (ps_wire_to_parse (fh_stats h)) (sint (b - a))\<rparr>), fh_clock := fh_clock h + 1, fh_book := book\<rparr>"
  define h2 where "h2 = publish_tick env x h1"
  define h3 where "h3 = publish_trade env (pm_payload msg) h2"
  have e: "pipe_state (handle_parsed env msg a b h) = pipe_state h3" "pipe_state h = pipe_state h1"
    unfolding handle_parsed_def h1_def h2_def h3_def pipe_state_def by (simp_all add: Let_def s now_ns_def)
  have "carries k h1 h2 (case x of None \<Rightarrow> [] | Some t \<Rightarrow> [tick_event t])"
    unfolding h2_def by (rule carries_publish_tick [OF assms])
  moreover have "carries k h2 h3 (case pm_payload msg of P_Trade m \<Rightarrow> [trade_event m] | _ \<Rightarrow> [])"
    unfolding h3_def publish_trade_def
    by (simp add: carries_same carries_publish [OF assms] split: ParsedPayload.splits)
  ultimately have "carries k h1 h3 (step_events (fh_book h) (pm_payload msg))"
    unfolding step_events_def s by (simp add: carries_trans)
  then show ?thesis using e by (metis carries_left carries_right)
qed

lemma carries_handle_frames:
  assumes "k \<longrightarrow> (\<forall>n. 1 \<le> ev_turns env n)" "\<forall>f \<in> set fs. pm_status (parse_message f) = Ok"
  shows "carries k h (foldl (handle_frame env a b) h fs) (session_events (fh_book h) (map frame_payload fs))"
  using assms(2)
proof (induction fs arbitrary: h)
  case Nil
  show ?case by (simp add: carries_same)
next
  case (Cons f fs)
  let ?m = "parse_message f"
  have f: "handle_frame env a b h f = handle_parsed env ?m a b h"
    using Cons.prems by (simp add: handle_frame_def)
  have "carries k h (handle_parsed env ?m a b h) (step_events (fh_book h) (frame_payload f))"
    using carries_handle_parsed [OF assms(1)] by (simp add: frame_payload_def)
  from carries_trans [OF this Cons.IH [of "handle_parsed env ?m a b h"]] Cons.prems
  show ?case by (simp add: f frame_payload_def)
qed

lemma try_recover_pipe [simp]: "pipe_state (try_recover env h) = pipe_state h"
  by (simp add: pipe_state_def try_recover_def now_ns_def Let_def split: recovery_io.splits)

text \<open>After the stop request the consumer empties the queue, flushes the bars and returns.\<close>

lemma consumer_finish_all:
  assumes "queue_rep kEventQueueCapacity (fh_queue h) xs" "delivered h0 h out"
    "\<forall>ts. bars_run (fh_bars h0) ts \<noteq> None"
  shows "\<exists>h'. consumer_finish env h = Some (h'\<lparr>fh_bars := flush_all (fh_bars h')\<rparr>) \<and>
    delivered h0 h' (out @ xs) \<and> fh_book h' = fh_book h \<and> messages_of h' = messages_of h"
  using assms(1,2)
proof (induction xs arbitrary: h out)
  case Nil
  then have "\<not> fh_stuck h" "queue_empty (fh_queue h)"
    using queue_rep_empty by (auto simp: delivered_def)
  then show ?case using Nil by (subst consumer_finish.simps) auto
next
  case (Cons x xs)
  have "\<not> fh_stuck h" "\<not> queue_empty (fh_queue h)"
    using Cons.prems queue_rep_empty by (auto simp: delivered_def)
  then have st: "consumer_finish env h = consumer_finish env (consumer_turn env h)"
    by (subst consumer_finish.simps) simp
  have "queue_rep kEventQueueCapacity (fh_queue (consumer_turn env h)) xs"
    "delivered h0 (consumer_turn env h) (out @ [x])"
    using consumer_turn_rep [OF Cons.prems assms(3), of env] by simp_all
  from Cons.IH [OF this] show ?case unfolding st by simp
qed

lemma book_run_append: "book_run b (ps @ qs) = book_run (book_run b ps) qs"
  by (simp add: book_run_def)

section \<open>Whatever the network does\<close>

text \<open>
  Nothing is assumed of the datagrams or of the answers to recovery requests here. \<open>handled\<close>
  says that the messages applied since \<open>h0\<close> are \<open>fs\<close>: accepted frames numbered 1, 2, 3, ...,
  whose book the handler has and whose events it has offered to the consumer.
\<close>

abbreviation accepted :: "bytes \<Rightarrow> bool" where
  "accepted f \<equiv> pm_status (parse_message f) = Ok"

definition handled ::
    "(bytes \<Rightarrow> bool) \<Rightarrow> bool \<Rightarrow> 'h FeedHandler \<Rightarrow> 'h FeedHandler \<Rightarrow> bytes list \<Rightarrow> bool" where
  "handled P k h0 h fs \<longleftrightarrow> tracker_inv P (fh_tracker h, fs) \<and> st_ready (fh_tracker h) = [] \<and>
     fh_book h = book_run init_BookBuilder (map frame_payload fs) \<and> messages_of h = of_nat (length fs) \<and>
     carries k h0 h (session_events init_BookBuilder (map frame_payload fs))"

lemma handled_clock: "handled P k h0 h fs \<Longrightarrow> handled P k h0 (h\<lparr>fh_clock := c\<rparr>) fs"
  using carries_right [of k h0 h _ "h\<lparr>fh_clock := c\<rparr>"] by (simp del: tracker_inv.simps add: handled_def)

lemma handled_next: "handled P k h0 h fs \<Longrightarrow> next_expected (fh_tracker h) = of_nat (length fs + 1)"
  by (auto simp: handled_def seq_log_def dest!: arg_cong [of _ _ length])

text \<open>The frames that come with the replies to recovery requests, and those of the datagrams.\<close>

definition replied :: "'h env \<Rightarrow> bytes \<Rightarrow> bool" where
  "replied env f \<longleftrightarrow> (\<exists>k req resp chunks. ev_net env k req = Replied resp chunks \<and> sublist f (concat chunks))"

definition arrived :: "'h env \<Rightarrow> bytes option list \<Rightarrow> bytes \<Rightarrow> bool" where
  "arrived env turns f \<longleftrightarrow> accepted f \<and> ((\<exists>bs. Some bs \<in> set turns \<and> prefix f bs) \<or> replied env f)"

lemma recv_loop_prefix: "prefix (recv_loop want got cs) (got @ concat cs)"
proof (induction cs arbitrary: got)
  case (Cons c cs)
  let ?n = "take (want - length got) c"
  consider "\<not> length got < want \<or> ?n = []" | "length got < want" "?n = c" | "length got < want" "?n \<noteq> c" "?n \<noteq> []"
    by blast
  then show ?case
  proof cases
    case 3
    then have "length (got @ ?n) = want" by auto
    then have "recv_loop want (got @ ?n) cs = got @ ?n" by (cases cs) auto
    then have "recv_loop want got (c # cs) = got @ ?n" using 3 by (simp add: Let_def)
    then show ?thesis by (simp add: prefix_def) (metis append_assoc append_take_drop_id)
  qed (use Cons.IH [of "got @ c"] in \<open>auto simp: Let_def\<close>)
qed simp

lemma push_recovered_inv:
  "tracker_inv P (t, seen) \<Longrightarrow> (\<And>f. accepted f \<Longrightarrow> sublist f data \<Longrightarrow> P f) \<Longrightarrow>
   tracker_inv P (push_recovered t data, seen)"
proof (induction t data rule: push_recovered.induct)
  case (1 t data)
  let ?m = "parse_message data"
  show ?case
  proof (cases "data = [] \<or> pm_status ?m \<noteq> Ok \<or> pm_consumed ?m = 0")
    case True
    then show ?thesis using "1.prems" by (subst push_recovered.simps) (auto simp del: tracker_inv.simps simp: Let_def)
  next
    case False
    have "accepted (take (pm_consumed ?m) data)" using False parse_ok_consumed(4) [of data] by simp
    then have "P (take (pm_consumed ?m) data)" using "1.prems"(2) sublist_take by blast
    from push_inv [OF "1.prems"(1) this]
    have "tracker_inv P (snd (push t (take (pm_consumed ?m) data)), seen)" .
    moreover have "P f" if "accepted f" "sublist f (drop (pm_consumed ?m) data)" for f
      using that "1.prems"(2) sublist_order.order_trans [OF that(2) sublist_drop] by blast
    ultimately show ?thesis using "1.IH" [OF _ refl] False
      by (subst push_recovered.simps) (auto simp del: tracker_inv.simps simp: Let_def)
  qed
qed

lemma try_recover_inv:
  assumes "tracker_inv P (fh_tracker h, seen)" "\<And>f. accepted f \<Longrightarrow> replied env f \<Longrightarrow> P f"
  shows "tracker_inv P (fh_tracker (try_recover env h), seen)" "fh_book (try_recover env h) = fh_book h"
    "messages_of (try_recover env h) = messages_of h"
proof -
  have "tracker_inv P (push_recovered (fh_tracker h) (recv_loop n [] chunks), seen)"
    if "ev_net env i req = Replied resp chunks" for i req resp chunks n
    using assms(1)
  proof (rule push_recovered_inv)
    fix f assume f: "accepted f" "sublist f (recv_loop n [] chunks)"
    have "sublist (recv_loop n [] chunks) (concat chunks)" using recv_loop_prefix [of n "[]" chunks] by auto
    then show "P f" using f that assms(2) sublist_order.order_trans unfolding replied_def by blast
  qed
  then show "tracker_inv P (fh_tracker (try_recover env h), seen)"
    using assms(1)
    by (auto simp del: tracker_inv.simps simp: try_recover_def now_ns_def Let_def other_ops_inv split: recovery_io.splits)
qed (auto simp: try_recover_def now_ns_def Let_def split: recovery_io.splits)

text \<open>Frames that are ready stay ready, and the next frame is ready as soon as it is pushed.\<close>

lemma flush_loop_ready: "prefix (st_ready t) (st_ready (flush_loop t))"
  by (rule flush_loop_induct) (auto simp: prefix_def take_slot_ready)

lemma push_ready:
  "prefix (st_ready t) (st_ready (snd (push t f)))"
  "frame_seq f = next_expected t \<Longrightarrow> 20 \<le> length f \<Longrightarrow> length f \<le> 44 \<Longrightarrow> st_ready (snd (push t f)) \<noteq> []"
proof -
  have d: "prefix (st_ready t @ [f]) (st_ready (flush_contiguous (deliver t f)))"
    using flush_loop_ready [of "deliver t f"] by (simp add: flush_contiguous_def Let_def clear_gap_def)
  then have "prefix (st_ready t) (st_ready (flush_contiguous (deliver t f)))" by (auto simp: prefix_def)
  then show "prefix (st_ready t) (st_ready (snd (push t f)))"
    by (cases rule: push_cases [of f t])
      (simp_all add: buffer_ooo_def widen_gap_def store_ooo_def note_drop_def Let_def)
  show "st_ready (snd (push t f)) \<noteq> []" if "frame_seq f = next_expected t" "20 \<le> length f" "length f \<le> 44"
    using that d by (cases rule: push_cases [of f t]) auto
qed

lemma try_recover_ready: "prefix (st_ready (fh_tracker h)) (st_ready (fh_tracker (try_recover env h)))"
proof -
  have "prefix (st_ready t) (st_ready (push_recovered t data))" for t data
  proof (induction t data rule: push_recovered.induct)
    case (1 t data)
    then show ?case using push_ready(1) prefix_order.order_trans
      by (subst push_recovered.simps) (force simp: Let_def)
  qed
  then show ?thesis
    by (auto simp: try_recover_def now_ns_def Let_def note_recovery_def clear_gap_def split: recovery_io.splits)
qed

lemma process_datagram_handled:
  assumes h: "handled P k h0 h fs" and keep: "k \<longrightarrow> (\<forall>n. 1 \<le> ev_turns env n)"
    and P: "\<And>f. P f \<Longrightarrow> accepted f" "\<And>f. accepted f \<Longrightarrow> replied env f \<Longrightarrow> P f"
      "\<And>f. accepted f \<Longrightarrow> prefix f bs \<Longrightarrow> P f"
  shows "\<exists>r. handled P k h0 (process_datagram env bs wire_ns h) (fs @ r) \<and>
    (accepted bs \<and> frame_seq bs = of_nat (length fs + 1) \<longrightarrow> r \<noteq> [])"
proof (cases "accepted bs")
  case False
  then show ?thesis using handled_clock [OF h]
    by (intro exI [of _ "[]"]) (simp add: process_datagram_def now_ns_def)
next
  case True
  define f where "f = take (pm_consumed (parse_message bs)) bs"
  define h1 where "h1 = h\<lparr>fh_clock := fh_clock h + 1, fh_tracker := snd (push (fh_tracker h) f)\<rparr>"
  define h2 where "h2 = (if gap_pending (fh_tracker h1) then try_recover env h1 else h1)"
  define r where "r = st_ready (fh_tracker h2)"
  define h3 where "h3 = foldl (handle_frame env wire_ns (ev_clock env (fh_clock h))) h2 r"
  define h4 where "h4 = h3\<lparr>fh_tracker := clear_ready (fh_tracker h3)\<rparr>"
  have d: "process_datagram env bs wire_ns h = h4"
    using True by (simp add: process_datagram_def now_ns_def Let_def f_def h1_def h2_def r_def h3_def h4_def)
  have f: "P f" "20 \<le> length f" "length f \<le> 44" "frame_seq f = frame_seq bs"
    using True parse_ok_consumed [OF True] P(3) [of f]
    by (simp_all add: f_def kMaxMessageSize_def frame_seq_take take_is_prefix)
  have ne: "r \<noteq> []" if "frame_seq bs = of_nat (length fs + 1)"
  proof -
    have "st_ready (fh_tracker h1) \<noteq> []"
      using push_ready(2) [of f "fh_tracker h"] f(2-4) that handled_next [OF h] by (simp add: h1_def)
    then show ?thesis using try_recover_ready [of h1 env] unfolding r_def h2_def by (cases "gap_pending (fh_tracker h1)") auto
  qed
  have "tracker_inv P (fh_tracker h1, fs)"
    unfolding h1_def using h f(1) push_inv [of P "fh_tracker h" fs f]
    by (simp del: tracker_inv.simps add: handled_def)
  then have h2: "tracker_inv P (fh_tracker h2, fs)" "fh_book h2 = fh_book h" "messages_of h2 = messages_of h"
    using try_recover_inv [of P h1 fs env] P(2) unfolding h2_def by (simp_all del: tracker_inv.simps add: h1_def)
  have ok: "\<forall>x \<in> set r. accepted x" using h2(1) P(1) by (simp add: from_source_def r_def)
  note b = handle_frames_core [OF ok, of env wire_ns "ev_clock env (fh_clock h)" h2, folded h3_def]
  have "pipe_state h = pipe_state h2" by (simp add: h2_def h1_def)
  then have "carries k h0 h2 (session_events init_BookBuilder (map frame_payload fs))"
    using h carries_right unfolding handled_def by blast
  from carries_trans [OF this carries_handle_frames [OF keep ok, of h2 wire_ns "ev_clock env (fh_clock h)", folded h3_def]]
  have "carries k h0 h3 (session_events init_BookBuilder (map frame_payload (fs @ r)))"
    using h h2(2) by (simp add: handled_def session_events_append)
  moreover have "pipe_state h3 = pipe_state h4" by (simp add: h4_def)
  ultimately have "carries k h0 h4 (session_events init_BookBuilder (map frame_payload (fs @ r)))"
    by (rule carries_right)
  moreover have "tracker_inv P (fh_tracker h4, fs @ r)" "st_ready (fh_tracker h4) = []"
    using other_ops_inv(3) [OF h2(1)] b by (simp_all del: tracker_inv.simps add: h4_def r_def) (simp add: clear_ready_def)
  moreover have "fh_book h4 = book_run init_BookBuilder (map frame_payload (fs @ r))"
    using h h2(2) b by (simp add: h4_def handled_def book_run_append)
  moreover have "messages_of h4 = of_nat (length (fs @ r))" using h h2(3) b by (simp add: h4_def handled_def)
  ultimately show ?thesis using ne unfolding d handled_def by blast
qed

text \<open>
  The datagrams of a run that carry the frames \<open>j + 1\<close>, \<open>j + 2\<close>, ... in this order, with
  anything in between.
\<close>

definition feeds_from :: "nat \<Rightarrow> bytes list \<Rightarrow> bytes option list \<Rightarrow> bool" where
  "feeds_from j gs turns \<longleftrightarrow> subseq (map Some gs) turns \<and> list_all (\<lambda>g. accepted g \<and> length g \<le> 2048) gs \<and>
     map frame_seq gs = map of_nat [j + 1..<j + length gs + 1]"

lemma feeds_from_Cons:
  assumes "feeds_from j gs (d # turns)"
  shows "feeds_from j gs turns \<or> (\<exists>g gs'. gs = g # gs' \<and> d = Some g \<and> accepted g \<and> length g \<le> 2048 \<and>
    frame_seq g = of_nat (j + 1) \<and> feeds_from (j + 1) gs' turns)"
proof (cases "subseq (map Some gs) turns")
  case True
  then show ?thesis using assms by (simp add: feeds_from_def)
next
  case False
  then obtain g gs' where g: "gs = g # gs'" "d = Some g" "subseq (map Some gs') turns"
    using assms by (cases gs) (auto simp: feeds_from_def simp del: upt_Suc split: if_splits)
  have "map of_nat [j + 1..<j + length gs + 1] = of_nat (j + 1) # (map of_nat [j + 2..<j + length gs' + 2] :: u64 list)"
    unfolding g(1) by (subst upt_rec) simp
  then show ?thesis using assms g by (auto simp: feeds_from_def simp del: upt_Suc)
qed

lemma run_turns_handled:
  assumes "handled P k h0 h fs" "k \<longrightarrow> (\<forall>n. 1 \<le> ev_turns env n)"
    and P: "\<And>f. P f \<Longrightarrow> accepted f" "\<And>f. accepted f \<Longrightarrow> replied env f \<Longrightarrow> P f"
      "\<forall>f bs. accepted f \<and> Some bs \<in> set turns \<and> prefix f bs \<longrightarrow> P f"
  shows "\<exists>r. handled P k h0 (foldl (run_turn env) h turns) (fs @ r) \<and>
    (\<forall>j gs. feeds_from j gs turns \<and> j \<le> length fs \<longrightarrow> j + length gs \<le> length (fs @ r))"
  using assms(1) P(3)
proof (induction turns arbitrary: h fs)
  case Nil
  have "gs = []" if "feeds_from j gs []" for j gs
    using that by (cases gs) (simp_all add: feeds_from_def)
  then have "\<forall>j gs. feeds_from j gs [] \<and> j \<le> length fs \<longrightarrow> j + length gs \<le> length (fs @ [])"
    by (metis add.right_neutral append_Nil2 list.size(3))
  then show ?case using Nil.prems(1) by (intro exI [of _ "[]"]) simp
next
  case (Cons d turns)
  have "\<exists>r. handled P k h0 (run_turn env h d) (fs @ r) \<and>
    (\<forall>g. d = Some g \<and> accepted g \<and> length g \<le> 2048 \<and> frame_seq g = of_nat (length fs + 1) \<longrightarrow> r \<noteq> [])"
  proof (cases "\<exists>bs. d = Some bs \<and> take 2048 bs \<noteq> []")
    case True
    then obtain bs where bs: "d = Some bs" "take 2048 bs \<noteq> []" by blast
    then have t: "run_turn env h d = process_datagram env (take 2048 bs) (ev_clock env (fh_clock h)) (h\<lparr>fh_clock := fh_clock h + 1\<rparr>)"
      by (simp add: run_turn_def now_ns_def Let_def)
    have "P f" if "accepted f" "prefix f (take 2048 bs)" for f
      using Cons.prems(2) that bs(1) prefix_order.order_trans [OF that(2) take_is_prefix] by auto
    from process_datagram_handled [OF handled_clock [OF Cons.prems(1)] assms(2) P(1,2) this]
    obtain r where "handled P k h0 (run_turn env h d) (fs @ r)"
      "accepted (take 2048 bs) \<and> frame_seq (take 2048 bs) = of_nat (length fs + 1) \<longrightarrow> r \<noteq> []" unfolding t by blast
    then show ?thesis by (intro exI [of _ r]) (simp add: bs(1))
  next
    case False
    then have "run_turn env h d = h" by (auto simp: run_turn_def split: option.splits)
    moreover have "\<not> (d = Some g \<and> accepted g)" for g using False parse_ok_consumed(1,2) [of g] by auto
    ultimately show ?thesis using Cons.prems(1) by (intro exI [of _ "[]"]) auto
  qed
  then obtain r where r: "handled P k h0 (run_turn env h d) (fs @ r)"
    "\<forall>g. d = Some g \<and> accepted g \<and> length g \<le> 2048 \<and> frame_seq g = of_nat (length fs + 1) \<longrightarrow> r \<noteq> []" by blast
  have "\<forall>f bs. accepted f \<and> Some bs \<in> set turns \<and> prefix f bs \<longrightarrow> P f" using Cons.prems(2) by auto
  from Cons.IH [OF r(1) this] obtain r' where r': "handled P k h0 (foldl (run_turn env) (run_turn env h d) turns) ((fs @ r) @ r')"
    "\<forall>j gs. feeds_from j gs turns \<and> j \<le> length (fs @ r) \<longrightarrow> j + length gs \<le> length ((fs @ r) @ r')"
    by blast
  have "j + length gs \<le> length ((fs @ r) @ r')" if j: "feeds_from j gs (d # turns)" "j \<le> length fs" for j gs
    using feeds_from_Cons [OF j(1)]
  proof (elim disjE exE conjE)
    assume "feeds_from j gs turns"
    then show ?thesis using r'(2) j(2) by simp
  next
    fix g gs' assume g: "gs = g # gs'" "d = Some g" "accepted g" "length g \<le> 2048" "frame_seq g = of_nat (j + 1)"
      "feeds_from (j + 1) gs' turns"
    have "j = length fs \<Longrightarrow> r \<noteq> []" using r(2) g(2-5) by blast
    then have "j + 1 \<le> length (fs @ r)" using j(2) by (cases "j = length fs") (simp_all add: Suc_le_eq)
    then show ?thesis using r'(2) g(1,6) by fastforce
  qed
  then show ?case using r'(1) by (intro exI [of _ "r @ r'"]) simp
qed

text \<open>The end of a run: the consumer is joined after it has seen all accepted events.\<close>

definition start_run :: "'h env \<Rightarrow> 'h FeedHandler \<Rightarrow> 'h FeedHandler" where
  "start_run env h = (snd (now_ns env h))\<lparr>fh_stats := (fh_stats h)\<lparr>ps_start_ns := ev_clock env (fh_clock h)\<rparr>\<rparr>"

lemma run_outcome:
  assumes h_def: "h = init_FeedHandler hdr_init opened cfg"
    and vol: "hc_volume_bar_qty cfg \<noteq> 0"
    and c: "carries k (start_run env h) (foldl (run_turn env) (start_run env h) turns) evs"
  shows "\<exists>h' acc g. run env True turns h = Some (0, h') \<and>
    fh_book h' = fh_book (foldl (run_turn env) (start_run env h) turns) \<and>
    messages_of h' = messages_of (foldl (run_turn env) (start_run env h) turns) \<and>
    subseq acc evs \<and> (k \<longrightarrow> acc = evs) \<and>
    fh_bbo h' = foldl bbo_on_tick (fh_bbo h) (tick_list acc) \<and>
    fh_tape h' = foldl tape_on_trade (fh_tape h) (trade_list acc) \<and>
    bars_run (fh_bars h) (trade_list acc) = Some g \<and> fh_bars h' = flush_all g"
proof -
  have "ba_volume_bar_qty (fh_bars h) \<noteq> 0" using vol by (simp add: h_def init_FeedHandler_def init_BarAggregator_def)
  then have tot: "\<forall>ts. bars_run (fh_bars h) ts \<noteq> None" using bars_run_returns by blast
  define h2 where "h2 = foldl (run_turn env) (start_run env h) turns"
  have "pipe_inv k h (start_run env h) []"
    unfolding pipe_inv_def by (intro conjI tot exI [of _ "[]"])
      (simp_all add: delivered_def tick_list_def trade_list_def start_run_def h_def init_FeedHandler_def
        queue_rep_init [OF cap_ok_events])
  then obtain acc where acc: "pipe_inv k h h2 acc" "subseq acc evs" "k \<longrightarrow> acc = evs"
    using c unfolding carries_def h2_def by force
  then obtain out xs where x: "acc = out @ xs" "queue_rep kEventQueueCapacity (fh_queue h2) xs" "delivered h h2 out"
    unfolding pipe_inv_def by blast
  then have "queue_rep kEventQueueCapacity (fh_queue (h2\<lparr>fh_stop := True\<rparr>)) xs" "delivered h (h2\<lparr>fh_stop := True\<rparr>) out"
    by (simp_all add: delivered_def)
  from consumer_finish_all [OF this tot] obtain h3 where h3:
    "consumer_finish env (h2\<lparr>fh_stop := True\<rparr>) = Some (h3\<lparr>fh_bars := flush_all (fh_bars h3)\<rparr>)"
    "delivered h h3 acc" "fh_book h3 = fh_book h2" "messages_of h3 = messages_of h2" using x(1) by force
  define h4 where "h4 = h3\<lparr>fh_bars := flush_all (fh_bars h3), fh_clock := fh_clock h3 + 1, fh_stats :=
    (fh_stats h3)\<lparr>ps_end_ns := ev_clock env (fh_clock h3)\<rparr>\<rparr>"
  have "run env True turns h = Some (0, h4)"
    using h3(1) by (simp add: run_def Let_def now_ns_def h4_def h2_def start_run_def)
  moreover have "fh_book h4 = fh_book h2" "fh_bbo h4 = fh_bbo h3" "fh_tape h4 = fh_tape h3"
    "fh_bars h4 = flush_all (fh_bars h3)" "messages_of h4 = messages_of h2" using h3(3,4) by (simp_all add: h4_def)
  ultimately show ?thesis using h3(2) acc(2,3) unfolding delivered_def h2_def by metis
qed

lemma start_run_init [simp]:
  "fh_tracker (start_run env (init_FeedHandler hdr_init opened cfg)) = init_SequenceTracker"
  "fh_book (start_run env (init_FeedHandler hdr_init opened cfg)) = init_BookBuilder"
  "messages_of (start_run env (init_FeedHandler hdr_init opened cfg)) = 0"
  by (simp_all add: start_run_def init_FeedHandler_def init_PipelineStats_def)

lemma handled_start:
  "handled P k (start_run env (init_FeedHandler hdr_init opened cfg)) (start_run env (init_FeedHandler hdr_init opened cfg)) []"
  using start_inv [of P] unfolding handled_def start_state_def
  by (simp del: tracker_inv.simps add: book_run_def carries_same) (simp add: init_SequenceTracker_def)

lemma run_frames:
  fixes hdr_init :: "int \<Rightarrow> int \<Rightarrow> int \<Rightarrow> 'h option" and opened :: "string \<Rightarrow> bool"
  assumes "hc_volume_bar_qty cfg \<noteq> 0"
  defines "h \<equiv> init_FeedHandler hdr_init opened cfg"
  shows "\<exists>h' fs acc g. run env True turns h = Some (0, h') \<and>
    list_all (arrived env turns) fs \<and> map frame_seq fs = map of_nat [1..<length fs + 1] \<and>
    (\<forall>gs. feeds_from 0 gs turns \<longrightarrow> length gs \<le> length fs) \<and>
    fh_book h' = book_run init_BookBuilder (map frame_payload fs) \<and> ps_messages (fh_stats h') = of_nat (length fs) \<and>
    subseq acc (session_events init_BookBuilder (map frame_payload fs)) \<and>
    ((\<forall>n. 1 \<le> ev_turns env n) \<longrightarrow> acc = session_events init_BookBuilder (map frame_payload fs)) \<and>
    fh_bbo h' = foldl bbo_on_tick (fh_bbo h) (tick_list acc) \<and>
    fh_tape h' = foldl tape_on_trade (fh_tape h) (trade_list acc) \<and>
    bars_run (fh_bars h) (trade_list acc) = Some g \<and> fh_bars h' = flush_all g"
proof -
  let ?k = "\<forall>n. 1 \<le> ev_turns env n" and ?e = "foldl (run_turn env) (start_run env h) turns"
  obtain fs where fs: "handled (arrived env turns) ?k (start_run env h) ?e fs"
    "\<forall>gs. feeds_from 0 gs turns \<longrightarrow> length gs \<le> length fs"
    using run_turns_handled [OF handled_start, of ?k env "arrived env turns" turns env hdr_init opened cfg]
    unfolding h_def [symmetric] by (auto simp: arrived_def)
  from fs(1) have ev: "carries ?k (start_run env h) ?e (session_events init_BookBuilder (map frame_payload fs))"
    and b: "fh_book ?e = book_run init_BookBuilder (map frame_payload fs)" "messages_of ?e = of_nat (length fs)"
    by (simp_all add: handled_def)
  obtain n where n: "1 \<le> n" "map frame_seq fs = map of_nat [1..<n]" and ok: "list_all (arrived env turns) fs"
    using fs(1) by (auto simp: handled_def seq_log_def list_all_iff)
  have "length fs + 1 = n" using arg_cong [OF n(2), of length] n(1) by simp
  then show ?thesis using run_outcome [OF h_def [THEN meta_eq_to_obj_eq] assms(1) ev] ok n(2) fs(2) unfolding b by blast
qed

text \<open>
  C6: Whatever datagrams arrive and whatever the recovery connections return, a run with
  a positive volume bar quantity returns 0, and its book is built from frames
  numbered 1, 2, 3, ... without hole or repetition, each of which is the front of a datagram
  or part of a recovery reply and parses. They are counted (modulo \<open>2 ^ 64\<close>), and they are no
  fewer than the frames 1, 2, 3, ... that the datagrams contain in this order. The BBO log,
  the tape and the bars come from a subsequence of the events of these frames: from all of
  them when the consumer takes a turn before every attempt to push.
\<close>

theorem run_in_order:
  fixes hdr_init :: "int \<Rightarrow> int \<Rightarrow> int \<Rightarrow> 'h option" and opened :: "string \<Rightarrow> bool"
  assumes "hc_volume_bar_qty cfg \<noteq> 0"
  defines "h \<equiv> init_FeedHandler hdr_init opened cfg"
  shows "\<exists>h' fs acc g. run env True turns h = Some (0, h') \<and>
    list_all (arrived env turns) fs \<and> map frame_seq fs = map of_nat [1..<length fs + 1] \<and>
    (\<forall>gs. feeds_from 0 gs turns \<longrightarrow> length gs \<le> length fs) \<and>
    fh_book h' = book_run init_BookBuilder (map frame_payload fs) \<and> ps_messages (fh_stats h') = of_nat (length fs) \<and>
    subseq acc (session_events init_BookBuilder (map frame_payload fs)) \<and>
    ((\<forall>n. 1 \<le> ev_turns env n) \<longrightarrow> acc = session_events init_BookBuilder (map frame_payload fs)) \<and>
    fh_bbo h' = foldl bbo_on_tick (fh_bbo h) (tick_list acc) \<and>
    fh_tape h' = foldl tape_on_trade (fh_tape h) (trade_list acc) \<and>
    bars_run (fh_bars h) (trade_list acc) = Some g \<and> fh_bars h' = flush_all g"
  unfolding h_def using assms(1) by (rule run_frames)

definition quiet_env :: "unit env" where
  "quiet_env = \<lparr>ev_clock = of_nat, ev_hdr = (\<lambda>h _. h), ev_net = (\<lambda>_ _. Connect_failed), ev_turns = (\<lambda>_. 1)\<rparr>"

lemma trade_frame_accepted: "accepted (trade_frame seq ts tid sid side px qty)"
proof -
  let ?m = "\<lparr>tr_hdr = \<lparr>hdr_type = MT_Trade, hdr_length = wire_length_for MT_Trade, hdr_seq = seq, hdr_ts_ns = ts\<rparr>,
    tr_trade_id = tid, tr_symbol_id = sid, tr_side = side, tr_price = px, tr_qty = qty\<rparr>"
  have "payload_wf (P_Trade ?m)" by (simp add: payload_wf_def)
  from parse_payload_frame [OF this, of "[]"] show ?thesis by simp
qed

lemma one_frame_run:
  fixes fs :: "bytes list"
  defines "f \<equiv> trade_frame 1 10 5 0 Buy 100 7"
  assumes "list_all (arrived quiet_env [None, Some f, None]) fs"
    "\<forall>gs. feeds_from 0 gs [None, Some f, None] \<longrightarrow> length gs \<le> length fs"
  shows "fs \<noteq> []" "\<forall>g \<in> set fs. prefix g f"
proof -
  have "accepted f" "length f \<le> 2048" "frame_seq f = 1" by (simp_all add: f_def trade_frame_accepted)
  then have "feeds_from 0 [f] [None, Some f, None]" by (simp add: feeds_from_def)
  then show "fs \<noteq> []" using assms(3) by fastforce
  show "\<forall>g \<in> set fs. prefix g f"
    using assms(2) by (auto simp: list_all_iff arrived_def replied_def quiet_env_def)
qed

theorem run_in_order_witness:
  "let f = trade_frame 1 10 5 0 Buy 100 7 in
   \<exists>h' fs. run quiet_env True [None, Some f, None]
       (init_FeedHandler (\<lambda>_ _ _. Some ()) (\<lambda>_. True) init_HandlerConfig) = Some (0, h') \<and>
     fs \<noteq> [] \<and> (\<forall>g \<in> set fs. prefix g f) \<and> map frame_seq fs = map of_nat [1..<length fs + 1] \<and>
     fh_book h' = book_run init_BookBuilder (map frame_payload fs)"
proof -
  define f where "f = trade_frame 1 10 5 0 Buy 100 7"
  have c: "hc_volume_bar_qty init_HandlerConfig \<noteq> 0" by (simp add: init_HandlerConfig_def)
  from run_in_order [OF c, of quiet_env "[None, Some f, None]" "\<lambda>_ _ _. Some ()" "\<lambda>_. True"]
  obtain h' fs where h': "run quiet_env True [None, Some f, None] (init_FeedHandler (\<lambda>_ _ _. Some ()) (\<lambda>_. True) init_HandlerConfig) = Some (0, h')"
    "list_all (arrived quiet_env [None, Some f, None]) fs" "map frame_seq fs = map of_nat [1..<length fs + 1]"
    "\<forall>gs. feeds_from 0 gs [None, Some f, None] \<longrightarrow> length gs \<le> length fs"
    "fh_book h' = book_run init_BookBuilder (map frame_payload fs)" by blast
  then show ?thesis using one_frame_run [OF h'(2,4) [unfolded f_def]] unfolding f_def Let_def by blast
qed

section \<open>The recovery service\<close>

text \<open>
  What the handler relies on: a session of \<open>N\<close> frames \<open>F 1\<close>, ..., \<open>F N\<close>, numbered in order
  and accepted by the parser, and a connection that answers a request for a range of the
  session with exactly these frames, in as many non-empty chunks as the network likes.
\<close>

locale recovery_service =
  fixes net :: "nat \<Rightarrow> bytes \<Rightarrow> recovery_io"
    and F :: "nat \<Rightarrow> bytes"
    and N :: nat
  assumes frames: "1 \<le> i \<Longrightarrow> i \<le> N \<Longrightarrow> session_frame (F i) i"
    and bound: "N + 1 < 2 ^ 64"
    and serve: "1 \<le> a \<Longrightarrow> a \<le> b \<Longrightarrow> b \<le> N \<Longrightarrow> \<exists>resp chunks.
      net k (gap_request_frame 0 ts (of_nat a) (of_nat b)) = Replied resp chunks \<and>
      unat (get_be32 (wr_payload_bytes (bytes_WireGapResponse resp))) = length (concat (map F [a..<b + 1])) \<and>
      concat chunks = concat (map F [a..<b + 1]) \<and> [] \<notin> set chunks"
begin

lemma try_recover_gap:
  assumes net: "ev_net env = net" and n: "1 \<le> n" "n < s" "s \<le> N"
    and w: "waiting n s (F s) r (fh_tracker h)" "st_gap_start (fh_tracker h) = of_nat n"
  shows "clean (s + 1) (r @ map F [n..<s + 1]) (fh_tracker (try_recover env h))"
    "fh_book (try_recover env h) = fh_book h"
proof -
  let ?t = "fh_tracker h"
  have gap: "gap_pending ?t" "st_gap_end ?t = of_nat (s - 1)"
    using w(1) by (simp_all add: waiting_def gap_pending_def)
  obtain ts where ts: "ts = ev_clock env (fh_clock h + 1)" by simp
  obtain resp chunks where r: "net (fh_clock h + 1) (gap_request_frame 0 ts (of_nat n) (of_nat (s - 1))) = Replied resp chunks"
    "unat (get_be32 (wr_payload_bytes (bytes_WireGapResponse resp))) = length (concat (map F [n..<s]))"
    "concat chunks = concat (map F [n..<s])" "[] \<notin> set chunks"
  proof -
    have le: "n \<le> s - 1" "s - 1 \<le> N" "s - 1 + 1 = s" using n by auto
    show thesis using serve [OF n(1) le(1,2), of "fh_clock h + 1" ts] that unfolding le(3) by blast
  qed
  have payload: "recv_loop (unat (get_be32 (wr_payload_bytes (bytes_WireGapResponse resp)))) [] chunks =
      concat (map F [n..<s])"
    using recv_loop_all [OF r(4), of "[]"] r(2,3) by simp
  have c: "clean (s + 1) (r @ map F [n..<s + 1]) (push_recovered ?t (concat (map F [n..<s])))"
    using n bound frames w(1) by (intro push_recovered_gap) auto
  have e: "fh_tracker (try_recover env h) =
      clear_gap (note_recovery (push_recovered ?t (concat (map F [n..<s])))
        (ev_clock env (fh_clock h + 2) - ev_clock env (fh_clock h)))"
    "fh_book (try_recover env h) = fh_book h"
    using gap r(1) payload by (simp_all add: try_recover_def now_ns_def Let_def w(2) net ts)
  show "clean (s + 1) (r @ map F [n..<s + 1]) (fh_tracker (try_recover env h))"
    unfolding e using c by (simp add: clean_def clear_gap_def note_recovery_def)
  show "fh_book (try_recover env h) = fh_book h" by (rule e)
qed

text \<open>
  One datagram with a session frame: the tracker ends up clean behind the highest number
  seen so far, and exactly the frames up to it that were not yet handled go to the book.
\<close>

lemma process_session_frame:
  fixes wire_ns :: u64
  assumes net: "ev_net env = net" and c: "clean (m + 1) [] (fh_tracker h)" and i: "1 \<le> i" "i \<le> N" and m: "m \<le> N"
    and keep: "k \<longrightarrow> (\<forall>n. 1 \<le> ev_turns env n)"
  defines "h' \<equiv> process_datagram env (F i) wire_ns h"
  shows "clean (max m i + 1) [] (fh_tracker h')"
    "fh_book h' = book_run (fh_book h) (map frame_payload (map F [m + 1..<max m i + 1]))"
    "carries k h h' (session_events (fh_book h) (map frame_payload (map F [m + 1..<max m i + 1])))"
proof -
  have f: "session_frame (F i) i" using frames i by blast
  then have ok: "pm_status (parse_message (F i)) = Ok" and tk: "take (pm_consumed (parse_message (F i))) (F i) = F i"
    by (simp_all add: session_frame_def)
  note lf = session_frame_legal [OF f]
  define h1 where "h1 = h\<lparr>fh_clock := fh_clock h + 1, fh_tracker := snd (push (fh_tracker h) (F i))\<rparr>"
  define h2 where "h2 = (if gap_pending (fh_tracker h1) then try_recover env h1 else h1)"
  define h3 where "h3 = foldl (handle_frame env wire_ns (ev_clock env (fh_clock h))) h2 (st_ready (fh_tracker h2))"
  have h': "h' = h3\<lparr>fh_tracker := clear_ready (fh_tracker h3)\<rparr>"
    unfolding h'_def process_datagram_def now_ns_def h3_def h2_def h1_def using ok tk by (simp add: Let_def)
  have core: "clean (max m i + 1) (map F [m + 1..<max m i + 1]) (fh_tracker h2) \<and> fh_book h2 = fh_book h"
  proof (cases i "m + 1" rule: linorder_cases)
    case less
    have "clean (m + 1) [] (fh_tracker h1)"
      using clean_push_stale [OF c lf less] m bound by (simp add: h1_def)
    moreover have "max m i = m" using less by simp
    ultimately show ?thesis by (simp add: h2_def h1_def clean_def gap_pending_def)
  next
    case equal
    have "clean (m + 1 + 1) ([] @ [F i]) (fh_tracker h1)"
      using clean_push_next [OF c] lf equal by (simp add: h1_def)
    then show ?thesis using equal by (simp add: h2_def h1_def clean_def gap_pending_def max_def)
  next
    case greater
    have w: "waiting (m + 1) i (F i) [] (fh_tracker h1)" "st_gap_start (fh_tracker h1) = of_nat (m + 1)"
      using clean_push_ahead [OF c lf greater] bound i by (simp_all add: h1_def)
    then have "gap_pending (fh_tracker h1)" by (simp add: waiting_def gap_pending_def)
    then show ?thesis using try_recover_gap [OF net _ greater i(2) w] greater
      by (simp add: h2_def h1_def max_def)
  qed
  have oks: "\<forall>x \<in> set (map F [m + 1..<max m i + 1]). pm_status (parse_message x) = Ok"
    using frames i m by (auto simp: session_frame_def max_def)
  have rd: "st_ready (fh_tracker h2) = map F [m + 1..<max m i + 1]"
    using core by (simp add: clean_def del: upt_Suc)
  have "carries k h2 h3 (session_events (fh_book h2) (map frame_payload (map F [m + 1..<max m i + 1])))"
    unfolding h3_def rd by (rule carries_handle_frames [OF keep oks])
  moreover have "pipe_state h = pipe_state h2" "pipe_state h3 = pipe_state h'"
    by (simp_all add: h2_def h1_def h')
  ultimately show "carries k h h' (session_events (fh_book h) (map frame_payload (map F [m + 1..<max m i + 1])))"
    using core carries_left carries_right by metis
  from oks have "fh_tracker h3 = fh_tracker h2 \<and>
      fh_book h3 = book_run (fh_book h2) (map frame_payload (map F [m + 1..<max m i + 1]))"
    unfolding h3_def rd using handle_frames_core by blast
  then show "clean (max m i + 1) [] (fh_tracker h')"
    "fh_book h' = book_run (fh_book h) (map frame_payload (map F [m + 1..<max m i + 1]))"
    unfolding h' using core by (simp_all add: clean_def clear_ready_def)
qed

lemma process_rejected:
  "pm_status (parse_message bs) \<noteq> Ok \<Longrightarrow> process_datagram env bs wire_ns h = h\<lparr>fh_clock := fh_clock h + 1\<rparr>"
  by (simp add: process_datagram_def now_ns_def Let_def)

end

text \<open>
  The highest session number in a sequence of receive turns, from the bytes alone; and the
  turns of a feed that loses, repeats and reorders session frames at will and may carry
  datagrams the parser rejects.
\<close>

fun turn_seq :: "bytes option \<Rightarrow> nat" where
  "turn_seq None = 0"
| "turn_seq (Some bs) =
     (if pm_status (parse_message (take 2048 bs)) = Ok then unat (frame_seq bs) else 0)"

definition top_seq :: "bytes option list \<Rightarrow> nat" where
  "top_seq turns = foldl (\<lambda>m d. max m (turn_seq d)) 0 turns"

definition session_turn :: "(nat \<Rightarrow> bytes) \<Rightarrow> nat \<Rightarrow> bytes option \<Rightarrow> bool" where
  "session_turn F N d \<longleftrightarrow>
     (case d of None \<Rightarrow> True
      | Some bs \<Rightarrow> (\<exists>i\<in>{1..N}. bs = F i) \<or> pm_status (parse_message (take 2048 bs)) \<noteq> Ok)"

context recovery_service
begin

lemma run_turn_session:
  assumes net: "ev_net env = net" and c: "clean (m + 1) [] (fh_tracker h)" and m: "m \<le> N" and d: "session_turn F N d"
    and keep: "k \<longrightarrow> (\<forall>n. 1 \<le> ev_turns env n)"
  defines "m' \<equiv> max m (turn_seq d)"
  shows "m' \<le> N" "clean (m' + 1) [] (fh_tracker (run_turn env h d))"
    "fh_book (run_turn env h d) = book_run (fh_book h) (map frame_payload (map F [m + 1..<m' + 1]))"
    "carries k h (run_turn env h d) (session_events (fh_book h) (map frame_payload (map F [m + 1..<m' + 1])))"
proof -
  consider (none) "d = None" | (frame) i where "d = Some (F i)" "1 \<le> i" "i \<le> N"
    | (junk) bs where "d = Some bs" "pm_status (parse_message (take 2048 bs)) \<noteq> Ok"
    using d by (cases d) (auto simp: session_turn_def)
  then have "m' \<le> N \<and> clean (m' + 1) [] (fh_tracker (run_turn env h d)) \<and>
    fh_book (run_turn env h d) = book_run (fh_book h) (map frame_payload (map F [m + 1..<m' + 1])) \<and>
    carries k h (run_turn env h d) (session_events (fh_book h) (map frame_payload (map F [m + 1..<m' + 1])))"
  proof cases
    case none
    then show ?thesis using c m by (simp add: m'_def run_turn_def book_run_def carries_same)
  next
    case frame
    have f: "session_frame (F i) i" using frames frame by blast
    then have len: "20 \<le> length (F i)" "length (F i) \<le> 44"
      using session_frame_legal [OF f] by (simp_all add: legal_frame_def)
    have sq: "unat (frame_seq (F i)) = i"
      using f frame bound by (simp add: session_frame_def unat_of_nat take_bit_eq_mod)
    have m': "m' = max m i" using frame f len sq by (simp add: m'_def session_frame_def)
    let ?h = "h\<lparr>fh_clock := fh_clock h + 1\<rparr>"
    have "run_turn env h d = process_datagram env (F i) (ev_clock env (fh_clock h)) ?h"
      using frame len by (auto simp: run_turn_def now_ns_def Let_def)
    moreover have "pipe_state h = pipe_state ?h" by (simp add: pipe_state_def)
    ultimately show ?thesis
      using process_session_frame [of env m ?h i k "ev_clock env (fh_clock h)"] net c frame m m' keep
        carries_left [of h ?h] by simp
  next
    case junk
    then show ?thesis using c m
      by (simp add: m'_def run_turn_def now_ns_def Let_def book_run_def process_rejected carries_same pipe_state_def)
  qed
  then show "m' \<le> N" "clean (m' + 1) [] (fh_tracker (run_turn env h d))"
    "fh_book (run_turn env h d) = book_run (fh_book h) (map frame_payload (map F [m + 1..<m' + 1]))"
    "carries k h (run_turn env h d) (session_events (fh_book h) (map frame_payload (map F [m + 1..<m' + 1])))"
    by blast+
qed

lemma feed_delivers_session:
  assumes net: "ev_net env = net" and h: "fh_tracker h = init_SequenceTracker" "fh_book h = init_BookBuilder"
    and turns: "\<forall>d \<in> set turns. session_turn F N d" and keep: "k \<longrightarrow> (\<forall>n. 1 \<le> ev_turns env n)"
  shows "top_seq turns \<le> N \<and> clean (top_seq turns + 1) [] (fh_tracker (foldl (run_turn env) h turns)) \<and>
    fh_book (foldl (run_turn env) h turns) =
      book_run init_BookBuilder (map frame_payload (map F [1..<top_seq turns + 1])) \<and>
    carries k h (foldl (run_turn env) h turns)
      (session_events init_BookBuilder (map frame_payload (map F [1..<top_seq turns + 1])))"
  using turns
proof (induction turns rule: rev_induct)
  case Nil
  then show ?case using h by (simp add: top_seq_def clean_def book_run_def carries_same init_SequenceTracker_def
        init_SequenceStats_def init_Slot_def)
next
  case (snoc d turns)
  then have IH: "top_seq turns \<le> N" "clean (top_seq turns + 1) [] (fh_tracker (foldl (run_turn env) h turns))"
    "fh_book (foldl (run_turn env) h turns) =
      book_run init_BookBuilder (map frame_payload (map F [1..<top_seq turns + 1]))"
    "carries k h (foldl (run_turn env) h turns)
      (session_events init_BookBuilder (map frame_payload (map F [1..<top_seq turns + 1])))" by simp_all
  have t: "top_seq (turns @ [d]) = max (top_seq turns) (turn_seq d)" by (simp add: top_seq_def)
  have up: "[1..<top_seq turns + 1] @ [top_seq turns + 1..<max (top_seq turns) (turn_seq d) + 1] =
      [1..<max (top_seq turns) (turn_seq d) + 1]"
    using upt_add_eq_append [of 1 "top_seq turns + 1" "max (top_seq turns) (turn_seq d) - top_seq turns"]
    by (simp del: upt_Suc)
  note r = run_turn_session [OF net IH(2,1), of d k]
  have "book_run init_BookBuilder (map frame_payload (map F [1..<max (top_seq turns) (turn_seq d) + 1])) =
      book_run (fh_book (foldl (run_turn env) h turns))
        (map frame_payload (map F [top_seq turns + 1..<max (top_seq turns) (turn_seq d) + 1]))"
    unfolding up [symmetric] map_append book_run_append IH(3) ..
  moreover have "carries k h (run_turn env (foldl (run_turn env) h turns) d)
      (session_events init_BookBuilder (map frame_payload (map F [1..<max (top_seq turns) (turn_seq d) + 1])))"
    unfolding up [symmetric] map_append session_events_append IH(3) [symmetric]
    using carries_trans [OF IH(4)] r(4) snoc.prems keep by simp
  ultimately show ?case unfolding t using r snoc.prems keep by (simp del: upt_Suc map_map)
qed

text \<open>
  A whole run: it returns 0, the book is that of the session up to the highest number seen,
  and the consumers have processed some of its events in order, all of them when the
  consumer keeps up.
\<close>

lemma run_session:
  assumes h_def: "h = init_FeedHandler hdr_init opened cfg"
    and net: "ev_net env = net" and vol: "hc_volume_bar_qty cfg \<noteq> 0"
    and turns: "\<forall>d \<in> set turns. session_turn F N d" and keep: "k \<longrightarrow> (\<forall>n. 1 \<le> ev_turns env n)"
    and ps_def: "ps = map frame_payload (map F [1..<top_seq turns + 1])"
  shows "\<exists>h' acc g. run env True turns h = Some (0, h') \<and> fh_book h' = book_run init_BookBuilder ps \<and>
    subseq acc (session_events init_BookBuilder ps) \<and> (k \<longrightarrow> acc = session_events init_BookBuilder ps) \<and>
    fh_bbo h' = foldl bbo_on_tick (fh_bbo h) (tick_list acc) \<and>
    fh_tape h' = foldl tape_on_trade (fh_tape h) (trade_list acc) \<and>
    bars_run (fh_bars h) (trade_list acc) = Some g \<and> fh_bars h' = flush_all g"
proof -
  have "fh_book (foldl (run_turn env) (start_run env h) turns) = book_run init_BookBuilder ps"
    "carries k (start_run env h) (foldl (run_turn env) (start_run env h) turns) (session_events init_BookBuilder ps)"
    using feed_delivers_session [OF net _ _ turns keep, of "start_run env h"]
    by (simp_all add: h_def ps_def del: upt_Suc map_map)
  then show ?thesis using run_outcome [OF h_def vol] by metis
qed

end

lemma flush_loop_events: "ss_recovery_events (st_stats (flush_loop t)) = ss_recovery_events (st_stats t)"
proof (induction t rule: flush_loop.induct)
  case (1 t)
  then show ?case by (subst flush_loop.simps) (simp add: Let_def take_slot_def)
qed

lemma push_events: "ss_recovery_events (st_stats (snd (push t f))) = ss_recovery_events (st_stats t)"
  by (cases rule: push_cases [of f t])
    (simp_all add: flush_contiguous_def Let_def flush_loop_events deliver_def buffer_ooo_def store_ooo_def note_drop_def clear_gap_def)

lemma push_recovered_events: "ss_recovery_events (st_stats (push_recovered t data)) = ss_recovery_events (st_stats t)"
proof (induction t data rule: push_recovered.induct)
  case (1 t data)
  then show ?case by (subst push_recovered.simps) (simp add: Let_def push_events)
qed

text \<open>
  C10: Every way through a recovery attempt. When the socket cannot be made or connected, the
  request cannot be sent or the response header does not arrive, the tracker is exactly as
  before, so the gap stays pending and the next datagram tries again; when a response
  arrives, whatever its length field and contents, the attempt ends with no gap pending and
  one more recovery counted. The book and the events in flight are not touched, and with no
  gap pending nothing at all happens.
\<close>

theorem try_recover_outcomes:
  "(\<not> gap_pending (fh_tracker h) \<longrightarrow> try_recover env h = h) \<and>
   (gap_pending (fh_tracker h) \<longrightarrow>
     (case ev_net env (fh_clock h + 1) (gap_request_frame 0 (ev_clock env (fh_clock h + 1))
         (st_gap_start (fh_tracker h)) (st_gap_end (fh_tracker h))) of
        Replied resp chunks \<Rightarrow> \<not> gap_pending (fh_tracker (try_recover env h)) \<and>
          ss_recovery_events (st_stats (fh_tracker (try_recover env h))) =
            ss_recovery_events (st_stats (fh_tracker h)) + 1
      | _ \<Rightarrow> fh_tracker (try_recover env h) = fh_tracker h)) \<and>
   fh_book (try_recover env h) = fh_book h \<and> fh_queue (try_recover env h) = fh_queue h"
  by (simp add: try_recover_def now_ns_def Let_def clear_gap_def gap_pending_def note_recovery_def
      push_recovered_events split: recovery_io.splits)

theorem try_recover_outcomes_witness:
  "let h = (init_FeedHandler (\<lambda>_ _ _. Some ()) (\<lambda>_. True) init_HandlerConfig)\<lparr>fh_tracker :=
       snd (push init_SequenceTracker (trade_frame 3 10 5 0 Buy 100 7))\<rparr>
   in gap_pending (fh_tracker h) \<and> fh_tracker (try_recover quiet_env h) = fh_tracker h"
proof -
  let ?t = "snd (push init_SequenceTracker (trade_frame 3 10 5 0 Buy 100 7))"
  let ?h = "(init_FeedHandler (\<lambda>_ _ _. Some ()) (\<lambda>_. True) init_HandlerConfig)\<lparr>fh_tracker := ?t\<rparr>"
  have "legal_frame (trade_frame 3 10 5 0 Buy 100 7) 3" by (simp add: legal_frame_def)
  then have "gap_pending ?t"
    using clean_push_ahead(1) [of 1 "[]" init_SequenceTracker _ 3]
    by (simp add: waiting_def gap_pending_def clean_def init_SequenceTracker_def init_SequenceStats_def init_Slot_def)
  then show ?thesis using try_recover_outcomes [of ?h quiet_env] by (simp add: quiet_env_def Let_def)
qed

end
