(* ===== verification/Simulator.thy ===== *)
theory Simulator
  imports Feed_Handler Complex_Main "HOL-Library.Multiset"
begin

text \<open>
  The feed simulator (\<^verbatim>\<open>src/simulator_lib.cpp\<close>): the generated session, the TCP recovery
  server that serves ranges of it, and the UDP sender that loses and delays frames. The
  interface \<open>recovery_service\<close> that the feed handler relies on is interpreted on the
  server, so that the end-to-end properties are about the two programs as they stand.

  The random engine and its distributions are a parameter: \<^verbatim>\<open>std::mt19937_64\<close> and the
  distributions of \<^verbatim>\<open><random>\<close> give implementation-defined sequences, and nothing below
  depends on which ones. Doubles that are only compared are reals.
\<close>

section \<open>The session\<close>

record SimulatorConfig =
  sc_udp_host :: string
  sc_udp_port :: u16
  sc_recovery_port :: u16
  sc_symbols :: int
  sc_messages :: int
  sc_rate_per_sec :: int
  sc_loss_rate :: real
  sc_reorder_rate :: real
  sc_seed :: u64
  sc_quiet :: bool

definition init_SimulatorConfig :: SimulatorConfig where
  "init_SimulatorConfig =
     \<lparr>sc_udp_host = ''127.0.0.1'', sc_udp_port = 9000, sc_recovery_port = 9001, sc_symbols = 4,
      sc_messages = 10000, sc_rate_per_sec = 50000, sc_loss_rate = 0, sc_reorder_rate = 0,
      sc_seed = 1, sc_quiet = False\<rparr>"

text \<open>
  \<open>rn_left\<close> is the order in which the compiler evaluates the arguments of a call, which the
  language leaves open: three draws are arguments of one call, drawn from left to right or
  from right to left.
\<close>

record 'g rng =
  rn_seed :: "u64 \<Rightarrow> 'g"
  rn_next :: "'g \<Rightarrow> u64 \<times> 'g"
  rn_uint32 :: "u32 \<Rightarrow> u32 \<Rightarrow> 'g \<Rightarrow> u32 \<times> 'g"
  rn_int :: "int \<Rightarrow> int \<Rightarrow> 'g \<Rightarrow> int \<times> 'g"
  rn_unit :: "'g \<Rightarrow> real \<times> 'g"
  rn_left :: bool

record 'g session_state =
  ss_rng :: 'g
  ss_next_order :: u64
  ss_next_trade :: u64
  ss_live_orders :: "u64 list"
  ss_ts :: u64

definition draw_fields :: "'g rng \<Rightarrow> u32 \<Rightarrow> 'g \<Rightarrow> u32 \<times> u32 \<times> u32 \<times> 'g" where
  "draw_fields r last_symbol g =
     (if rn_left r then
        let (sym_id, g) = rn_uint32 r 0 last_symbol g;
            (px, g) = rn_uint32 r 1000 2000 g;
            (qty, g) = rn_uint32 r 1 100 g
        in (sym_id, px, qty, g)
      else
        let (qty, g) = rn_uint32 r 1 100 g;
            (px, g) = rn_uint32 r 1000 2000 g;
            (sym_id, g) = rn_uint32 r 0 last_symbol g
        in (sym_id, px, qty, g))"

definition order_side :: "u64 \<Rightarrow> Side" where
  "order_side oid = (if oid AND 1 \<noteq> 0 then Buy else Sell)"

text \<open>One turn of the loop of \<^verbatim>\<open>generate_session\<close>.\<close>

definition session_turn_of :: "'g rng \<Rightarrow> u32 \<Rightarrow> u64 \<Rightarrow> 'g session_state \<Rightarrow> bytes \<times> 'g session_state" where
  "session_turn_of r last_symbol seq s =
     (let ts = ss_ts s + 1000;
          live = ss_live_orders s;
          (roll, g) = rn_int r 0 9 (ss_rng s)
      in if roll \<le> 5 \<or> live = [] then
           let oid = ss_next_order s;
               (sym_id, px, qty, g) = draw_fields r last_symbol g
           in (add_frame seq ts oid sym_id (order_side oid) px qty,
               s\<lparr>ss_ts := ts, ss_rng := g, ss_next_order := oid + 1, ss_live_orders := live @ [oid]\<rparr>)
         else if roll \<le> 7 then
           let (n, g) = rn_next r g;
               oid = live ! unat (n mod of_nat (length live));
               (sym_id, px, qty, g) = draw_fields r last_symbol g
           in (modify_frame seq ts oid sym_id (order_side oid) px qty, s\<lparr>ss_ts := ts, ss_rng := g\<rparr>)
         else if roll = 8 \<and> live \<noteq> [] then
           let (n, g) = rn_next r g;
               idx = unat (n mod of_nat (length live));
               oid = live ! idx;
               (sym_id, g) = rn_uint32 r 0 last_symbol g
           in (delete_frame seq ts oid sym_id,
               s\<lparr>ss_ts := ts, ss_rng := g, ss_live_orders := take idx live @ drop (idx + 1) live\<rparr>)
         else
           let (sym_id, px, qty, g) = draw_fields r last_symbol g
           in (trade_frame seq ts (ss_next_trade s) sym_id Buy px qty,
               s\<lparr>ss_ts := ts, ss_rng := g, ss_next_trade := ss_next_trade s + 1\<rparr>))"

fun session_loop :: "'g rng \<Rightarrow> u32 \<Rightarrow> nat \<Rightarrow> nat \<Rightarrow> 'g session_state \<Rightarrow> bytes list" where
  "session_loop r last_symbol 0 i s = []"
| "session_loop r last_symbol (Suc n) i s =
     (let (frame, s) = session_turn_of r last_symbol (of_nat (i + 1)) s
      in frame # session_loop r last_symbol n (i + 1) s)"

text \<open>
  A negative number of messages converts to a huge size, and \<^verbatim>\<open>reserve\<close> throws
  \<^verbatim>\<open>std::length_error\<close>.
\<close>

datatype sim_error = Length_error

definition generate_session :: "'g rng \<Rightarrow> SimulatorConfig \<Rightarrow> sim_error + bytes list" where
  "generate_session r cfg =
     (if sc_messages cfg < 0 then Inl Length_error
      else Inr (session_loop r (of_int (sc_symbols cfg - 1)) (nat (sc_messages cfg)) 0
             \<lparr>ss_rng = rn_seed r (sc_seed cfg), ss_next_order = 1, ss_next_trade = 1,
              ss_live_orders = [], ss_ts = 1000000000\<rparr>))"

section \<open>The recovery server\<close>

text \<open>
  The loop over the requested range: \<^verbatim>\<open>s\<close> is a 64-bit counter, so for the last 64-bit
  number as the end of the range the loop never ends, which is \<^term>\<open>None\<close>.
\<close>

partial_function (option) range_loop :: "bytes list \<Rightarrow> u64 \<Rightarrow> u64 \<Rightarrow> bytes \<Rightarrow> bytes option" where
  "range_loop session finish s payload =
     (if s \<le> finish then
        range_loop session finish (s + 1)
          (if s = 0 \<or> length session < unat s then payload else payload @ session ! unat (s - 1))
      else Some payload)"

text \<open>
  What the server sends on one connection that has received \<open>req\<close>: the response
  structure and the payload. A request that is not complete is not answered.
\<close>

definition serve_request :: "bytes list \<Rightarrow> u64 \<Rightarrow> bytes \<Rightarrow> (bytes \<times> bytes) option option" where
  "serve_request session host_now_ns req =
     (if length req \<noteq> 36 then Some None
      else
        let start = get_be64 (wq_start_seq (bytes_WireGapRequest req));
            finish = get_be64 (wq_end_seq (bytes_WireGapRequest req))
        in case range_loop session finish start [] of
             None \<Rightarrow> None
           | Some payload \<Rightarrow>
               Some (Some (gap_response_frame 0 host_now_ns start finish (of_nat (length payload)), payload)))"

section \<open>The sender\<close>

record 'g send_state =
  sd_rng :: 'g
  sd_delayed :: "(nat \<times> bytes) list"
  sd_sent :: "bytes list"

fun flush_delayed :: "nat \<Rightarrow> (nat \<times> bytes) list \<Rightarrow> bytes list \<times> (nat \<times> bytes) list" where
  "flush_delayed i [] = ([], [])"
| "flush_delayed i (d # ds) =
     (if fst d + 2 \<le> i then let (out, rest) = flush_delayed i ds in (snd d # out, rest) else ([], d # ds))"

text \<open>One turn of the loop of \<^verbatim>\<open>run\<close>. A draw is made only where the code reaches it.\<close>

definition chance :: "'g rng \<Rightarrow> real \<Rightarrow> 'g \<Rightarrow> bool \<times> 'g" where
  "chance r rate g = (if rate > 0 then let (u, g) = rn_unit r g in (u < rate, g) else (False, g))"

definition send_turn :: "'g rng \<Rightarrow> SimulatorConfig \<Rightarrow> bytes list \<Rightarrow> 'g send_state \<Rightarrow> nat \<Rightarrow> 'g send_state" where
  "send_turn r cfg session s i =
     (let (lost, g) = chance r (sc_loss_rate cfg) (sd_rng s) in
      if lost then s\<lparr>sd_rng := g\<rparr>
      else
        let frame = session ! i;
            (late, g) = chance r (sc_reorder_rate cfg) g
        in if late \<and> i + 1 < length session
           then s\<lparr>sd_rng := g, sd_delayed := sd_delayed s @ [(i, frame)]\<rparr>
           else
             let (out, rest) = flush_delayed i (sd_delayed s)
             in s\<lparr>sd_rng := g, sd_sent := sd_sent s @ [frame] @ out, sd_delayed := rest\<rparr>)"

definition send_session :: "'g rng \<Rightarrow> SimulatorConfig \<Rightarrow> bytes list \<Rightarrow> bytes list" where
  "send_session r cfg session =
     (let s = foldl (send_turn r cfg session)
            \<lparr>sd_rng = rn_seed r (sc_seed cfg + 99), sd_delayed = [], sd_sent = []\<rparr> [0..<length session]
      in sd_sent s @ map snd (sd_delayed s))"

section \<open>The generated messages\<close>

text \<open>
  The messages of a well-formed session, over the set of live order ids: an add has an id
  that is not live and fields the book accepts, a modify and a delete name a live order.
\<close>

fun live_step :: "u64 set \<Rightarrow> ParsedPayload \<Rightarrow> u64 set" where
  "live_step ids (P_AddOrder m) = insert (ao_order_id m) ids"
| "live_step ids (P_DeleteOrder m) = ids - {do_order_id m}"
| "live_step ids _ = ids"

fun payload_ok :: "u64 set \<Rightarrow> ParsedPayload \<Rightarrow> bool" where
  "payload_ok ids (P_AddOrder m) \<longleftrightarrow> ao_order_id m \<notin> ids \<and> add_ok m"
| "payload_ok ids (P_ModifyOrder m) \<longleftrightarrow> mo_order_id m \<in> ids \<and> modify_ok m"
| "payload_ok ids (P_DeleteOrder m) \<longleftrightarrow> do_order_id m \<in> ids"
| "payload_ok ids (P_Trade m) \<longleftrightarrow> tr_side m = Buy \<and> tr_symbol_id m < kMaxSymbols \<and> tr_qty m \<noteq> 0"
| "payload_ok ids _ \<longleftrightarrow> False"

fun session_ok :: "u64 set \<Rightarrow> ParsedPayload list \<Rightarrow> bool" where
  "session_ok ids [] \<longleftrightarrow> True"
| "session_ok ids (p # ps) \<longleftrightarrow> payload_ok ids p \<and> session_ok (live_step ids p) ps"

text \<open>What the standard says of \<^verbatim>\<open>std::uniform_int_distribution\<close>: its values are in its range.\<close>

definition draws_in_range :: "'g rng \<Rightarrow> bool" where
  "draws_in_range r \<longleftrightarrow> (\<forall>a b g. a \<le> b \<longrightarrow> a \<le> fst (rn_uint32 r a b g) \<and> fst (rn_uint32 r a b g) \<le> b)"

lemma draw_fields_range:
  assumes "draws_in_range r" "draw_fields r k g = (s, p, q, g')"
  shows "s \<le> k \<and> 1000 \<le> p \<and> p \<le> 2000 \<and> 1 \<le> q \<and> q \<le> 100"
proof -
  have d: "a \<le> b \<Longrightarrow> rn_uint32 r a b h = (x, h') \<Longrightarrow> a \<le> x \<and> x \<le> b" for a b h x h'
    using assms(1) unfolding draws_in_range_def by (metis fst_conv)
  show ?thesis using assms(2) d [of 0 k] d [of 1000 2000] d [of 1 100]
    by (auto simp: draw_fields_def split: prod.splits if_splits)
qed

definition turn_header :: "MsgType \<Rightarrow> u64 \<Rightarrow> 'g session_state \<Rightarrow> Header" where
  "turn_header t q s = \<lparr>hdr_type = t, hdr_length = wire_length_for t, hdr_seq = q, hdr_ts_ns = ss_ts s + 1000\<rparr>"

text \<open>The four ways through the loop body.\<close>

lemma session_turn_cases:
  assumes "session_turn_of r k q s = (f, s')"
  obtains (add) p g sid px qty g' where
      "draw_fields r k g = (sid, px, qty, g')"
      "f = payload_frame p" "p = (P_AddOrder \<lparr>ao_hdr = turn_header MT_AddOrder q s, ao_order_id = ss_next_order s,
         ao_symbol_id = sid, ao_side = order_side (ss_next_order s), ao_price = px, ao_qty = qty\<rparr>)"
      "s' = s\<lparr>ss_ts := ss_ts s + 1000, ss_rng := g', ss_next_order := ss_next_order s + 1,
         ss_live_orders := ss_live_orders s @ [ss_next_order s]\<rparr>"
  | (modify) p g sid px qty g' and n :: u64 where
      "draw_fields r k g = (sid, px, qty, g')" "ss_live_orders s \<noteq> []"
      "f = payload_frame p" "p = (P_ModifyOrder \<lparr>mo_hdr = turn_header MT_ModifyOrder q s,
         mo_order_id = ss_live_orders s ! unat (n mod of_nat (length (ss_live_orders s))),
         mo_symbol_id = sid, mo_side = order_side (ss_live_orders s ! unat (n mod of_nat (length (ss_live_orders s)))),
         mo_price = px, mo_qty = qty\<rparr>)"
      "s' = s\<lparr>ss_ts := ss_ts s + 1000, ss_rng := g'\<rparr>"
  | (delete) p sid g' and n :: u64 and idx where
      "ss_live_orders s \<noteq> []" "idx = unat (n mod of_nat (length (ss_live_orders s)))"
      "f = payload_frame p" "p = (P_DeleteOrder \<lparr>do_hdr = turn_header MT_DeleteOrder q s,
         do_order_id = ss_live_orders s ! idx, do_symbol_id = sid\<rparr>)"
      "s' = s\<lparr>ss_ts := ss_ts s + 1000, ss_rng := g',
         ss_live_orders := take idx (ss_live_orders s) @ drop (idx + 1) (ss_live_orders s)\<rparr>"
  | (trade) p g sid px qty g' where
      "draw_fields r k g = (sid, px, qty, g')"
      "f = payload_frame p" "p = (P_Trade \<lparr>tr_hdr = turn_header MT_Trade q s, tr_trade_id = ss_next_trade s,
         tr_symbol_id = sid, tr_side = Buy, tr_price = px, tr_qty = qty\<rparr>)"
      "s' = s\<lparr>ss_ts := ss_ts s + 1000, ss_rng := g', ss_next_trade := ss_next_trade s + 1\<rparr>"
proof -
  obtain roll g where r: "rn_int r 0 9 (ss_rng s) = (roll, g)" by fastforce
  obtain n gn where n: "rn_next r g = (n, gn)" by fastforce
  obtain a b c d where f: "draw_fields r k g = (a, b, c, d)" by (metis prod_cases4)
  obtain a' b' c' d' where f': "draw_fields r k gn = (a', b', c', d')" by (metis prod_cases4)
  obtain sid gs where u: "rn_uint32 r 0 k gn = (sid, gs)" by fastforce
  note e = assms [unfolded session_turn_of_def, simplified r n f f' u Let_def split]
  consider (a) "roll \<le> 5 \<or> ss_live_orders s = []" | (m) "\<not> roll \<le> 5" "ss_live_orders s \<noteq> []" "roll \<le> 7"
    | (d) "roll = 8" "ss_live_orders s \<noteq> []" | (t) "roll > 8" "ss_live_orders s \<noteq> []" by linarith
  then show thesis
  proof cases
    case a
    then show thesis using e f by (intro add [OF f _ refl]) (auto simp: turn_header_def)
  next
    case m
    then show thesis using e f' by (intro modify [OF f' _ _ refl, of n]) (auto simp: turn_header_def)
  next
    case d
    then show thesis using e u by (intro delete [OF _ refl _ refl, of n sid gs]) (auto simp: turn_header_def)
  next
    case t
    then show thesis using e f by (intro trade [OF f _ refl]) (auto simp: turn_header_def)
  qed
qed

text \<open>
  The state of the generator between two turns: the live ids are distinct and below the
  next one, which has not wrapped.
\<close>

definition gen_inv :: "nat \<Rightarrow> 'g session_state \<Rightarrow> bool" where
  "gen_inv i s \<longleftrightarrow> distinct (ss_live_orders s) \<and> (\<forall>k \<in> set (ss_live_orders s). k < ss_next_order s) \<and>
     unat (ss_next_order s) \<le> i + 1"

lemma next_order_step:
  assumes "gen_inv i s" "i + 2 < 2 ^ 64"
  shows "unat (ss_next_order s + 1) \<le> i + 2" "ss_next_order s < ss_next_order s + 1"
proof -
  have "unat (ss_next_order s) + 1 < 2 ^ 64" using assms by (simp add: gen_inv_def)
  then have "unat (ss_next_order s + 1) = unat (ss_next_order s) + 1"
    by (simp add: unat_word_ariths)
  then show "unat (ss_next_order s + 1) \<le> i + 2" "ss_next_order s < ss_next_order s + 1"
    using assms by (simp_all add: gen_inv_def word_less_nat_alt)
qed

lemma live_index:
  assumes "xs \<noteq> []" "length xs < 2 ^ 64"
  shows "unat (n mod of_nat (length xs) :: u64) < length xs"
proof -
  have "unat (of_nat (length xs) :: u64) = length xs" using assms by (simp add: unat_of_nat take_bit_eq_mod)
  then show ?thesis using assms by (simp add: unat_mod_distrib)
qed

lemma length_live:
  assumes "gen_inv i s" "i + 2 < 2 ^ 64"
  shows "length (ss_live_orders s) < 2 ^ 64"
proof -
  have "unat ` set (ss_live_orders s) \<subseteq> {..<unat (ss_next_order s)}"
    using assms by (auto simp: gen_inv_def word_less_nat_alt)
  then have "card (unat ` set (ss_live_orders s)) \<le> unat (ss_next_order s)"
    using card_mono [of "{..<unat (ss_next_order s)}"] by fastforce
  moreover have "inj_on unat (set (ss_live_orders s))" by (simp add: inj_on_def word_unat_eq_iff)
  ultimately have "card (set (ss_live_orders s)) \<le> unat (ss_next_order s)" by (simp add: card_image)
  then show ?thesis using assms distinct_card [of "ss_live_orders s"] by (simp add: gen_inv_def)
qed

lemma set_drop_nth:
  assumes "distinct xs" "i < length xs"
  shows "set (take i xs @ drop (i + 1) xs) = set xs - {xs ! i}" "distinct (take i xs @ drop (i + 1) xs)"
proof -
  have x: "xs = take i xs @ xs ! i # drop (i + 1) xs" using assms(2) by (simp add: id_take_nth_drop)
  then have "distinct (take i xs @ xs ! i # drop (i + 1) xs)" using assms(1) by metis
  moreover have "set xs = set (take i xs) \<union> insert (xs ! i) (set (drop (i + 1) xs))"
    using x by (metis Un_insert_right list.simps(15) set_append)
  ultimately show "set (take i xs @ drop (i + 1) xs) = set xs - {xs ! i}" "distinct (take i xs @ drop (i + 1) xs)"
    by auto
qed

text \<open>One turn writes one acceptable message with the next number and keeps the invariant.\<close>

lemma session_turn_ok:
  assumes t: "session_turn_of r k q s = (f, s')" and r: "draws_in_range r" and k: "k < kMaxSymbols"
    and inv: "gen_inv i s" and i: "i + 2 < 2 ^ 64"
  shows "\<exists>p h. f = payload_frame p \<and> payload_wf p \<and> payload_header p = Some h \<and> hdr_seq h = q \<and>
    hdr_ts_ns h = ss_ts s + 1000 \<and> payload_ok (set (ss_live_orders s)) p \<and>
    set (ss_live_orders s') = live_step (set (ss_live_orders s)) p \<and> ss_ts s' = ss_ts s + 1000 \<and> gen_inv (i + 1) s'"
proof -
  note nx = next_order_step [OF inv i] and len = length_live [OF inv i]
  have fld: "valid_price px \<and> qty \<noteq> 0 \<and> sid < kMaxSymbols"
    if "draw_fields r k g = (sid, px, qty, g')" for g sid px qty g'
    using draw_fields_range [OF r that] k
    by (auto simp: valid_price_def kPriceLevels_def word_le_nat_alt word_less_nat_alt kMaxSymbols_def)
  show ?thesis
  proof (cases rule: session_turn_cases [OF t, case_names add modify delete trade])
    case (add p g sid px qty g')
    have "gen_inv (i + 1) s'" using inv nx unfolding add(4) gen_inv_def by (auto intro: less_trans)
    then show ?thesis using inv fld [OF add(1)] add(2)
      by (intro exI [of _ p] exI [of _ "turn_header MT_AddOrder q s"])
        (auto simp: add(3,4) payload_wf_def turn_header_def add_ok_def gen_inv_def)
  next
    case (modify p g sid px qty g' n)
    have "gen_inv (i + 1) s'" using inv unfolding modify(5) gen_inv_def by auto
    then show ?thesis using fld [OF modify(1)] live_index [OF modify(2) len, of n] modify(3)
      by (intro exI [of _ p] exI [of _ "turn_header MT_ModifyOrder q s"])
        (auto simp: modify(4,5) payload_wf_def turn_header_def modify_ok_def)
  next
    case (delete p sid g' n idx)
    have idx: "idx < length (ss_live_orders s)" using live_index [OF delete(1) len] delete(2) by simp
    have d: "distinct (ss_live_orders s)" using inv by (simp add: gen_inv_def)
    have "gen_inv (i + 1) s'" using inv set_drop_nth [OF d idx] unfolding delete(5) gen_inv_def by auto
    then show ?thesis using idx set_drop_nth [OF d idx] delete(3)
      by (intro exI [of _ p] exI [of _ "turn_header MT_DeleteOrder q s"])
        (auto simp: delete(4,5) payload_wf_def turn_header_def)
  next
    case (trade p g sid px qty g')
    have "gen_inv (i + 1) s'" using inv unfolding trade(4) gen_inv_def by auto
    then show ?thesis using fld [OF trade(1)] trade(2)
      by (intro exI [of _ p] exI [of _ "turn_header MT_Trade q s"])
        (auto simp: trade(3,4) payload_wf_def turn_header_def)
  qed
qed



lemma session_loop_ok:
  assumes "draws_in_range r" "k < kMaxSymbols" "gen_inv i s" "i + n + 2 < 2 ^ 64"
  shows "\<exists>ps. session_loop r k n i s = map payload_frame ps \<and> length ps = n \<and>
    session_ok (set (ss_live_orders s)) ps \<and>
    (\<forall>j < n. payload_wf (ps ! j) \<and> (\<exists>h. payload_header (ps ! j) = Some h \<and>
      hdr_seq h = of_nat (i + j + 1) \<and> hdr_ts_ns h = ss_ts s + 1000 * of_nat (j + 1)))"
  using assms(3,4)
proof (induction n arbitrary: i s)
  case 0
  then show ?case by simp
next
  case (Suc n)
  obtain f s' where t: "session_turn_of r k (of_nat (i + 1)) s = (f, s')" by fastforce
  have "i + 2 < 2 ^ 64" using Suc.prems by simp
  from session_turn_ok [OF t assms(1,2) Suc.prems(1) this]
  obtain p h where p: "f = payload_frame p" "payload_wf p" "payload_header p = Some h" "hdr_seq h = of_nat (i + 1)"
    "hdr_ts_ns h = ss_ts s + 1000" "payload_ok (set (ss_live_orders s)) p"
    "set (ss_live_orders s') = live_step (set (ss_live_orders s)) p" "ss_ts s' = ss_ts s + 1000" "gen_inv (i + 1) s'"
    by blast
  have "i + 1 + n + 2 < 2 ^ 64" using Suc.prems by simp
  from Suc.IH [OF p(9) this] obtain ps where ps: "session_loop r k n (i + 1) s' = map payload_frame ps" "length ps = n"
    "session_ok (set (ss_live_orders s')) ps"
    "\<forall>j < n. payload_wf (ps ! j) \<and> (\<exists>h. payload_header (ps ! j) = Some h \<and>
      hdr_seq h = of_nat (i + 1 + j + 1) \<and> hdr_ts_ns h = ss_ts s' + 1000 * of_nat (j + 1))" by blast
  have "payload_wf ((p # ps) ! j) \<and> (\<exists>h. payload_header ((p # ps) ! j) = Some h \<and>
      hdr_seq h = of_nat (i + j + 1) \<and> hdr_ts_ns h = ss_ts s + 1000 * of_nat (j + 1))" if "j < Suc n" for j
  proof (cases j)
    case 0
    then show ?thesis using p by simp
  next
    case (Suc m)
    then have m: "m < n" using that by simp
    with ps(4) obtain h' where "payload_wf (ps ! m)" "payload_header (ps ! m) = Some h'"
      "hdr_seq h' = of_nat (i + 1 + m + 1)" "hdr_ts_ns h' = ss_ts s' + 1000 * of_nat (m + 1)" by blast
    then show ?thesis using Suc p(8) by (intro conjI exI [of _ h']) (simp_all add: algebra_simps)
  qed
  then show ?case using t p ps by (intro exI [of _ "p # ps"]) simp
qed

lemma gen_inv_start:
  "gen_inv 0 \<lparr>ss_rng = g, ss_next_order = 1, ss_next_trade = 1, ss_live_orders = [], ss_ts = 1000000000\<rparr>"
  by (simp add: gen_inv_def)

lemma last_symbol_bound: "1 \<le> n \<Longrightarrow> n \<le> 32 \<Longrightarrow> (of_int (n - 1) :: u32) < kMaxSymbols"
  by (simp add: kMaxSymbols_def word_less_alt unsigned_of_int take_bit_eq_mod del: of_int_diff)

lemma generate_session_ok:
  assumes "draws_in_range r" "1 \<le> sc_symbols cfg" "sc_symbols cfg \<le> 32" "0 \<le> sc_messages cfg"
    "sc_messages cfg < 2 ^ 31"
  shows "\<exists>ps. generate_session r cfg = Inr (map payload_frame ps) \<and> length ps = nat (sc_messages cfg) \<and>
    session_ok {} ps \<and>
    (\<forall>j < length ps. payload_wf (ps ! j) \<and> (\<exists>h. payload_header (ps ! j) = Some h \<and>
      hdr_seq h = of_nat (j + 1) \<and> hdr_ts_ns h = 1000000000 + 1000 * of_nat (j + 1)))"
proof -
  let ?s = "\<lparr>ss_rng = rn_seed r (sc_seed cfg), ss_next_order = 1, ss_next_trade = 1, ss_live_orders = [], ss_ts = 1000000000\<rparr>"
  have "0 + nat (sc_messages cfg) + 2 < 2 ^ 64" using assms(4,5) by simp
  from session_loop_ok [OF assms(1) last_symbol_bound [OF assms(2,3)] gen_inv_start [of "rn_seed r (sc_seed cfg)"] this]
  obtain ps where "session_loop r (of_int (sc_symbols cfg - 1)) (nat (sc_messages cfg)) 0 ?s = map payload_frame ps"
    "length ps = nat (sc_messages cfg)" "session_ok {} ps"
    "\<forall>j < nat (sc_messages cfg). payload_wf (ps ! j) \<and> (\<exists>h. payload_header (ps ! j) = Some h \<and>
      hdr_seq h = of_nat (0 + j + 1) \<and> hdr_ts_ns h = 1000000000 + 1000 * of_nat (j + 1))" by auto
  then show ?thesis using assms(4) by (intro exI [of _ ps]) (simp add: generate_session_def)
qed

text \<open>A book that has room for every add holds exactly the orders that are live in the session.\<close>

lemma session_ok_orders:
  assumes "session_ok (dom os) ps" "card (dom os) + length ps \<le> kOrderPool"
  shows "dom (foldl order_step os ps) = foldl live_step (dom os) ps"
  using assms
proof (induction ps arbitrary: os)
  case (Cons p ps)
  have fin: "finite (dom os)" by simp
  have step: "dom (order_step os p) = live_step (dom os) p"
  proof (cases p)
    case (P_AddOrder m)
    then show ?thesis using Cons.prems by auto
  qed (use Cons.prems in auto)
  moreover have "card (live_step (dom os) p) \<le> card (dom os) + 1"
  proof (cases p)
    case (P_AddOrder m)
    then show ?thesis using card_insert_le_m1 by (simp add: card_insert_if)
  next
    case (P_DeleteOrder m)
    then show ?thesis by (simp add: card_Diff1_le le_SucI)
  qed simp_all
  ultimately show ?case using Cons.IH [of "order_step os p"] Cons.prems by simp
qed simp

text \<open>Each frame is one the reorder buffer and the parser take as it is.\<close>

lemma payload_session_frame:
  assumes "payload_wf p" "payload_header p = Some h" "hdr_seq h = of_nat i"
  shows "session_frame (payload_frame p) i" "frame_payload (payload_frame p) = p"
proof -
  have e: "parse_message (payload_frame p) = \<lparr>pm_status = Ok, pm_payload = p, pm_consumed = length (payload_frame p)\<rparr>"
    using parse_payload_frame [OF assms(1), of "[]"] by simp
  then have "Some h = Some (decode_header (bytes_WireHeader (payload_frame p)))"
    using parse_ok_header [of "payload_frame p"] assms(2) by (simp add: message_header_def)
  then have "frame_seq (payload_frame p) = hdr_seq h" by (simp add: frame_seq_def decode_header_def)
  then show "session_frame (payload_frame p) i" "frame_payload (payload_frame p) = p"
    using e assms(3) by (simp_all add: session_frame_def frame_payload_def)
qed



section \<open>Serving a range\<close>

text \<open>What the server adds to the payload for one number of the range.\<close>

definition frame_at :: "bytes list \<Rightarrow> nat \<Rightarrow> bytes" where
  "frame_at session i = (if i = 0 \<or> length session < i then [] else session ! (i - 1))"

lemma range_step:
  "(if s = 0 \<or> length session < unat s then payload else payload @ session ! unat (s - 1)) =
   payload @ frame_at session (unat s)"
proof (cases "s = 0")
  case False
  then have "unat (s - 1) = unat s - 1" by (simp add: unat_minus_one)
  then show ?thesis using False by (simp add: frame_at_def unat_eq_0)
qed (simp add: frame_at_def)

lemma unat_max_u64: "unat (- 1 :: u64) = 2 ^ 64 - 1"
  by (simp add: unsigned_minus_1_eq_mask mask_eq_exp_minus_1)

lemma unat_Suc_u64:
  assumes "(s :: u64) \<noteq> - 1"
  shows "unat (s + 1) = unat s + 1"
proof -
  have "unat s \<noteq> 2 ^ 64 - 1" using assms unat_max_u64 by (metis word_unat_eq_iff)
  moreover have "unat s < 2 ^ 64" using unsigned_less [of s] by simp
  ultimately show ?thesis by (simp add: unat_word_ariths)
qed

lemma range_loop_result:
  assumes "finish \<noteq> - 1"
  shows "range_loop session finish s payload =
    Some (payload @ concat (map (frame_at session) [unat s..<unat finish + 1]))"
proof (induction "unat finish + 1 - unat s" arbitrary: s payload)
  case 0
  then have "\<not> s \<le> finish" by (simp add: word_le_nat_alt)
  then show ?case using 0 by (subst range_loop.simps) simp
next
  case (Suc n)
  then have le: "s \<le> finish" by (simp add: word_le_nat_alt)
  have "s \<noteq> - 1" using le assms by (metis word_order.extremum_uniqueI)
  then have s1: "unat (s + 1) = unat s + 1" by (rule unat_Suc_u64)
  have up: "[unat s..<unat finish + 1] = unat s # [unat s + 1..<unat finish + 1]"
    using le by (simp add: upt_conv_Cons word_le_nat_alt)
  have "range_loop session finish s payload =
      range_loop session finish (s + 1) (payload @ frame_at session (unat s))"
    using le by (subst range_loop.simps) (simp only: range_step if_True)
  also have "\<dots> = Some ((payload @ frame_at session (unat s)) @
      concat (map (frame_at session) [unat (s + 1)..<unat finish + 1]))"
    using Suc.hyps(2) s1 by (intro Suc.hyps(1)) simp
  finally show ?case unfolding up s1 by simp
qed

lemma range_loop_returns: "range_loop session finish s payload = Some r \<Longrightarrow> finish \<noteq> - 1"
proof (rule range_loop.raw_induct [where P = "\<lambda>session finish s payload r. finish \<noteq> - 1"])
  fix f session finish s payload r
  assume IH: "\<And>session finish s payload r. f session finish s payload = Some r \<Longrightarrow> (finish :: u64) \<noteq> - 1"
    and eq: "(if s \<le> finish then f session finish (s + 1)
        (if s = 0 \<or> length session < unat s then payload else payload @ session ! unat (s - 1))
      else Some payload) = Some r"
  show "finish \<noteq> - 1"
  proof
    assume m: "finish = - 1"
    then have "s \<le> finish" by simp
    then show False using IH eq m by (metis (no_types, lifting))
  qed
qed

lemma gap_request_fields:
  "length (gap_request_frame q ts a b) = 36"
  "get_be64 (wq_start_seq (bytes_WireGapRequest (gap_request_frame q ts a b))) = a"
  "get_be64 (wq_end_seq (bytes_WireGapRequest (gap_request_frame q ts a b))) = b"
  using bytes_wire_append(6) [where r = "[]"]
  by (simp_all add: gap_request_frame_def encode_gap_request_def)

lemma gap_response_bytes:
  "get_be32 (wr_payload_bytes (bytes_WireGapResponse (gap_response_frame q ts a b n))) = n"
  using bytes_wire_append(7) [where r = "[]"]
  by (simp add: gap_response_frame_def encode_gap_response_def)

lemma serve_request_range:
  assumes "b \<noteq> - 1" and payload_def: "payload = concat (map (frame_at session) [unat a..<unat b + 1])"
  shows "serve_request session now (gap_request_frame q ts a b) =
    Some (Some (gap_response_frame 0 now a b (of_nat (length payload)), payload))"
  using range_loop_result [OF assms(1), of session a "[]"]
  by (simp add: serve_request_def gap_request_fields Let_def payload_def)

section \<open>The recovery service of the feed handler\<close>

text \<open>
  What the handler's socket calls see when they reach the server: TCP delivers what the
  server sends in order, cut into chunks by \<open>split\<close>. A server that does not answer is a
  short response.
\<close>

definition simulator_net :: "(nat \<Rightarrow> bytes \<Rightarrow> bytes list) \<Rightarrow> (nat \<Rightarrow> u64) \<Rightarrow> bytes list \<Rightarrow> nat \<Rightarrow> bytes \<Rightarrow> recovery_io" where
  "simulator_net split host_now_ns session k req =
     (case serve_request session (host_now_ns k) req of
        Some (Some (resp, payload)) \<Rightarrow> Replied resp (split k payload)
      | _ \<Rightarrow> Response_short)"

definition tcp_split :: "(nat \<Rightarrow> bytes \<Rightarrow> bytes list) \<Rightarrow> bool" where
  "tcp_split split \<longleftrightarrow> (\<forall>k bs. concat (split k bs) = bs \<and> [] \<notin> set (split k bs))"

text \<open>The sessions the service covers, by their length: whole payloads fit a 32-bit length.\<close>

definition numbered_session :: "bytes list \<Rightarrow> bool" where
  "numbered_session session \<longleftrightarrow> (\<forall>i < length session. session_frame (session ! i) (i + 1)) \<and>
     44 * length session < 2 ^ 32"

definition served :: "(nat \<Rightarrow> bytes \<Rightarrow> bytes list) \<Rightarrow> bytes list \<Rightarrow> nat" where
  "served split session = (if tcp_split split \<and> numbered_session session then length session else 0)"

lemma length_concat_frames:
  "(\<And>x. x \<in> set xs \<Longrightarrow> length (F x) \<le> 44) \<Longrightarrow> length (concat (map F xs)) \<le> 44 * length xs"
  by (induction xs) (auto intro: add_mono)

interpretation sim: recovery_service "simulator_net split host_now_ns session" "\<lambda>i. session ! (i - 1)" "served split session"
  for split host_now_ns session
proof unfold_locales
  fix i assume "1 \<le> i" "i \<le> served split session"
  then show "session_frame (session ! (i - 1)) i"
    by (auto simp: served_def numbered_session_def split: if_splits dest: spec [of _ "i - 1"])
next
  show "served split session + 1 < 2 ^ 64" by (auto simp: served_def numbered_session_def)
next
  fix a b k and ts :: u64
  assume ab: "1 \<le> a" "a \<le> b" "b \<le> served split session"
  then have n: "tcp_split split" "numbered_session session" "b \<le> length session"
    by (auto simp: served_def split: if_splits)
  let ?c = "concat (map (\<lambda>i. session ! (i - 1)) [a..<b + 1])"
  have b64: "b + 1 < 2 ^ 32" using n by (simp add: numbered_session_def)
  then have u: "unat (of_nat a :: u64) = a" "unat (of_nat b :: u64) = b" using ab
    by (simp_all add: unat_of_nat take_bit_eq_mod)
  have nb: "(of_nat b :: u64) \<noteq> - 1"
  proof
    assume "(of_nat b :: u64) = - 1"
    then have "b = 2 ^ 64 - 1" using u(2) unat_max_u64 by metis
    then show False using b64 by simp
  qed
  have at: "map (frame_at session) [a..<b + 1] = map (\<lambda>i. session ! (i - 1)) [a..<b + 1]"
    using ab n(3) by (auto simp: frame_at_def)
  have "length (session ! (x - 1)) \<le> 44" if "x \<in> set [a..<b + 1]" for x
    using that ab n session_frame_legal [of "session ! (x - 1)" x]
    by (auto simp: numbered_session_def legal_frame_def dest: spec [of _ "x - 1"])
  then have "length ?c \<le> 44 * length [a..<b + 1]" by (rule length_concat_frames)
  also have "\<dots> \<le> 44 * length session" using ab n(3) by simp
  finally have len: "length ?c < 2 ^ 32" using n(2) by (simp add: numbered_session_def del: upt_Suc)
  have r: "simulator_net split host_now_ns session k (gap_request_frame 0 ts (of_nat a) (of_nat b)) =
      Replied (gap_response_frame 0 (host_now_ns k) (of_nat a) (of_nat b) (of_nat (length ?c))) (split k ?c)"
    unfolding simulator_net_def serve_request_range [OF nb refl] u at by simp
  show "\<exists>resp chunks. simulator_net split host_now_ns session k (gap_request_frame 0 ts (of_nat a) (of_nat b)) =
        Replied resp chunks \<and>
      unat (get_be32 (wr_payload_bytes (bytes_WireGapResponse resp))) = length ?c \<and>
      concat chunks = ?c \<and> [] \<notin> set chunks"
    unfolding r using n(1) len by (auto simp: gap_response_bytes tcp_split_def unat_of_nat take_bit_eq_mod simp del: upt_Suc)
qed

section \<open>What is sent\<close>

lemma flush_delayed_split: "flush_delayed i ds = (out, rest) \<Longrightarrow> map snd ds = out @ map snd rest"
  by (induction ds arbitrary: out rest) (auto split: if_splits prod.splits)

lemma send_turn_mset:
  assumes "i < length session" "s' = send_turn r cfg session s i"
  shows "mset (sd_sent s' @ map snd (sd_delayed s')) =
      mset (sd_sent s @ map snd (sd_delayed s)) + (if fst (chance r (sc_loss_rate cfg) (sd_rng s)) then {#} else {#session ! i#})"
proof -
  obtain lost g where c: "chance r (sc_loss_rate cfg) (sd_rng s) = (lost, g)" by fastforce
  obtain late g' where l: "chance r (sc_reorder_rate cfg) g = (late, g')" by fastforce
  obtain out rest where f: "flush_delayed i (sd_delayed s) = (out, rest)" by fastforce
  have "mset (map snd (sd_delayed s)) = mset (out @ map snd rest)" using flush_delayed_split [OF f] by simp
  then show ?thesis unfolding assms(2) send_turn_def by (simp add: c l f Let_def)
qed

lemma chance_off: "rate \<le> 0 \<Longrightarrow> chance r rate g = (False, g)"
  by (simp add: chance_def)

definition send_from :: "'g rng \<Rightarrow> SimulatorConfig \<Rightarrow> bytes list \<Rightarrow> nat \<Rightarrow> 'g send_state" where
  "send_from r cfg session n = foldl (send_turn r cfg session)
     \<lparr>sd_rng = rn_seed r (sc_seed cfg + 99), sd_delayed = [], sd_sent = []\<rparr> [0..<n]"

lemma send_session_from:
  "send_session r cfg session =
     (let s = send_from r cfg session (length session) in sd_sent s @ map snd (sd_delayed s))"
  by (simp add: send_session_def send_from_def)

lemma send_from_Suc: "send_from r cfg session (Suc n) = send_turn r cfg session (send_from r cfg session n) n"
  by (simp add: send_from_def)

lemma send_from_mset:
  assumes "n \<le> length session" "s = send_from r cfg session n"
  shows "mset (sd_sent s @ map snd (sd_delayed s)) \<subseteq># mset (take n session) \<and>
    (sc_loss_rate cfg \<le> 0 \<longrightarrow> mset (sd_sent s @ map snd (sd_delayed s)) = mset (take n session))"
  using assms
proof (induction n arbitrary: s)
  case 0
  then show ?case by (simp add: send_from_def)
next
  case (Suc n)
  let ?s = "send_from r cfg session n"
  have n: "n < length session" using Suc.prems by simp
  have "s = send_turn r cfg session ?s n" using Suc.prems by (simp add: send_from_Suc)
  note t = send_turn_mset [OF n this]
  have tk: "mset (take (Suc n) session) = mset (take n session) + {#session ! n#}"
    using n by (simp add: take_Suc_conv_app_nth)
  have IH: "mset (sd_sent ?s @ map snd (sd_delayed ?s)) \<subseteq># mset (take n session)"
    "sc_loss_rate cfg \<le> 0 \<longrightarrow> mset (sd_sent ?s @ map snd (sd_delayed ?s)) = mset (take n session)"
    using Suc.IH [of ?s] n by auto
  show ?case unfolding t tk using IH
    by (auto simp: chance_off intro: subset_mset.add_mono subset_mset.order_trans simp del: mset_append)
qed

text \<open>Without reordering nothing is ever delayed, and the frames go out in session order.\<close>

lemma send_from_in_order:
  assumes "sc_reorder_rate cfg \<le> 0" "n \<le> length session" "s = send_from r cfg session n"
  shows "sd_delayed s = [] \<and> subseq (sd_sent s) (take n session)"
  using assms(2,3)
proof (induction n arbitrary: s)
  case 0
  then show ?case by (simp add: send_from_def)
next
  case (Suc n)
  let ?s = "send_from r cfg session n"
  have n: "n < length session" using Suc.prems by simp
  have IH: "sd_delayed ?s = []" "subseq (sd_sent ?s) (take n session)" using Suc.IH [of ?s] n by auto
  have s: "s = send_turn r cfg session ?s n" using Suc.prems by (simp add: send_from_Suc)
  have tk: "take (Suc n) session = take n session @ [session ! n]" using n by (simp add: take_Suc_conv_app_nth)
  obtain lost g where c: "chance r (sc_loss_rate cfg) (sd_rng ?s) = (lost, g)" by fastforce
  show ?case
  proof (cases lost)
    case True
    then have "sd_delayed s = []" "sd_sent s = sd_sent ?s" using IH by (simp_all add: s send_turn_def c Let_def)
    then show ?thesis unfolding tk using IH(2) by (simp add: subseq_rev_drop_many)
  next
    case False
    then have "sd_delayed s = []" "sd_sent s = sd_sent ?s @ [session ! n]"
      using IH assms(1) by (simp_all add: s send_turn_def c chance_off Let_def)
    then show ?thesis unfolding tk using IH(2) by simp
  qed
qed



lemma send_session_mset:
  "mset (send_session r cfg session) \<subseteq># mset session"
  "sc_loss_rate cfg \<le> 0 \<Longrightarrow> mset (send_session r cfg session) = mset session"
  using send_from_mset [OF order_refl refl, where session = session and r = r and cfg = cfg]
  by (simp_all add: send_session_from Let_def)

lemma send_session_in_order: "sc_reorder_rate cfg \<le> 0 \<Longrightarrow> subseq (send_session r cfg session) session"
  using send_from_in_order [OF _ order_refl refl, where session = session and r = r and cfg = cfg]
  by (simp add: send_session_from Let_def)

lemma send_session_plain:
  "sc_loss_rate cfg \<le> 0 \<Longrightarrow> sc_reorder_rate cfg \<le> 0 \<Longrightarrow> send_session r cfg session = session"
  using send_session_mset(2) send_session_in_order subseq_same_length by (metis size_mset)

section \<open>Properties\<close>

text \<open>
  C28: With distributions that stay in their range, 1 to 32 symbols and a number of messages
  that is not negative, the simulator generates exactly that many frames. Frame \<open>j\<close> is
  accepted by the parser as a whole, with sequence number \<open>j + 1\<close> and its own microsecond
  of exchange time; every add uses an id that is not live and fields that the book accepts,
  every modify and delete names a live order; and the book built from a session of at most
  65536 messages holds exactly the orders that are live at its end.
\<close>

theorem session_well_formed:
  assumes "draws_in_range r" "1 \<le> sc_symbols cfg" "sc_symbols cfg \<le> 32" "0 \<le> sc_messages cfg"
    "sc_messages cfg < 2 ^ 31"
  shows "\<exists>ps. generate_session r cfg = Inr (map payload_frame ps) \<and> length ps = nat (sc_messages cfg) \<and>
    session_ok {} ps \<and>
    (\<forall>j < length ps. parse_message (payload_frame (ps ! j)) =
        \<lparr>pm_status = Ok, pm_payload = ps ! j, pm_consumed = length (payload_frame (ps ! j))\<rparr> \<and>
      (\<exists>h. payload_header (ps ! j) = Some h \<and> hdr_seq h = of_nat (j + 1) \<and>
        hdr_ts_ns h = 1000000000 + 1000 * of_nat (j + 1))) \<and>
    (sc_messages cfg \<le> 65536 \<longrightarrow>
      dom (pool_lookup (bb_pool (book_run init_BookBuilder ps))) = foldl live_step {} ps)"
proof -
  obtain ps where ps: "generate_session r cfg = Inr (map payload_frame ps)" "length ps = nat (sc_messages cfg)"
    "session_ok {} ps" "\<forall>j < length ps. payload_wf (ps ! j) \<and> (\<exists>h. payload_header (ps ! j) = Some h \<and>
      hdr_seq h = of_nat (j + 1) \<and> hdr_ts_ns h = 1000000000 + 1000 * of_nat (j + 1))"
    using generate_session_ok [OF assms] by blast
  have "dom (order_run ps) = foldl live_step {} ps" if "sc_messages cfg \<le> 65536"
    using session_ok_orders [of Map.empty ps] ps(2,3) that by (simp add: order_run_def kOrderPool_def)
  then have "sc_messages cfg \<le> 65536 \<longrightarrow>
      dom (pool_lookup (bb_pool (book_run init_BookBuilder ps))) = foldl live_step {} ps"
    using book_run_inv [of ps] by simp
  moreover have "\<forall>j < length ps. parse_message (payload_frame (ps ! j)) =
      \<lparr>pm_status = Ok, pm_payload = ps ! j, pm_consumed = length (payload_frame (ps ! j))\<rparr>"
    using ps(4) parse_payload_frame [where rest = "[]"] by auto
  ultimately show ?thesis using ps by blast
qed

text \<open>A source of draws that always takes the lower bound, for closed instances.\<close>

definition low_rng :: "unit rng" where
  "low_rng = \<lparr>rn_seed = (\<lambda>_. ()), rn_next = (\<lambda>g. (0, g)), rn_uint32 = (\<lambda>a b g. (a, g)),
     rn_int = (\<lambda>a b g. (a, g)), rn_unit = (\<lambda>g. (0, g)), rn_left = True\<rparr>"

lemma low_rng_in_range: "draws_in_range low_rng"
  by (simp add: draws_in_range_def low_rng_def)

definition small_config :: SimulatorConfig where
  "small_config = init_SimulatorConfig\<lparr>sc_messages := 3\<rparr>"

lemma small_config_simps [simp]:
  "sc_symbols small_config = 4" "sc_messages small_config = 3" "sc_loss_rate small_config = 0"
  "sc_reorder_rate small_config = 0"
  by (simp_all add: small_config_def init_SimulatorConfig_def)

theorem session_well_formed_witness:
  "\<exists>ps. generate_session low_rng small_config = Inr (map payload_frame ps) \<and> length ps = 3 \<and> session_ok {} ps \<and>
     dom (pool_lookup (bb_pool (book_run init_BookBuilder ps))) = foldl live_step {} ps"
proof -
  have "1 \<le> sc_symbols small_config" "sc_symbols small_config \<le> 32" "0 \<le> sc_messages small_config"
    "sc_messages small_config < 2 ^ 31" "sc_messages small_config \<le> 65536" by simp_all
  with session_well_formed [OF low_rng_in_range this(1-4)] obtain ps where
    "generate_session low_rng small_config = Inr (map payload_frame ps)" "length ps = nat (sc_messages small_config)"
    "session_ok {} ps" "dom (pool_lookup (bb_pool (book_run init_BookBuilder ps))) = foldl live_step {} ps" by blast
  then show ?thesis by (intro exI [of _ ps]) simp
qed

text \<open>
  A request for the range \<open>a\<close> to \<open>b\<close> is answered with the response header for that range
  and the concatenation of exactly the session's frames with these numbers, in order:
  numbers outside the session are left out. A request that is not complete gets no answer.
  This holds for every range that does not end in the last 64-bit number.
\<close>

theorem recovery_serves_range:
  assumes "b \<noteq> - 1"
  shows "\<exists>payload. payload = concat (map (\<lambda>i. session ! (i - 1))
        (filter (\<lambda>i. 1 \<le> i \<and> i \<le> length session) [unat a..<unat b + 1])) \<and>
    serve_request session now (gap_request_frame q ts a b) =
      Some (Some (gap_response_frame 0 now a b (of_nat (length payload)), payload)) \<and>
    serve_request session now (take 35 (gap_request_frame q ts a b)) = Some None"
proof -
  have "concat (map (frame_at session) ns) =
      concat (map (\<lambda>i. session ! (i - 1)) (filter (\<lambda>i. 1 \<le> i \<and> i \<le> length session) ns))" for ns
    by (induction ns) (auto simp: frame_at_def)
  then show ?thesis using serve_request_range [OF assms refl, of session now q ts a] gap_request_fields(1) [of q ts a b]
    by (simp add: serve_request_def del: upt_Suc)
qed

theorem recovery_serves_range_witness:
  "serve_request [[1], [2], [3]] 7 (gap_request_frame 0 0 0 1) =
     Some (Some (gap_response_frame 0 7 0 1 1, [1]))"
proof -
  have "(1 :: u64) \<noteq> - 1" by simp
  from recovery_serves_range [OF this, where session = "[[1], [2], [3]]" and now = 7 and q = 0 and ts = 0 and a = 0] show ?thesis by simp
qed

text \<open>
  A request whose range ends in the last 64-bit number is never answered, whatever the
  session and the start of the range: the counter of the loop wraps to 0 before it passes
  the end, and the loop goes on for ever.
\<close>

theorem recovery_loops_on_max:
  "serve_request session now (gap_request_frame q ts a (- 1)) = None"
proof -
  have "range_loop session (- 1) a [] = None" using range_loop_returns [of session "- 1" a "[]"] by (cases "range_loop session (- 1) a []") auto
  then show ?thesis by (simp add: serve_request_def gap_request_fields Let_def)
qed

text \<open>
  C32: What the simulator sends is part of the session, each frame at most as often as the
  session has it: exactly the session, in some order, when the loss rate is not positive; in
  session order when the reorder rate is not positive; and the session itself when neither
  is.
\<close>

theorem sender_permutes:
  "mset (send_session r cfg session) \<subseteq># mset session \<and>
   (sc_loss_rate cfg \<le> 0 \<longrightarrow> mset (send_session r cfg session) = mset session) \<and>
   (sc_reorder_rate cfg \<le> 0 \<longrightarrow> subseq (send_session r cfg session) session) \<and>
   (sc_loss_rate cfg \<le> 0 \<and> sc_reorder_rate cfg \<le> 0 \<longrightarrow> send_session r cfg session = session)"
  using send_session_mset send_session_in_order send_session_plain by blast

theorem sender_permutes_witness:
  "send_session low_rng small_config [[1], [2]] = [[1], [2]]"
  using sender_permutes [of low_rng small_config "[[1], [2]]"] by simp


end
