(* ===== verification/Sockets.thy ===== *)
theory Sockets
  imports Simulator
begin

text \<open>
  The socket calls of the two programs: the recovery connection of
  \<^verbatim>\<open>FeedHandler::try_recover\<close>, the UDP socket of \<^verbatim>\<open>FeedHandler::run\<close> and of the destructor,
  the recovery server \<^verbatim>\<open>run_recovery_server\<close> and the sender of \<^verbatim>\<open>FeedSimulator::run\<close>.

  The operating system decides how each call ends; these outcomes are arguments. What a
  function does with its descriptors is a list of events. A descriptor the system hands out
  is one that is not open, and bytes written to a TCP connection arrive in order.
\<close>

section \<open>Descriptors\<close>

datatype sock_event = Opened nat | Sent nat bytes | Closed nat

text \<open>
  The descriptors that are open after some events; \<^term>\<open>None\<close> when a descriptor is used or
  closed that is not open, or opened twice.
\<close>

fun fd_step :: "nat list option \<Rightarrow> sock_event \<Rightarrow> nat list option" where
  "fd_step None e = None"
| "fd_step (Some ds) (Opened d) = (if d \<in> set ds then None else Some (d # ds))"
| "fd_step (Some ds) (Sent d bs) = (if d \<in> set ds then Some ds else None)"
| "fd_step (Some ds) (Closed d) = (if d \<in> set ds then Some (remove1 d ds) else None)"

definition open_after :: "nat list \<Rightarrow> sock_event list \<Rightarrow> nat list option" where
  "open_after ds es = foldl fd_step (Some ds) es"

text \<open>What is written to a descriptor, in order.\<close>

definition written :: "nat \<Rightarrow> sock_event list \<Rightarrow> bytes" where
  "written d es = concat (map (\<lambda>e. case e of Sent c bs \<Rightarrow> (if c = d then bs else []) | _ \<Rightarrow> []) es)"

lemma open_after_simps [simp]:
  "open_after ds [] = Some ds"
  "open_after ds (Opened d # es) = (if d \<in> set ds then None else open_after (d # ds) es)"
  "open_after ds (Sent d bs # es) = (if d \<in> set ds then open_after ds es else None)"
  "open_after ds (Closed d # es) = (if d \<in> set ds then open_after (remove1 d ds) es else None)"
proof -
  have none: "foldl fd_step None es = None" for es by (induction es) auto
  show "open_after ds [] = Some ds"
    "open_after ds (Opened d # es) = (if d \<in> set ds then None else open_after (d # ds) es)"
    "open_after ds (Sent d bs # es) = (if d \<in> set ds then open_after ds es else None)"
    "open_after ds (Closed d # es) = (if d \<in> set ds then open_after (remove1 d ds) es else None)"
    by (simp_all add: open_after_def none)
qed

lemma open_after_append: "open_after ds (es @ fs) = Option.bind (open_after ds es) (\<lambda>ds. open_after ds fs)"
proof (induction es arbitrary: ds)
  case (Cons e es)
  then show ?case by (cases e) auto
qed simp

lemma written_simps [simp]:
  "written d [] = []" "written d (Opened c # es) = written d es" "written d (Closed c # es) = written d es"
  "written d (Sent c bs # es) = (if c = d then bs else []) @ written d es"
  by (simp_all add: written_def)

section \<open>The recovery connection of the handler\<close>

text \<open>
  How the calls of one attempt end: the descriptor if \<^verbatim>\<open>socket\<close> succeeds, whether
  \<^verbatim>\<open>connect\<close> and \<^verbatim>\<open>send\<close> succeed, what the \<^verbatim>\<open>recv\<close> of the response structure returns, and
  what the following ones return before one returns 0 or fails.
\<close>

record recover_calls =
  rc_socket :: "nat option"
  rc_connect :: bool
  rc_send :: bool
  rc_header :: bytes
  rc_chunks :: "bytes list"

definition recover_io :: "recover_calls \<Rightarrow> bytes \<Rightarrow> recovery_io \<times> sock_event list" where
  "recover_io calls req =
     (case rc_socket calls of
        None \<Rightarrow> (Socket_failed, [])
      | Some fd \<Rightarrow>
          if \<not> rc_connect calls then (Connect_failed, [Opened fd, Closed fd])
          else if \<not> rc_send calls then (Send_failed, [Opened fd, Closed fd])
          else if length (rc_header calls) \<noteq> 44 then (Response_short, [Opened fd, Sent fd req, Closed fd])
          else (Replied (rc_header calls) (rc_chunks calls), [Opened fd, Sent fd req, Closed fd]))"

section \<open>The recovery server\<close>

text \<open>
  How one turn of the loop of \<^verbatim>\<open>run_recovery_server\<close> goes: \<^verbatim>\<open>select\<close> times out or fails,
  \<^verbatim>\<open>accept\<close> fails, or there is a connection with a descriptor, on which \<^verbatim>\<open>recv\<close> with
  \<^verbatim>\<open>MSG_WAITALL\<close> returns these bytes (fewer than 36 when the client closes early).
\<close>

datatype server_turn = No_connection | Accept_failed | Connection nat u64 bytes

definition serve_connection :: "bytes list \<Rightarrow> nat \<Rightarrow> u64 \<Rightarrow> bytes \<Rightarrow> sock_event list option" where
  "serve_connection session cfd host_now_ns req =
     (case serve_request session host_now_ns req of
        None \<Rightarrow> None
      | Some None \<Rightarrow> Some [Opened cfd, Closed cfd]
      | Some (Some (resp, payload)) \<Rightarrow>
          Some ([Opened cfd, Sent cfd resp] @ (if payload = [] then [] else [Sent cfd payload]) @ [Closed cfd]))"

text \<open>The turns until \<^verbatim>\<open>stop\<close> is seen; \<^term>\<open>None\<close> when a request is never finished.\<close>

fun server_loop :: "bytes list \<Rightarrow> server_turn list \<Rightarrow> sock_event list option" where
  "server_loop session [] = Some []"
| "server_loop session (No_connection # turns) = server_loop session turns"
| "server_loop session (Accept_failed # turns) = server_loop session turns"
| "server_loop session (Connection cfd host_now_ns req # turns) =
     (case serve_connection session cfd host_now_ns req of
        None \<Rightarrow> None
      | Some es \<Rightarrow> map_option (\<lambda>fs. es @ fs) (server_loop session turns))"

text \<open>The descriptor if \<^verbatim>\<open>socket\<close> succeeds, and whether \<^verbatim>\<open>bind\<close> and \<^verbatim>\<open>listen\<close> succeed.\<close>

record listen_calls =
  lc_socket :: "nat option"
  lc_bind :: bool
  lc_listen :: bool

definition run_recovery_server :: "bytes list \<Rightarrow> listen_calls \<Rightarrow> server_turn list \<Rightarrow> (int \<times> sock_event list) option" where
  "run_recovery_server session calls turns =
     (case lc_socket calls of
        None \<Rightarrow> Some (1, [])
      | Some fd \<Rightarrow>
          if \<not> lc_bind calls then Some (1, [Opened fd, Closed fd])
          else if \<not> lc_listen calls then Some (1, [Opened fd, Closed fd])
          else map_option (\<lambda>es. (0, [Opened fd] @ es @ [Closed fd])) (server_loop session turns))"

section \<open>The simulator and the handler as processes\<close>

text \<open>
  \<^verbatim>\<open>FeedSimulator::run\<close>: the recovery server runs in a thread of its own, which is joined
  before the function returns, so \<^term>\<open>Some None\<close> stands for a join that never returns; the
  exit code of the server is not looked at. The result has the exit code, the events of the
  sender and those of the server.
\<close>

definition FeedSimulator_run ::
  "'g rng \<Rightarrow> SimulatorConfig \<Rightarrow> nat option \<Rightarrow> listen_calls \<Rightarrow> server_turn list \<Rightarrow>
    sim_error + (int \<times> sock_event list \<times> sock_event list) option" where
  "FeedSimulator_run r cfg udp_socket calls turns =
     (case generate_session r cfg of
        Inl e \<Rightarrow> Inl e
      | Inr session \<Rightarrow>
          let (code, sent) =
                (case udp_socket of
                   None \<Rightarrow> (1, [])
                 | Some fd \<Rightarrow> (0, [Opened fd] @ map (Sent fd) (send_session r cfg session) @ [Closed fd]))
          in Inr (map_option (\<lambda>(_, answers). (code, sent, answers)) (run_recovery_server session calls turns)))"

text \<open>
  The descriptor \<^verbatim>\<open>udp_fd_\<close> of the handler, with the events of \<^verbatim>\<open>run\<close> up to the receive
  loop and of the destructor.
\<close>

definition handler_open :: "nat option \<Rightarrow> bool \<Rightarrow> (nat option \<times> bool) \<times> sock_event list" where
  "handler_open udp_socket bind_ok =
     (case udp_socket of
        None \<Rightarrow> ((None, False), [])
      | Some fd \<Rightarrow> ((Some fd, bind_ok), [Opened fd]))"

definition destroy_FeedHandler :: "nat option \<Rightarrow> nat option \<times> sock_event list" where
  "destroy_FeedHandler udp_fd = (case udp_fd of None \<Rightarrow> (None, []) | Some fd \<Rightarrow> (None, [Closed fd]))"

text \<open>
  A whole life of a handler: constructed, run with the recovery attempts that the turns
  bring, destroyed. The attempts are made by the feed thread one after the other, and \<^verbatim>\<open>run\<close>
  is called once, as \<^verbatim>\<open>main\<close> does.
\<close>

definition handler_events :: "nat option \<Rightarrow> bool \<Rightarrow> (recover_calls \<times> bytes) list \<Rightarrow> sock_event list" where
  "handler_events udp_socket bind_ok attempts =
     (let ((fd, bound), es) = handler_open udp_socket bind_ok;
          rs = (if bound then concat (map (\<lambda>(calls, req). snd (recover_io calls req)) attempts) else [])
      in es @ rs @ snd (destroy_FeedHandler fd))"

section \<open>What the server sends\<close>

text \<open>
  The specification of a connection: a complete request is answered with the response
  structure for its range and the frames of the session with these numbers, in order.
\<close>

definition request_range :: "bytes \<Rightarrow> u64 \<times> u64" where
  "request_range req = (get_be64 (wq_start_seq (bytes_WireGapRequest req)), get_be64 (wq_end_seq (bytes_WireGapRequest req)))"

definition frames_between :: "bytes list \<Rightarrow> u64 \<Rightarrow> u64 \<Rightarrow> bytes" where
  "frames_between session a b =
     concat (map (\<lambda>i. session ! (i - 1)) (filter (\<lambda>i. 1 \<le> i \<and> i \<le> length session) [unat a..<unat b + 1]))"

fun reply_events :: "bytes list \<Rightarrow> server_turn \<Rightarrow> sock_event list" where
  "reply_events session (Connection cfd now req) =
     (if length req = 36 then
        let (a, b) = request_range req; payload = frames_between session a b
        in [Opened cfd, Sent cfd (gap_response_frame 0 now a b (of_nat (length payload)))] @
           (if payload = [] then [] else [Sent cfd payload]) @ [Closed cfd]
      else [Opened cfd, Closed cfd])"
| "reply_events session _ = []"

fun endless :: "server_turn \<Rightarrow> bool" where
  "endless (Connection cfd now req) \<longleftrightarrow> length req = 36 \<and> snd (request_range req) = - 1"
| "endless _ \<longleftrightarrow> False"

lemma frames_between_at: "concat (map (frame_at session) [unat a..<unat b + 1]) = frames_between session a b"
proof -
  have "concat (map (frame_at session) ns) =
      concat (map (\<lambda>i. session ! (i - 1)) (filter (\<lambda>i. 1 \<le> i \<and> i \<le> length session) ns))" for ns
    by (induction ns) (auto simp: frame_at_def)
  then show ?thesis by (simp add: frames_between_def del: upt_Suc)
qed

lemma serve_request_cases:
  "serve_request session now req =
     (if length req \<noteq> 36 then Some None
      else if snd (request_range req) = - 1 then None
      else let (a, b) = request_range req; payload = frames_between session a b
           in Some (Some (gap_response_frame 0 now a b (of_nat (length payload)), payload)))"
proof (cases "length req = 36 \<and> snd (request_range req) = - 1")
  case True
  let ?a = "get_be64 (wq_start_seq (bytes_WireGapRequest req))"
  have "range_loop session (- 1) ?a [] = None"
    using range_loop_returns [of session "- 1" ?a "[]"] by (cases "range_loop session (- 1) ?a []") auto
  then show ?thesis using True by (simp add: serve_request_def request_range_def Let_def)
next
  case False
  then show ?thesis
    using range_loop_result [of "snd (request_range req)" session "fst (request_range req)" "[]", unfolded frames_between_at]
    by (auto simp: serve_request_def request_range_def Let_def)
qed

lemma serve_connection_events:
  "serve_connection session cfd now req =
     (if endless (Connection cfd now req) then None else Some (reply_events session (Connection cfd now req)))"
  by (simp add: serve_connection_def serve_request_cases Let_def split_beta)

lemma server_loop_events:
  "server_loop session turns =
     (if \<exists>t \<in> set turns. endless t then None else Some (concat (map (reply_events session) turns)))"
  by (induction session turns rule: server_loop.induct) (auto simp: serve_connection_events simp del: reply_events.simps(1) endless.simps(1))

lemma reply_events_balanced:
  "(\<And>c now req. t = Connection c now req \<Longrightarrow> c \<notin> set ds) \<Longrightarrow> open_after ds (reply_events session t) = Some ds"
  by (cases t) (auto simp: Let_def split_beta)

lemma open_after_concat:
  "(\<And>x. x \<in> set xs \<Longrightarrow> open_after ds (f x) = Some ds) \<Longrightarrow> open_after ds (concat (map f xs)) = Some ds"
  by (induction xs) (auto simp: open_after_append)

lemma recover_io_balanced:
  "set_option (rc_socket calls) \<inter> set ds = {} \<Longrightarrow> open_after ds (snd (recover_io calls req)) = Some ds"
  by (auto simp: recover_io_def split: option.splits)

lemma sent_events_balanced: "fd \<in> set ds \<Longrightarrow> open_after ds (map (Sent fd) fs) = Some ds"
  by (induction fs) auto

text \<open>Descriptors handed out while others are open are different from these.\<close>

definition fresh_turns :: "nat option \<Rightarrow> server_turn list \<Rightarrow> bool" where
  "fresh_turns fd turns \<longleftrightarrow> (\<forall>t \<in> set turns. case t of Connection c _ _ \<Rightarrow> fd \<noteq> Some c | _ \<Rightarrow> True)"

definition fresh_attempts :: "nat option \<Rightarrow> (recover_calls \<times> bytes) list \<Rightarrow> bool" where
  "fresh_attempts fd attempts \<longleftrightarrow> (\<forall>(calls, req) \<in> set attempts. fd \<noteq> None \<longrightarrow> rc_socket calls \<noteq> fd)"

lemma server_balanced:
  assumes "fresh_turns (lc_socket calls) turns" "run_recovery_server session calls turns = Some (code, es)"
  shows "open_after [] es = Some []"
proof (cases "lc_socket calls")
  case (Some fd)
  have "open_after [fd] (concat (map (reply_events session) turns)) = Some [fd]"
    using assms(1) Some by (intro open_after_concat reply_events_balanced) (auto simp: fresh_turns_def)
  then show ?thesis using assms(2) Some
    by (auto simp: run_recovery_server_def server_loop_events open_after_append split: if_splits)
qed (use assms in \<open>auto simp: run_recovery_server_def\<close>)

lemma handler_balanced:
  assumes "fresh_attempts udp attempts"
  shows "open_after [] (handler_events udp bind_ok attempts) = Some []"
proof (cases udp)
  case (Some fd)
  have "open_after [fd] (concat (map (\<lambda>(calls, req). snd (recover_io calls req)) attempts)) = Some [fd]"
    using assms Some by (intro open_after_concat) (auto simp: fresh_attempts_def intro!: recover_io_balanced)
  then show ?thesis using Some
    by (simp add: handler_events_def handler_open_def destroy_FeedHandler_def open_after_append)
qed (simp add: handler_events_def handler_open_def destroy_FeedHandler_def)

section \<open>Properties\<close>

text \<open>
  C29: The recovery server. When it cannot set up its socket it returns 1; otherwise it
  serves one connection per turn and returns 0, having sent on each connection with a
  complete request the response structure and exactly the frames of the session in the
  requested range, in order (numbers outside the session are left out), and nothing on the
  others. It does not return, and so neither does the simulator that joins it, exactly when
  one of the complete requests ends in the last 64-bit number.
\<close>

theorem server_answers_each:
  "run_recovery_server session calls turns =
     (case lc_socket calls of
        None \<Rightarrow> Some (1, [])
      | Some fd \<Rightarrow>
          if \<not> (lc_bind calls \<and> lc_listen calls) then Some (1, [Opened fd, Closed fd])
          else if \<exists>t \<in> set turns. endless t then None
          else Some (0, [Opened fd] @ concat (map (reply_events session) turns) @ [Closed fd])) \<and>
   (generate_session r cfg = Inr session \<longrightarrow> run_recovery_server session calls turns = None \<longrightarrow>
     FeedSimulator_run r cfg udp calls turns = Inr None)"
  by (auto simp: run_recovery_server_def server_loop_events FeedSimulator_run_def Let_def split: option.splits)

theorem server_answers_each_witness:
  "\<exists>session. generate_session low_rng small_config = Inr session \<and>
     FeedSimulator_run low_rng small_config (Some 3) \<lparr>lc_socket = Some 4, lc_bind = True, lc_listen = True\<rparr>
       [Connection 5 0 (gap_request_frame 0 0 1 (- 1))] = Inr None"
proof -
  obtain session where s: "generate_session low_rng small_config = Inr session" by (simp add: generate_session_def)
  have "endless (Connection 5 0 (gap_request_frame 0 0 1 (- 1)))" by (simp add: gap_request_fields request_range_def)
  then have "run_recovery_server session \<lparr>lc_socket = Some 4, lc_bind = True, lc_listen = True\<rparr>
       [Connection 5 0 (gap_request_frame 0 0 1 (- 1))] = None"
    by (subst server_answers_each [THEN conjunct1]) (simp del: endless.simps)
  then show ?thesis using server_answers_each s by blast
qed

text \<open>
  C31: No descriptor leaks. On every path, whatever the outcomes of the calls, a recovery
  attempt, the server, the sender and the whole life of a handler close every descriptor
  they open exactly once, and use none that is not open.
\<close>

theorem descriptors_balanced:
  assumes "set_option (rc_socket rcalls) \<inter> set ds = {}" "fresh_turns (lc_socket lcalls) turns" "fresh_attempts udp attempts"
  shows "open_after ds (snd (recover_io rcalls req)) = Some ds \<and>
    open_after [] (handler_events udp bind_ok attempts) = Some [] \<and>
    (case run_recovery_server session lcalls turns of None \<Rightarrow> True | Some (code, es) \<Rightarrow> open_after [] es = Some []) \<and>
    (case FeedSimulator_run r cfg udp lcalls turns of
       Inr (Some (code, sent, answers)) \<Rightarrow> open_after [] sent = Some [] \<and> open_after [] answers = Some []
     | _ \<Rightarrow> True)"
  using recover_io_balanced [OF assms(1)] handler_balanced [OF assms(3)] server_balanced [OF assms(2)]
  by (auto simp: FeedSimulator_run_def Let_def open_after_append sent_events_balanced split: option.splits prod.splits sum.splits)

theorem descriptors_balanced_witness:
  "open_after [] (handler_events (Some 3) True
     [(\<lparr>rc_socket = Some 4, rc_connect = True, rc_send = True, rc_header = [], rc_chunks = []\<rparr>, [1, 2])]) = Some [] \<and>
   (case run_recovery_server [[1]] \<lparr>lc_socket = Some 3, lc_bind = True, lc_listen = True\<rparr> [Connection 4 0 (gap_request_frame 0 0 1 1)] of
      None \<Rightarrow> True | Some (code, es) \<Rightarrow> open_after [] es = Some [])"
proof -
  let ?c = "\<lparr>rc_socket = Some 4, rc_connect = True, rc_send = True, rc_header = [], rc_chunks = []\<rparr>"
  let ?l = "\<lparr>lc_socket = Some 3, lc_bind = True, lc_listen = True\<rparr>"
  have "set_option (rc_socket ?c) \<inter> set [] = {}" "fresh_turns (lc_socket ?l) [Connection 4 0 (gap_request_frame 0 0 1 1)]"
    "fresh_attempts (Some 3) [(?c, [1, 2])]" by (simp_all add: fresh_turns_def fresh_attempts_def)
  from descriptors_balanced [OF this] show ?thesis by blast
qed

text \<open>
  A recovery attempt whose connection reaches the server, which TCP serves in order and cut
  into any chunks. A server that never finishes its answer is a short response.
\<close>

definition served_calls :: "(nat \<Rightarrow> bytes \<Rightarrow> bytes list) \<Rightarrow> (nat \<Rightarrow> u64) \<Rightarrow> bytes list \<Rightarrow> nat \<Rightarrow> nat \<Rightarrow> nat \<Rightarrow> bytes \<Rightarrow> recover_calls" where
  "served_calls split host_now_ns session fd cfd k req =
     (case serve_connection session cfd (host_now_ns k) req of
        None \<Rightarrow> \<lparr>rc_socket = Some fd, rc_connect = True, rc_send = True, rc_header = [], rc_chunks = []\<rparr>
      | Some es \<Rightarrow> \<lparr>rc_socket = Some fd, rc_connect = True, rc_send = True, rc_header = take 44 (written cfd es),
          rc_chunks = split k (drop 44 (written cfd es))\<rparr>)"

definition socket_net :: "(nat \<Rightarrow> bytes \<Rightarrow> bytes list) \<Rightarrow> (nat \<Rightarrow> u64) \<Rightarrow> bytes list \<Rightarrow> nat \<Rightarrow> nat \<Rightarrow> nat \<Rightarrow> bytes \<Rightarrow> recovery_io" where
  "socket_net split host_now_ns session fd cfd k req = fst (recover_io (served_calls split host_now_ns session fd cfd k req) req)"

lemma socket_net_simulator: "socket_net split host_now_ns session fd cfd = simulator_net split host_now_ns session"
proof (intro ext)
  fix k req
  have len: "length (gap_response_frame q ts a b n) = 44" for q ts a b n by (simp add: gap_response_frame_def)
  show "socket_net split host_now_ns session fd cfd k req = simulator_net split host_now_ns session k req"
    by (auto simp: socket_net_def served_calls_def serve_connection_def simulator_net_def serve_request_cases recover_io_def
        len Let_def split_beta split: if_splits)
qed

lemma session_part:
  assumes "m \<le> length session" "1 \<le> i" "i \<le> length session"
  shows "map (\<lambda>j. session ! (j - 1)) [m + 1..<max m i + 1] = drop m (take i session)"
  using assms by (cases "m \<le> i") (auto intro!: nth_equalityI simp: max_def simp del: upt_Suc)

text \<open>
  C30: One datagram, over sockets. The handler has applied the frames up to number \<open>m\<close> of a
  session and waits for the next one, with nothing buffered. Then frame \<open>i\<close> arrives. When
  it leaves a gap, the handler connects to the recovery server, which reads the request,
  looks up the range and answers on the same connection; TCP may cut the answer into any
  chunks. Afterwards exactly the frames \<open>m + 1\<close> to \<open>i\<close> have been applied to the book, in
  order, and the handler again waits for the next one with nothing buffered and no gap.
\<close>

theorem gap_closed_over_tcp:
  assumes "numbered_session session" "tcp_split split" "ev_net env = socket_net split host_now_ns session fd cfd"
    and "clean (m + 1) [] (fh_tracker h)" "m \<le> length session" "1 \<le> i" "i \<le> length session"
  shows "fh_book (process_datagram env (session ! (i - 1)) wire_ns h) =
      book_run (fh_book h) (map frame_payload (drop m (take i session))) \<and>
    clean (max m i + 1) [] (fh_tracker (process_datagram env (session ! (i - 1)) wire_ns h))"
proof -
  have n: "served split session = length session" using assms(1,2) by (simp add: served_def)
  have net: "ev_net env = simulator_net split host_now_ns session" using assms(3) by (simp only: socket_net_simulator)
  note p = sim.process_session_frame [OF net assms(4), of i False wire_ns, unfolded n, OF assms(6,7,5)]
  show ?thesis using p(1,2) unfolding session_part [OF assms(5-7)] by simp
qed

theorem gap_closed_over_tcp_witness:
  "\<exists>session. generate_session low_rng small_config = Inr session \<and>
     fh_book (process_datagram (quiet_env\<lparr>ev_net := socket_net (\<lambda>_ bs. if bs = [] then [] else [bs]) of_nat session 4 5\<rparr>) (session ! 2) 0
       (init_FeedHandler (\<lambda>_ _ _. Some ()) (\<lambda>_. True) init_HandlerConfig)) =
     book_run init_BookBuilder (map frame_payload session)"
proof -
  have c: "1 \<le> sc_symbols small_config" "sc_symbols small_config \<le> 32" "0 \<le> sc_messages small_config"
    "sc_messages small_config < 2 ^ 31" by simp_all
  from generate_session_ok [OF low_rng_in_range c] obtain ps where ps: "generate_session low_rng small_config = Inr (map payload_frame ps)"
    "length ps = nat (sc_messages small_config)"
    "\<forall>j < length ps. payload_wf (ps ! j) \<and> (\<exists>h. payload_header (ps ! j) = Some h \<and> hdr_seq h = of_nat (j + 1))" by blast
  define session where "session = map payload_frame ps"
  let ?split = "\<lambda>_ bs. if bs = [] then [] else [bs]"
  have l: "length session = 3" using ps(2) by (simp add: session_def)
  have "numbered_session session" unfolding numbered_session_def session_def
    using ps(2,3) payload_session_frame(1) by fastforce
  moreover have "tcp_split ?split" by (simp add: tcp_split_def)
  moreover have "clean (0 + 1) [] (fh_tracker (init_FeedHandler (\<lambda>_ _ _. Some ()) (\<lambda>_. True) init_HandlerConfig))"
    by (simp add: clean_def init_FeedHandler_def init_SequenceTracker_def init_SequenceStats_def init_Slot_def)
  ultimately show ?thesis
    using gap_closed_over_tcp [of session ?split "quiet_env\<lparr>ev_net := socket_net ?split of_nat session 4 5\<rparr>" of_nat 4 5 0
        "init_FeedHandler (\<lambda>_ _ _. Some ()) (\<lambda>_. True) init_HandlerConfig" 3 0] l ps(1)
    by (intro exI [of _ session]) (simp add: session_def init_FeedHandler_def)
qed

end
