(* ===== verification/Command_Line.thy ===== *)
theory Command_Line
  imports Sockets
begin

text \<open>
  The two programs as they are started (\<^verbatim>\<open>src/handler_main.cpp\<close>,
  \<^verbatim>\<open>src/simulator_main.cpp\<close>): the loop over \<^verbatim>\<open>argv\<close>, the conversions of option values, and
  the ways a command line ends before the program runs. \<^verbatim>\<open>std::stoi\<close> and \<^verbatim>\<open>std::stoull\<close> are
  modelled as the C library converts decimal text; \<^verbatim>\<open>std::stod\<close> is a parameter.
\<close>

section \<open>Conversions\<close>

datatype conv_error = Invalid_argument | Out_of_range

definition is_space :: "char \<Rightarrow> bool" where
  "is_space c \<longleftrightarrow> of_char c \<in> {9 :: nat, 10, 11, 12, 13, 32}"

definition is_digit :: "char \<Rightarrow> bool" where
  "is_digit c \<longleftrightarrow> 48 \<le> (of_char c :: nat) \<and> (of_char c :: nat) \<le> 57"

definition split_sign :: "string \<Rightarrow> bool \<times> string" where
  "split_sign s = (case s of
      [] \<Rightarrow> (False, [])
    | c # cs \<Rightarrow> if c = CHR ''-'' then (True, cs) else if c = CHR ''+'' then (False, cs) else (False, s))"

text \<open>Leading white space, an optional sign, and as many digits as follow; the rest is ignored.\<close>

definition read_number :: "string \<Rightarrow> conv_error + bool \<times> nat" where
  "read_number s =
     (let (neg, s) = split_sign (dropWhile is_space s);
          ds = takeWhile is_digit s
      in if ds = [] then Inl Invalid_argument else Inr (neg, undec ds))"

definition stoi :: "string \<Rightarrow> conv_error + int" where
  "stoi s = (case read_number s of
      Inl e \<Rightarrow> Inl e
    | Inr (neg, n) \<Rightarrow>
        let z = (if neg then - int n else int n) in
        if z < - (2 ^ 31) \<or> z \<ge> 2 ^ 31 then Inl Out_of_range else Inr z)"

text \<open>\<^verbatim>\<open>strtoull\<close> negates a number with a minus sign modulo \<open>2 ^ 64\<close>.\<close>

definition stoull :: "string \<Rightarrow> conv_error + u64" where
  "stoull s = (case read_number s of
      Inl e \<Rightarrow> Inl e
    | Inr (neg, n) \<Rightarrow>
        if n \<ge> 2 ^ 64 then Inl Out_of_range
        else Inr (if neg then - of_nat n else of_nat n))"

section \<open>The argument loop\<close>

text \<open>
  What an argument is: a switch, an option that takes the next argument as its value, or
  one on which the usage text is printed and the program ends.
\<close>

datatype 'c flag = Switch "'c \<Rightarrow> 'c" | Takes "string \<Rightarrow> 'c \<Rightarrow> conv_error + 'c" | Usage int

text \<open>How the loop ends: with a configuration, with an exit code, or with an exception.\<close>

datatype 'c outcome = Start 'c | Exit int | Throws conv_error

fun parse_args :: "(string \<Rightarrow> 'c flag) \<Rightarrow> 'c \<Rightarrow> string list \<Rightarrow> 'c outcome" where
  "parse_args flag cfg [] = Start cfg"
| "parse_args flag cfg (a # rest) =
     (case flag a of
        Switch f \<Rightarrow> parse_args flag (f cfg) rest
      | Takes f \<Rightarrow>
          (case rest of
             [] \<Rightarrow> Exit 2
           | v # rest' \<Rightarrow>
               (case f v cfg of Inl e \<Rightarrow> Throws e | Inr cfg' \<Rightarrow> parse_args flag cfg' rest'))
      | Usage n \<Rightarrow> Exit n)"

definition with_text :: "(string \<Rightarrow> 'c \<Rightarrow> 'c) \<Rightarrow> 'c flag" where
  "with_text f = Takes (\<lambda>v c. Inr (f v c))"

definition with_int :: "(int \<Rightarrow> 'c \<Rightarrow> 'c) \<Rightarrow> 'c flag" where
  "with_int f = Takes (\<lambda>v c. map_sum id (\<lambda>z. f z c) (stoi v))"

definition handler_flag :: "string \<Rightarrow> HandlerConfig flag" where
  "handler_flag a =
     (if a = ''--host'' then with_text (\<lambda>v c. c\<lparr>hc_udp_host := v\<rparr>)
      else if a = ''--port'' then with_int (\<lambda>z c. c\<lparr>hc_udp_port := of_int z\<rparr>)
      else if a = ''--recovery-port'' then with_int (\<lambda>z c. c\<lparr>hc_recovery_port := of_int z\<rparr>)
      else if a = ''--seconds'' then with_int (\<lambda>z c. c\<lparr>hc_run_seconds := z\<rparr>)
      else if a = ''--bbo'' then with_text (\<lambda>v c. c\<lparr>hc_bbo_path := v\<rparr>)
      else if a = ''--tape'' then with_text (\<lambda>v c. c\<lparr>hc_tape_path := v\<rparr>)
      else if a = ''--bars'' then with_text (\<lambda>v c. c\<lparr>hc_bars_path := v\<rparr>)
      else if a = ''--stats'' then Switch (\<lambda>c. c\<lparr>hc_print_stats := True\<rparr>)
      else if a = ''--help'' then Usage 0
      else Usage 2)"

text \<open>\<^verbatim>\<open>main\<close> up to the construction of the handler.\<close>

definition handler_main :: "string list \<Rightarrow> HandlerConfig outcome" where
  "handler_main args =
     (case parse_args handler_flag init_HandlerConfig args of
        Start cfg \<Rightarrow> Start (if hc_run_seconds cfg \<le> 0 then cfg\<lparr>hc_run_seconds := 5\<rparr> else cfg)
      | r \<Rightarrow> r)"

definition simulator_flag :: "(string \<Rightarrow> conv_error + real) \<Rightarrow> string \<Rightarrow> SimulatorConfig flag" where
  "simulator_flag stod a =
     (if a = ''--host'' then with_text (\<lambda>v c. c\<lparr>sc_udp_host := v\<rparr>)
      else if a = ''--port'' then with_int (\<lambda>z c. c\<lparr>sc_udp_port := of_int z\<rparr>)
      else if a = ''--recovery-port'' then with_int (\<lambda>z c. c\<lparr>sc_recovery_port := of_int z\<rparr>)
      else if a = ''--messages'' then with_int (\<lambda>z c. c\<lparr>sc_messages := z\<rparr>)
      else if a = ''--rate'' then with_int (\<lambda>z c. c\<lparr>sc_rate_per_sec := z\<rparr>)
      else if a = ''--loss'' then Takes (\<lambda>v c. map_sum id (\<lambda>x. c\<lparr>sc_loss_rate := x\<rparr>) (stod v))
      else if a = ''--reorder'' then Takes (\<lambda>v c. map_sum id (\<lambda>x. c\<lparr>sc_reorder_rate := x\<rparr>) (stod v))
      else if a = ''--seed'' then Takes (\<lambda>v c. map_sum id (\<lambda>x. c\<lparr>sc_seed := x\<rparr>) (stoull v))
      else if a = ''--symbols'' then with_int (\<lambda>z c. c\<lparr>sc_symbols := z\<rparr>)
      else if a = ''--quiet'' then Switch (\<lambda>c. c\<lparr>sc_quiet := True\<rparr>)
      else if a = ''--help'' then Usage 0
      else Usage 2)"

definition simulator_main :: "(string \<Rightarrow> conv_error + real) \<Rightarrow> string list \<Rightarrow> SimulatorConfig outcome" where
  "simulator_main stod args = parse_args (simulator_flag stod) init_SimulatorConfig args"

section \<open>Reading back what was written\<close>

lemma of_char_digits: "n < 10 \<Longrightarrow> is_digit (digit n)" "n < 10 \<Longrightarrow> \<not> is_space (digit n)"
  by (simp_all add: is_digit_def is_space_def of_char_digit)

lemma dec_digits: "c \<in> set (dec n) \<Longrightarrow> is_digit c \<and> \<not> is_space c \<and> c \<noteq> CHR ''-'' \<and> c \<noteq> CHR ''+''"
  using dec_chars [of c n] of_char_digits digit_not_char by auto

lemma dec_scan [simp]:
  "takeWhile is_digit (dec n) = dec n" "dropWhile is_space (dec n) = dec n" "split_sign (dec n) = (False, dec n)"
proof -
  obtain c cs where c: "dec n = c # cs" by (metis dec_not_Nil neq_Nil_conv)
  show "takeWhile is_digit (dec n) = dec n" using dec_digits by (simp add: takeWhile_eq_all_conv)
  show "dropWhile is_space (dec n) = dec n" "split_sign (dec n) = (False, dec n)"
    using dec_digits [of c n] c by (simp_all add: split_sign_def)
qed

lemma read_number_dec: "read_number (dec n) = Inr (False, n)" "read_number (CHR ''-'' # dec n) = Inr (True, n)"
proof -
  have "\<not> is_space CHR ''-''" by (simp add: is_space_def)
  moreover have "split_sign (CHR ''-'' # dec n) = (True, dec n)" by (simp add: split_sign_def)
  ultimately show "read_number (dec n) = Inr (False, n)" "read_number (CHR ''-'' # dec n) = Inr (True, n)"
    by (simp_all add: read_number_def undec_dec)
qed

lemma stoi_dec_int: "- (2 ^ 31) \<le> z \<Longrightarrow> z < 2 ^ 31 \<Longrightarrow> stoi (dec_int z) = Inr z"
  by (cases "z < 0") (simp_all add: stoi_def dec_int_def read_number_dec)

lemma stoull_dec: "stoull (dec (unat w)) = Inr w"
proof -
  have "unat w < 2 ^ 64" using unsigned_less [of w] by simp
  then show ?thesis by (simp add: stoull_def read_number_dec)
qed

lemma stoi_port: "stoi (dec (unat (p :: u16))) = Inr (int (unat p))"
proof -
  have "uint p < 2 ^ 16" using unsigned_less [where 'a = int, of p] by simp
  moreover have "unat p < 2 ^ 16" using unsigned_less [where 'a = nat, of p] by simp
  ultimately show ?thesis by (simp add: stoi_def read_number_dec)
qed

text \<open>The command line that asks for a configuration.\<close>

definition handler_args :: "HandlerConfig \<Rightarrow> string list" where
  "handler_args c = [''--host'', hc_udp_host c, ''--port'', dec (unat (hc_udp_port c)),
     ''--recovery-port'', dec (unat (hc_recovery_port c)), ''--seconds'', dec_int (hc_run_seconds c),
     ''--bbo'', hc_bbo_path c, ''--tape'', hc_tape_path c, ''--bars'', hc_bars_path c] @
     (if hc_print_stats c then [''--stats''] else [])"

definition simulator_args :: "(real \<Rightarrow> string) \<Rightarrow> SimulatorConfig \<Rightarrow> string list" where
  "simulator_args show_double c = [''--host'', sc_udp_host c, ''--port'', dec (unat (sc_udp_port c)),
     ''--recovery-port'', dec (unat (sc_recovery_port c)), ''--messages'', dec_int (sc_messages c),
     ''--rate'', dec_int (sc_rate_per_sec c), ''--loss'', show_double (sc_loss_rate c),
     ''--reorder'', show_double (sc_reorder_rate c), ''--seed'', dec (unat (sc_seed c)),
     ''--symbols'', dec_int (sc_symbols c)] @ (if sc_quiet c then [''--quiet''] else [])"

definition is_int32 :: "int \<Rightarrow> bool" where
  "is_int32 z \<longleftrightarrow> - (2 ^ 31) \<le> z \<and> z < 2 ^ 31"

lemma handler_flag_simps [simp]:
  "handler_flag ''--host'' = with_text (\<lambda>v c. c\<lparr>hc_udp_host := v\<rparr>)"
  "handler_flag ''--port'' = with_int (\<lambda>z c. c\<lparr>hc_udp_port := of_int z\<rparr>)"
  "handler_flag ''--recovery-port'' = with_int (\<lambda>z c. c\<lparr>hc_recovery_port := of_int z\<rparr>)"
  "handler_flag ''--seconds'' = with_int (\<lambda>z c. c\<lparr>hc_run_seconds := z\<rparr>)"
  "handler_flag ''--bbo'' = with_text (\<lambda>v c. c\<lparr>hc_bbo_path := v\<rparr>)"
  "handler_flag ''--tape'' = with_text (\<lambda>v c. c\<lparr>hc_tape_path := v\<rparr>)"
  "handler_flag ''--bars'' = with_text (\<lambda>v c. c\<lparr>hc_bars_path := v\<rparr>)"
  "handler_flag ''--stats'' = Switch (\<lambda>c. c\<lparr>hc_print_stats := True\<rparr>)"
  "handler_flag ''--help'' = Usage 0"
  by (simp_all add: handler_flag_def)

lemma simulator_flag_simps [simp]:
  "simulator_flag stod ''--host'' = with_text (\<lambda>v c. c\<lparr>sc_udp_host := v\<rparr>)"
  "simulator_flag stod ''--port'' = with_int (\<lambda>z c. c\<lparr>sc_udp_port := of_int z\<rparr>)"
  "simulator_flag stod ''--recovery-port'' = with_int (\<lambda>z c. c\<lparr>sc_recovery_port := of_int z\<rparr>)"
  "simulator_flag stod ''--messages'' = with_int (\<lambda>z c. c\<lparr>sc_messages := z\<rparr>)"
  "simulator_flag stod ''--rate'' = with_int (\<lambda>z c. c\<lparr>sc_rate_per_sec := z\<rparr>)"
  "simulator_flag stod ''--loss'' = Takes (\<lambda>v c. map_sum id (\<lambda>x. c\<lparr>sc_loss_rate := x\<rparr>) (stod v))"
  "simulator_flag stod ''--reorder'' = Takes (\<lambda>v c. map_sum id (\<lambda>x. c\<lparr>sc_reorder_rate := x\<rparr>) (stod v))"
  "simulator_flag stod ''--seed'' = Takes (\<lambda>v c. map_sum id (\<lambda>x. c\<lparr>sc_seed := x\<rparr>) (stoull v))"
  "simulator_flag stod ''--symbols'' = with_int (\<lambda>z c. c\<lparr>sc_symbols := z\<rparr>)"
  "simulator_flag stod ''--quiet'' = Switch (\<lambda>c. c\<lparr>sc_quiet := True\<rparr>)"
  "simulator_flag stod ''--help'' = Usage 0"
  by (simp_all add: simulator_flag_def)

lemma parse_args_append:
  "parse_args flag c args = Start c' \<Longrightarrow> parse_args flag c (args @ rest) = parse_args flag c' rest"
proof (induction flag c args rule: parse_args.induct)
  case (2 flag cfg a args)
  show ?case
  proof (cases "flag a")
    case (Takes f)
    then obtain v args' where v: "args = v # args'" using "2.prems" by (cases args) auto
    then obtain d where "f v cfg = Inr d" using "2.prems" Takes by (cases "f v cfg") auto
    then show ?thesis using "2.IH"(2) [OF Takes v] "2.prems" Takes v by simp
  qed (use 2 in auto)
qed simp

section \<open>Properties\<close>

text \<open>
  C37: Every handler configuration with a positive run time can be asked for on the command
  line: parsing the options that spell it out gives it back, whatever the host and file
  names are, with the bar parameters and the recovery host at their defaults, which no
  option sets. Without a positive \<^verbatim>\<open>--seconds\<close> the run time is 5 seconds.
\<close>

theorem handler_args_roundtrip:
  assumes "is_int32 (hc_run_seconds c)"
  shows "handler_main (handler_args c) = Start (c\<lparr>
      hc_recovery_host := ''127.0.0.1'', hc_time_bar_ns := 1000000000, hc_volume_bar_qty := 1000,
      hc_run_seconds := (if hc_run_seconds c \<le> 0 then 5 else hc_run_seconds c)\<rparr>)"
proof -
  have z: "stoi (dec_int (hc_run_seconds c)) = Inr (hc_run_seconds c)"
    using assms by (intro stoi_dec_int) (simp_all add: is_int32_def)
  have "parse_args handler_flag init_HandlerConfig (handler_args c) = Start (c\<lparr>
      hc_recovery_host := ''127.0.0.1'', hc_time_bar_ns := 1000000000, hc_volume_bar_qty := 1000\<rparr>)"
    by (cases c) (use z in \<open>simp add: handler_args_def with_text_def with_int_def stoi_port init_HandlerConfig_def\<close>)
  then show ?thesis by (simp add: handler_main_def)
qed

theorem handler_args_roundtrip_witness:
  "handler_main (handler_args (init_HandlerConfig\<lparr>hc_udp_port := 65535, hc_run_seconds := 30, hc_bbo_path := ''--tape''\<rparr>)) =
     Start (init_HandlerConfig\<lparr>hc_udp_port := 65535, hc_run_seconds := 30, hc_bbo_path := ''--tape''\<rparr>)"
proof -
  let ?c = "init_HandlerConfig\<lparr>hc_udp_port := 65535, hc_run_seconds := 30, hc_bbo_path := ''--tape''\<rparr>"
  have "is_int32 (hc_run_seconds ?c)" by (simp add: is_int32_def)
  from handler_args_roundtrip [OF this] show ?thesis by (simp add: init_HandlerConfig_def)
qed

text \<open>
  Every simulator configuration can be asked for on the command line, provided the
  texts of its two rates convert back to them: parsing the options that spell it out gives
  it back.
\<close>

theorem simulator_args_roundtrip:
  assumes "is_int32 (sc_messages c)" "is_int32 (sc_rate_per_sec c)" "is_int32 (sc_symbols c)"
    and "stod (show_double (sc_loss_rate c)) = Inr (sc_loss_rate c)"
    and "stod (show_double (sc_reorder_rate c)) = Inr (sc_reorder_rate c)"
  shows "simulator_main stod (simulator_args show_double c) = Start c"
proof -
  have "stoi (dec_int z) = Inr z" if "is_int32 z" for z
    using that by (intro stoi_dec_int) (simp_all add: is_int32_def)
  note z = this [OF assms(1)] this [OF assms(2)] this [OF assms(3)]
  show ?thesis
    by (cases c) (use z assms(4,5) in \<open>simp add: simulator_main_def simulator_args_def with_text_def with_int_def
      stoi_port stoull_dec init_SimulatorConfig_def\<close>)
qed

theorem simulator_args_roundtrip_witness:
  "simulator_main (\<lambda>s. Inr (if s = ''half'' then 1 / 2 else 0)) (simulator_args (\<lambda>x. if x = 0 then ''none'' else ''half'')
     (init_SimulatorConfig\<lparr>sc_loss_rate := 1 / 2, sc_seed := - 1, sc_messages := - 7\<rparr>)) =
   Start (init_SimulatorConfig\<lparr>sc_loss_rate := 1 / 2, sc_seed := - 1, sc_messages := - 7\<rparr>)"
  by (rule simulator_args_roundtrip) (simp_all add: is_int32_def init_SimulatorConfig_def)

text \<open>The options of the handler that take a value.\<close>

definition value_options :: "string list" where
  "value_options = [''--host'', ''--port'', ''--recovery-port'', ''--seconds'', ''--bbo'', ''--tape'', ''--bars'']"

text \<open>
  C38: The first argument that is not understood decides. After arguments that are accepted,
  whatever follows: an argument that is none of the options ends the program with exit code
  2, \<^verbatim>\<open>--help\<close> with exit code 0, and a value of \<^verbatim>\<open>--port\<close>, \<^verbatim>\<open>--recovery-port\<close> or
  \<^verbatim>\<open>--seconds\<close> that has no digits or does not fit an \<^verbatim>\<open>int\<close> throws the exception of
  \<^verbatim>\<open>std::stoi\<close>. An option that takes a value, without one at the end, gives exit code 2.
\<close>

theorem first_bad_argument_decides:
  assumes "parse_args handler_flag init_HandlerConfig args = Start c"
  shows "handler_main (args @ ''--help'' # rest) = Exit 0 \<and>
    (a \<notin> set (value_options @ [''--stats'', ''--help'']) \<longrightarrow> handler_main (args @ a # rest) = Exit 2) \<and>
    (\<forall>opt \<in> set value_options. handler_main (args @ [opt]) = Exit 2) \<and>
    (\<forall>opt \<in> {''--port'', ''--recovery-port'', ''--seconds''}. stoi v = Inl e \<longrightarrow>
      handler_main (args @ opt # v # rest) = Throws e)"
proof (intro conjI impI ballI)
  have m: "handler_main (args @ more) = (case parse_args handler_flag c more of
      Start cfg \<Rightarrow> Start (if hc_run_seconds cfg \<le> 0 then cfg\<lparr>hc_run_seconds := 5\<rparr> else cfg) | r \<Rightarrow> r)" for more
    using parse_args_append [OF assms] by (simp add: handler_main_def)
  show "handler_main (args @ ''--help'' # rest) = Exit 0" by (simp add: m)
  assume "a \<notin> set (value_options @ [''--stats'', ''--help''])"
  then have "handler_flag a = Usage 2" by (simp add: handler_flag_def value_options_def)
  then show "handler_main (args @ a # rest) = Exit 2" by (simp add: m)
next
  fix opt assume "opt \<in> set value_options"
  then have "\<exists>f. handler_flag opt = Takes f" by (auto simp: value_options_def with_text_def with_int_def)
  then show "handler_main (args @ [opt]) = Exit 2"
    using parse_args_append [OF assms, of "[opt]"] by (auto simp: handler_main_def)
next
  fix opt assume "opt \<in> {''--port'', ''--recovery-port'', ''--seconds''}" "stoi v = Inl e"
  then show "handler_main (args @ opt # v # rest) = Throws e"
    using parse_args_append [OF assms, of "opt # v # rest"] by (auto simp: handler_main_def with_int_def)
qed

theorem first_bad_argument_decides_witness:
  "handler_main [''--stats'', ''--help'', ''x''] = Exit 0 \<and> handler_main [''--stats'', ''-x'', ''--help''] = Exit 2 \<and>
   handler_main [''--stats'', ''--bbo''] = Exit 2 \<and>
   handler_main [''--stats'', ''--recovery-port'', ''abc'', ''--help''] = Throws Invalid_argument"
proof -
  have a: "parse_args handler_flag init_HandlerConfig [''--stats''] = Start (init_HandlerConfig\<lparr>hc_print_stats := True\<rparr>)"
    by simp
  have s: "stoi ''abc'' = Inl Invalid_argument"
    by (simp add: stoi_def read_number_def split_sign_def is_digit_def is_space_def)
  have "''-x'' \<notin> set (value_options @ [''--stats'', ''--help''])" "''--bbo'' \<in> set value_options"
    by (simp_all add: value_options_def)
  then show ?thesis using s first_bad_argument_decides [OF a, of "[''x'']" "''-x''"]
    first_bad_argument_decides [OF a, of "[''--help'']" "''-x''" "''abc''" Invalid_argument] by simp
qed

text \<open>
  Port numbers are reduced modulo 65536 without a message: asking for port 70000 starts
  the handler on port 4464.
\<close>

theorem port_wraps:
  "handler_main [''--port'', ''70000''] = Start (init_HandlerConfig\<lparr>hc_udp_port := 4464, hc_run_seconds := 5\<rparr>)"
proof -
  have "stoi ''70000'' = Inr 70000"
    by (simp add: stoi_def read_number_def split_sign_def is_digit_def is_space_def undec_def)
  then show ?thesis by (simp add: handler_main_def with_int_def init_HandlerConfig_def)
qed

text \<open>
  A negative number of messages is accepted on the command line, and the simulator then
  ends with \<^verbatim>\<open>std::length_error\<close> before it sends anything.
\<close>

theorem negative_messages_throw:
  "\<exists>cfg. simulator_main stod [''--messages'', ''-1''] = Start cfg \<and> FeedSimulator_run r cfg udp calls turns = Inl Length_error"
proof -
  have "stoi ''-1'' = Inr (- 1)"
    by (simp add: stoi_def read_number_def split_sign_def is_digit_def is_space_def undec_def)
  then have "simulator_main stod [''--messages'', ''-1''] = Start (init_SimulatorConfig\<lparr>sc_messages := - 1\<rparr>)"
    by (simp add: simulator_main_def with_int_def)
  then show ?thesis by (simp add: FeedSimulator_run_def generate_session_def)
qed

end
