(* ===== verification/Timing.thy ===== *)
theory Timing
  imports Command_Line
begin

text \<open>
  Time in the two programs: the deadline of the receive loop of \<^verbatim>\<open>FeedHandler::run\<close>, and the
  pacing of the sender of \<^verbatim>\<open>FeedSimulator::run\<close>.

  A point of \<^verbatim>\<open>std::chrono::steady_clock\<close> is its number of nanoseconds, a signed number of 64
  bits. The calls of the loop and their outcomes are arguments, as the readings of the
  clock are. One of them may never return: the recovery connection of the handler has no
  timeout, and a server that accepts it and stays silent holds up the loop.
\<close>

section \<open>The receive loop\<close>

definition time_point_max :: u64 where "time_point_max = 2 ^ 63 - 1"

definition run_deadline :: "HandlerConfig \<Rightarrow> u64 \<Rightarrow> u64" where
  "run_deadline cfg now =
     (if hc_run_seconds cfg > 0 then now + of_int (hc_run_seconds cfg) * 1000000000 else time_point_max)"

text \<open>
  One turn: the value of \<^verbatim>\<open>stop_\<close>, the reading of the clock, the result of \<^verbatim>\<open>select\<close>, the
  datagram if \<^verbatim>\<open>recvfrom\<close> does not fail, and whether the server, should this turn ask it for
  a recovery, leaves \<^verbatim>\<open>recv\<close> waiting for ever.
\<close>

record loop_turn =
  lt_stop :: bool
  lt_now :: u64
  lt_select :: int
  lt_recv :: "bytes option"
  lt_silent :: bool

definition poll :: "loop_turn \<Rightarrow> bytes option" where
  "poll t = (if lt_select t \<le> 0 then None else lt_recv t)"

text \<open>Whether \<^verbatim>\<open>process_datagram\<close> comes to \<^verbatim>\<open>try_recover\<close>.\<close>

definition recovers :: "'h FeedHandler \<Rightarrow> bytes option \<Rightarrow> bool" where
  "recovers h dgram =
     (case dgram of
        None \<Rightarrow> False
      | Some bs \<Rightarrow>
          let buf = take 2048 bs; parsed = parse_message buf
          in buf \<noteq> [] \<and> pm_status parsed = Ok \<and>
             gap_pending (snd (push (fh_tracker h) (take (pm_consumed parsed) buf))))"

text \<open>\<^term>\<open>None\<close>: the loop has not ended with these turns, because it goes on or is held up.\<close>

fun receive_loop :: "'h env \<Rightarrow> u64 \<Rightarrow> loop_turn list \<Rightarrow> 'h FeedHandler \<Rightarrow> 'h FeedHandler option" where
  "receive_loop env deadline [] h = None"
| "receive_loop env deadline (t # ts) h =
     (if \<not> lt_stop t \<and> sint (lt_now t) < sint deadline then
        if lt_silent t \<and> recovers h (poll t) then None
        else receive_loop env deadline ts (run_turn env h (poll t))
      else Some h)"

text \<open>
  \<^verbatim>\<open>run\<close> with its loop; \<open>bound\<close> says whether \<^verbatim>\<open>socket\<close> and \<^verbatim>\<open>bind\<close> succeed, \<open>now\<close> is the clock
  when the deadline is computed.
\<close>

definition loop_start :: "'h env \<Rightarrow> 'h FeedHandler \<Rightarrow> 'h FeedHandler" where
  "loop_start env h = (let (t0, h) = now_ns env h in h\<lparr>fh_stats := (fh_stats h)\<lparr>ps_start_ns := t0\<rparr>\<rparr>)"

definition run_until :: "'h env \<Rightarrow> HandlerConfig \<Rightarrow> bool \<Rightarrow> u64 \<Rightarrow> loop_turn list \<Rightarrow> 'h FeedHandler \<Rightarrow>
    (int \<times> 'h FeedHandler) option" where
  "run_until env cfg bound now ts h =
     (if \<not> bound then Some (1, h)
      else
        case receive_loop env (run_deadline cfg now) ts (loop_start env h) of
          None \<Rightarrow> None
        | Some h \<Rightarrow>
            (case consumer_finish env (request_stop h) of
               None \<Rightarrow> None
             | Some h \<Rightarrow>
                 let (t1, h) = now_ns env h in
                 Some (0, h\<lparr>fh_stats := (fh_stats h)\<lparr>ps_end_ns := t1\<rparr>\<rparr>)))"

abbreviation goes_on :: "u64 \<Rightarrow> loop_turn \<Rightarrow> bool" where
  "goes_on deadline t \<equiv> \<not> lt_stop t \<and> sint (lt_now t) < sint deadline"

text \<open>Turn \<open>i\<close> is held up: after the turns before it, it comes to a recovery the server does not answer.\<close>

definition held_up :: "'h env \<Rightarrow> (nat \<Rightarrow> loop_turn) \<Rightarrow> 'h FeedHandler \<Rightarrow> nat \<Rightarrow> bool" where
  "held_up env ts h i \<longleftrightarrow> lt_silent (ts i) \<and> recovers (foldl (run_turn env) h (map (\<lambda>i. poll (ts i)) [0..<i])) (poll (ts i))"

lemma receive_loop_prefix:
  "\<forall>i < n. goes_on d (ts i) \<and> \<not> held_up env ts h i \<Longrightarrow>
   receive_loop env d (map ts [0..<n] @ us) h = receive_loop env d us (foldl (run_turn env) h (map (\<lambda>i. poll (ts i)) [0..<n]))"
proof (induction n arbitrary: us)
  case (Suc n)
  have "receive_loop env d (map ts [0..<Suc n] @ us) h = receive_loop env d (map ts [0..<n] @ ts n # us) h" by simp
  also have "\<dots> = receive_loop env d (ts n # us) (foldl (run_turn env) h (map (\<lambda>i. poll (ts i)) [0..<n]))"
    using Suc by simp
  finally show ?case using Suc.prems by (auto simp: held_up_def)
qed simp

lemma receive_loop_ends:
  assumes "\<forall>i < n. goes_on d (ts i)" "\<not> goes_on d (ts n)" "\<forall>i < n. \<not> held_up env ts h i"
  shows "receive_loop env d (map ts [0..<n + 1]) h = Some (foldl (run_turn env) h (map (\<lambda>i. poll (ts i)) [0..<n]))"
proof -
  have "\<forall>i < n. goes_on d (ts i) \<and> \<not> held_up env ts h i" using assms(1,3) by blast
  from receive_loop_prefix [OF this, of "[ts n]"] show ?thesis using assms(2) by auto
qed

lemma receive_loop_held_up:
  assumes "\<forall>i < n. goes_on d (ts i)" "i < n" "held_up env ts h i"
  shows "receive_loop env d (map ts [0..<k]) h = None"
proof -
  define j where "j = (LEAST i. held_up env ts h i)"
  have j: "held_up env ts h j" "\<forall>i < j. \<not> held_up env ts h i" "j \<le> i"
    using assms(3) unfolding j_def by (auto intro: LeastI Least_le dest: not_less_Least)
  have free: "\<forall>i < m. goes_on d (ts i) \<and> \<not> held_up env ts h i" if "m \<le> j" for m
    using that j(2,3) assms(1,2) by simp
  show ?thesis
  proof (cases "k \<le> j")
    case True
    then show ?thesis using receive_loop_prefix [OF free, of k "[]"] by simp
  next
    case False
    then obtain m where "k = j + Suc m" by (metis less_imp_Suc_add linorder_not_le add_Suc_right)
    then have "[0..<k] = [0..<j] @ j # [j + 1..<k]" using upt_add_eq_append [of 0 j "Suc m"] by (simp add: upt_conv_Cons del: upt_Suc)
    then have "receive_loop env d (map ts [0..<k]) h = receive_loop env d (map ts [0..<j] @ ts j # map ts [j + 1..<k]) h" by simp
    also have "\<dots> = None"
      using receive_loop_prefix [OF free [OF order_refl], of "ts j # map ts [j + 1..<k]"] j(1,3) assms(1,2) by (simp add: held_up_def)
    finally show ?thesis .
  qed
qed

text \<open>The turns up to the first one that ends the loop are those of \<open>run\<close>.\<close>

lemma run_until_first:
  assumes "\<forall>i < n. goes_on (run_deadline cfg now) (ts i)" "\<not> goes_on (run_deadline cfg now) (ts n)"
    "\<forall>i < n. \<not> held_up env ts (loop_start env h) i"
  shows "run_until env cfg True now (map ts [0..<n + 1]) h = run env True (map (\<lambda>i. poll (ts i)) [0..<n]) h"
  using receive_loop_ends [OF assms]
  by (simp add: run_until_def run_def loop_start_def now_ns_def Let_def cong: option.case_cong del: upt_Suc)

section \<open>What the command line can ask for\<close>

lemma stoi_range: "stoi v = Inr z \<Longrightarrow> is_int32 z"
  by (auto simp: stoi_def is_int32_def Let_def split: sum.splits prod.splits if_splits)

definition sane :: "HandlerConfig \<Rightarrow> bool" where
  "sane c \<longleftrightarrow> is_int32 (hc_run_seconds c) \<and> hc_volume_bar_qty c = 1000"

definition keeps :: "('c \<Rightarrow> bool) \<Rightarrow> 'c flag \<Rightarrow> bool" where
  "keeps P flag \<longleftrightarrow> (case flag of
     Switch f \<Rightarrow> \<forall>c. P c \<longrightarrow> P (f c) | Takes f \<Rightarrow> \<forall>v c c'. P c \<and> f v c = Inr c' \<longrightarrow> P c' | Usage n \<Rightarrow> True)"

lemma parse_args_keeps:
  "parse_args flag c args = Start c' \<Longrightarrow> P c \<Longrightarrow> (\<And>a. keeps P (flag a)) \<Longrightarrow> P c'"
proof (induction flag c args rule: parse_args.induct)
  case (2 flag cfg a rest)
  have k: "keeps P (flag a)" by (rule "2.prems"(3))
  show ?case
  proof (cases "flag a")
    case (Switch f)
    then show ?thesis using "2.IH"(1) [OF Switch] "2.prems" k by (simp add: keeps_def)
  next
    case (Takes f)
    show ?thesis
    proof (cases rest)
      case (Cons v rest')
      then obtain cfg' where c: "f v cfg = Inr cfg'" "parse_args flag cfg' rest' = Start c'"
        using "2.prems"(1) Takes by (auto split: sum.splits)
      have "P cfg'" using k Takes c(1) "2.prems"(2) by (auto simp: keeps_def)
      then show ?thesis using "2.IH"(2) [OF Takes Cons c(1,2)] "2.prems"(3) by blast
    qed (use "2.prems"(1) Takes in simp)
  qed (use "2.prems"(1) in simp)
qed simp

lemma keeps_with_int: "(\<And>z c. is_int32 z \<Longrightarrow> P c \<Longrightarrow> P (f z c)) \<Longrightarrow> keeps P (with_int f)"
  using stoi_range by (fastforce simp: keeps_def with_int_def map_sum_def split: sum.splits)

lemma keeps_with_text: "(\<And>v c. P c \<Longrightarrow> P (f v c)) \<Longrightarrow> keeps P (with_text f)"
  by (auto simp: keeps_def with_text_def)

lemma keeps_simps [simp]: "keeps P (Switch f) \<longleftrightarrow> (\<forall>c. P c \<longrightarrow> P (f c))" "keeps P (Usage n)"
  by (simp_all add: keeps_def)

lemma keeps_if: "keeps P x \<Longrightarrow> keeps P y \<Longrightarrow> keeps P (if b then x else y)"
  by simp

lemma handler_flag_sane: "keeps sane (handler_flag a)"
  unfolding handler_flag_def by (intro keeps_if keeps_with_int keeps_with_text) (simp_all add: sane_def)

lemma handler_main_sane:
  assumes "handler_main args = Start cfg"
  shows "0 < hc_run_seconds cfg" "hc_run_seconds cfg < 2 ^ 31" "hc_volume_bar_qty cfg \<noteq> 0"
proof -
  from assms obtain c where c: "parse_args handler_flag init_HandlerConfig args = Start c"
    "cfg = (if hc_run_seconds c \<le> 0 then c\<lparr>hc_run_seconds := 5\<rparr> else c)"
    by (auto simp: handler_main_def split: outcome.splits)
  have "sane init_HandlerConfig" by (simp add: sane_def init_HandlerConfig_def is_int32_def)
  from parse_args_keeps [OF c(1) this handler_flag_sane] have "sane c" .
  then show "0 < hc_run_seconds cfg" "hc_run_seconds cfg < 2 ^ 31" "hc_volume_bar_qty cfg \<noteq> 0"
    unfolding c(2) by (auto simp: sane_def is_int32_def)
qed

lemma run_deadline_sint:
  assumes "0 < hc_run_seconds cfg" "hc_run_seconds cfg < 2 ^ 31" "0 \<le> sint now" "sint now < 2 ^ 62"
  shows "sint (run_deadline cfg now) = sint now + hc_run_seconds cfg * 1000000000"
proof -
  have "run_deadline cfg now = of_int (sint now + hc_run_seconds cfg * 1000000000)"
    using assms(1) by (simp add: run_deadline_def)
  also have "sint (of_int (sint now + hc_run_seconds cfg * 1000000000) :: u64) = sint now + hc_run_seconds cfg * 1000000000"
    using assms by (subst signed_of_int) (simp add: signed_take_bit_int_eq_self)
  finally show ?thesis .
qed

text \<open>
  C8: When the handler program ends, whatever command line starts it. If \<^verbatim>\<open>socket\<close> or \<^verbatim>\<open>bind\<close>
  fails, \<^verbatim>\<open>run\<close> returns 1. Otherwise its deadline is the configured number of seconds, at
  least one, after the start, without overflow of the clock; and once a turn sees a stop
  request or a clock at the deadline, \<^verbatim>\<open>run\<close> returns 0 at the first such turn, having handled
  the datagrams of the turns before. There is one exception: when one of these turns asks
  for a recovery and the server accepts the connection and stays silent, \<^verbatim>\<open>run\<close> never returns,
  whatever the deadline.
\<close>

theorem handler_program_ends:
  fixes ts :: "nat \<Rightarrow> loop_turn"
  assumes start: "handler_main args = Start cfg"
    and clock: "0 \<le> sint now" "sint now < 2 ^ 62"
    and ends: "\<exists>i. lt_stop (ts i) \<or> sint (run_deadline cfg now) \<le> sint (lt_now (ts i))"
  shows "0 < hc_run_seconds cfg \<and> sint (run_deadline cfg now) = sint now + hc_run_seconds cfg * 1000000000 \<and>
    run_until env cfg False now us (init_FeedHandler hdr_init opened cfg) = Some (1, init_FeedHandler hdr_init opened cfg) \<and>
    (\<exists>n. (\<forall>i < n. \<not> lt_stop (ts i) \<and> sint (lt_now (ts i)) < sint (run_deadline cfg now)) \<and>
      (lt_stop (ts n) \<or> sint (run_deadline cfg now) \<le> sint (lt_now (ts n))) \<and>
      (if \<exists>i < n. held_up env ts (loop_start env (init_FeedHandler hdr_init opened cfg)) i
       then \<forall>k. run_until env cfg True now (map ts [0..<k]) (init_FeedHandler hdr_init opened cfg) = None
       else \<exists>h'. run_until env cfg True now (map ts [0..<n + 1]) (init_FeedHandler hdr_init opened cfg) = Some (0, h') \<and>
         run env True (map (\<lambda>i. poll (ts i)) [0..<n]) (init_FeedHandler hdr_init opened cfg) = Some (0, h')))"
proof -
  let ?d = "run_deadline cfg now" and ?h = "init_FeedHandler hdr_init opened cfg"
  note s = handler_main_sane [OF start]
  define n where "n = (LEAST i. \<not> goes_on ?d (ts i))"
  have "\<exists>i. \<not> goes_on ?d (ts i)" using ends by (meson not_less)
  then have n: "\<not> goes_on ?d (ts n)" "\<forall>i < n. goes_on ?d (ts i)"
    unfolding n_def by (metis (mono_tags, lifting) LeastI, metis (mono_tags, lifting) not_less_Least)
  have "\<forall>k. run_until env cfg True now (map ts [0..<k]) ?h = None" if "\<exists>i < n. held_up env ts (loop_start env ?h) i"
  proof -
    from that obtain i where "i < n" "held_up env ts (loop_start env ?h) i" by blast
    from receive_loop_held_up [OF n(2) this] show ?thesis by (simp add: run_until_def)
  qed
  moreover have "\<exists>h'. run_until env cfg True now (map ts [0..<n + 1]) ?h = Some (0, h') \<and>
      run env True (map (\<lambda>i. poll (ts i)) [0..<n]) ?h = Some (0, h')"
    if "\<not> (\<exists>i < n. held_up env ts (loop_start env ?h) i)"
  proof -
    obtain h' where "run env True (map (\<lambda>i. poll (ts i)) [0..<n]) ?h = Some (0, h')"
      using run_frames [OF s(3), of env] by blast
    moreover have "\<forall>i < n. \<not> held_up env ts (loop_start env ?h) i" using that by blast
    note run_until_first [OF n(2,1) this]
    ultimately show ?thesis by (intro exI [of _ h']) (simp del: upt_Suc)
  qed
  ultimately have "if \<exists>i < n. held_up env ts (loop_start env ?h) i
       then \<forall>k. run_until env cfg True now (map ts [0..<k]) ?h = None
       else \<exists>h'. run_until env cfg True now (map ts [0..<n + 1]) ?h = Some (0, h') \<and>
         run env True (map (\<lambda>i. poll (ts i)) [0..<n]) ?h = Some (0, h')" by presburger
  moreover have "lt_stop (ts n) \<or> sint ?d \<le> sint (lt_now (ts n))" using n(1) by auto
  moreover have "run_until env cfg False now us ?h = Some (1, ?h)" by (simp add: run_until_def)
  ultimately show ?thesis using s(1) run_deadline_sint [OF s(1,2) clock] n(2) by blast
qed

definition tick_turn :: "nat \<Rightarrow> loop_turn" where
  "tick_turn i = \<lparr>lt_stop = False, lt_now = of_nat (1000000000 * i), lt_select = 1,
     lt_recv = Some (trade_frame 1 10 5 0 Buy 100 7), lt_silent = False\<rparr>"

theorem handler_program_ends_witness:
  "\<exists>cfg h'. handler_main [''--seconds'', ''2''] = Start cfg \<and>
    run_until quiet_env cfg True 0 (map tick_turn [0..<2 + 1]) (init_FeedHandler (\<lambda>_ _ _. Some ()) (\<lambda>_. True) cfg) = Some (0, h')"
proof -
  define cfg where "cfg = init_HandlerConfig\<lparr>hc_run_seconds := 2\<rparr>"
  have "stoi ''2'' = Inr 2" by code_simp
  then have s: "handler_main [''--seconds'', ''2''] = Start cfg"
    by (simp add: handler_main_def handler_flag_def with_int_def cfg_def init_HandlerConfig_def)
  have d: "sint (run_deadline cfg 0) = 2000000000" by (simp add: run_deadline_def cfg_def)
  have now: "sint (lt_now (tick_turn 0)) = 0" "sint (lt_now (tick_turn 1)) = 1000000000" "sint (lt_now (tick_turn 2)) = 2000000000"
    by (simp_all add: tick_turn_def)
  have "\<exists>i. lt_stop (tick_turn i) \<or> sint (run_deadline cfg 0) \<le> sint (lt_now (tick_turn i))"
    using d now(3) by (intro exI [of _ 2]) simp
  from handler_program_ends [OF s _ _ this, of quiet_env "[]" "\<lambda>_ _ _. Some ()" "\<lambda>_. True"]
  obtain n where n: "\<forall>i < n. sint (lt_now (tick_turn i)) < 2000000000" "2000000000 \<le> sint (lt_now (tick_turn n))"
    "\<exists>h'. run_until quiet_env cfg True 0 (map tick_turn [0..<n + 1]) (init_FeedHandler (\<lambda>_ _ _. Some ()) (\<lambda>_. True) cfg) = Some (0, h')"
    unfolding d by (auto simp: held_up_def tick_turn_def)
  have "n = 2"
  proof (cases n "2 :: nat" rule: linorder_cases)
    case less
    then have "n = 0 \<or> n = 1" by auto
    then show ?thesis using n(2) now by auto
  qed (use n(1) now(3) in auto)
  then show ?thesis using s n(3) by blast
qed

text \<open>A first datagram with a later frame, and a server that stays silent.\<close>

lemma silent_server_holds_up:
  assumes "ts 0 = \<lparr>lt_stop = False, lt_now = 0, lt_select = 1, lt_recv = Some (trade_frame 3 10 5 0 Buy 100 7), lt_silent = True\<rparr>"
  shows "held_up env ts (loop_start env (init_FeedHandler hdr_init opened cfg)) 0"
proof -
  let ?f = "trade_frame 3 10 5 0 Buy 100 7" and ?h = "init_FeedHandler hdr_init opened cfg"
  have l: "legal_frame ?f 3" by (simp add: legal_frame_def)
  then have "gap_pending (snd (push init_SequenceTracker ?f))"
    using clean_push_ahead(1) [of 1 "[]" init_SequenceTracker _ 3]
    by (simp add: waiting_def gap_pending_def clean_def init_SequenceTracker_def init_SequenceStats_def init_Slot_def)
  moreover have "pm_status (parse_message ?f) = Ok" "pm_consumed (parse_message ?f) = length ?f" "length ?f = 44"
  proof -
    let ?m = "\<lparr>tr_hdr = \<lparr>hdr_type = MT_Trade, hdr_length = wire_length_for MT_Trade, hdr_seq = 3, hdr_ts_ns = 10\<rparr>,
      tr_trade_id = 5, tr_symbol_id = 0, tr_side = Buy, tr_price = 100, tr_qty = 7\<rparr>"
    have "payload_wf (P_Trade ?m)" by (simp add: payload_wf_def)
    from parse_payload_frame [OF this, of "[]"]
    show "pm_status (parse_message ?f) = Ok" "pm_consumed (parse_message ?f) = length ?f" by simp_all
    show "length ?f = 44" by simp
  qed
  moreover have "?f \<noteq> []" using l by (metis legal_frame_def list.size(3) not_numeral_le_zero)
  ultimately show ?thesis using assms l
    by (simp add: held_up_def recovers_def poll_def loop_start_def now_ns_def init_FeedHandler_def Let_def legal_frame_def)
qed

section \<open>The pacing of the sender\<close>

text \<open>
  What the sending loop of the simulator does, with the points of time it sleeps until, in
  nanoseconds after the start. Conversions to and operations on doubles round as in
  \<open>Doubles\<close>; the conversion of a double that is not negative to \<^verbatim>\<open>int64_t\<close> rounds down.
\<close>

datatype sender_event = Send bytes | Sleep_until int

definition interval_ns :: "SimulatorConfig \<Rightarrow> real" where
  "interval_ns cfg =
     (if sc_rate_per_sec cfg > 0 then round_double (1000000000 / round_double (real_of_int (sc_rate_per_sec cfg))) else 0)"

definition sleep_target :: "SimulatorConfig \<Rightarrow> nat \<Rightarrow> int" where
  "sleep_target cfg i = \<lfloor>round_double (interval_ns cfg * round_double (real (i + 1)))\<rfloor>"

definition paced_turn :: "'g rng \<Rightarrow> SimulatorConfig \<Rightarrow> bytes list \<Rightarrow> 'g send_state \<Rightarrow> nat \<Rightarrow>
    'g send_state \<times> sender_event list" where
  "paced_turn r cfg session s i =
     (let (lost, g) = chance r (sc_loss_rate cfg) (sd_rng s) in
      if lost then (s\<lparr>sd_rng := g\<rparr>, [])
      else
        let frame = session ! i;
            (late, g) = chance r (sc_reorder_rate cfg) g
        in if late \<and> i + 1 < length session
           then (s\<lparr>sd_rng := g, sd_delayed := sd_delayed s @ [(i, frame)]\<rparr>, [])
           else
             let (out, rest) = flush_delayed i (sd_delayed s)
             in (s\<lparr>sd_rng := g, sd_sent := sd_sent s @ [frame] @ out, sd_delayed := rest\<rparr>,
                 map Send ([frame] @ out) @
                 (if interval_ns cfg > 0 then [Sleep_until (sleep_target cfg i)] else [])))"

fun paced_turns :: "'g rng \<Rightarrow> SimulatorConfig \<Rightarrow> bytes list \<Rightarrow> 'g send_state \<Rightarrow> nat list \<Rightarrow>
    'g send_state \<times> sender_event list" where
  "paced_turns r cfg session s [] = (s, [])"
| "paced_turns r cfg session s (i # is) =
     (let (s, es) = paced_turn r cfg session s i; (s, fs) = paced_turns r cfg session s is in (s, es @ fs))"

definition paced_session :: "'g rng \<Rightarrow> SimulatorConfig \<Rightarrow> bytes list \<Rightarrow> sender_event list" where
  "paced_session r cfg session =
     (let (s, es) = paced_turns r cfg session
            \<lparr>sd_rng = rn_seed r (sc_seed cfg + 99), sd_delayed = [], sd_sent = []\<rparr> [0..<length session]
      in es @ map Send (map snd (sd_delayed s)))"

definition sends :: "sender_event list \<Rightarrow> bytes list" where
  "sends es = concat (map (\<lambda>e. case e of Send f \<Rightarrow> [f] | Sleep_until _ \<Rightarrow> []) es)"

definition sleeps :: "sender_event list \<Rightarrow> int list" where
  "sleeps es = concat (map (\<lambda>e. case e of Send f \<Rightarrow> [] | Sleep_until t \<Rightarrow> [t]) es)"

lemma sends_simps [simp]:
  "sends [] = []" "sends (Send f # es) = f # sends es" "sends (Sleep_until t # es) = sends es"
  "sends (es @ fs) = sends es @ sends fs" "sends (map Send xs) = xs"
  by (induction xs) (simp_all add: sends_def)

lemma sleeps_simps [simp]:
  "sleeps [] = []" "sleeps (Send f # es) = sleeps es" "sleeps (Sleep_until t # es) = t # sleeps es"
  "sleeps (es @ fs) = sleeps es @ sleeps fs" "sleeps (map Send xs) = []"
  by (induction xs) (simp_all add: sleeps_def)

lemma paced_turn_send:
  "fst (paced_turn r cfg session s i) = send_turn r cfg session s i"
  "sd_sent (send_turn r cfg session s i) = sd_sent s @ sends (snd (paced_turn r cfg session s i))"
  "\<exists>es. snd (paced_turn r cfg session s i) = map Send es @ (if es \<noteq> [] \<and> interval_ns cfg > 0 then [Sleep_until (sleep_target cfg i)] else [])"
proof -
  obtain lost g where c: "chance r (sc_loss_rate cfg) (sd_rng s) = (lost, g)" by fastforce
  obtain late g' where l: "chance r (sc_reorder_rate cfg) g = (late, g')" by fastforce
  obtain out rest where f: "flush_delayed i (sd_delayed s) = (out, rest)" by fastforce
  show "fst (paced_turn r cfg session s i) = send_turn r cfg session s i"
    "sd_sent (send_turn r cfg session s i) = sd_sent s @ sends (snd (paced_turn r cfg session s i))"
    by (simp_all add: paced_turn_def send_turn_def c l f Let_def)
  show "\<exists>es. snd (paced_turn r cfg session s i) = map Send es @ (if es \<noteq> [] \<and> interval_ns cfg > 0 then [Sleep_until (sleep_target cfg i)] else [])"
    unfolding paced_turn_def c l f Let_def prod.case
    by (cases "lost \<or> late \<and> i + 1 < length session") (auto intro!: exI [of _ "[]"] exI [of _ "session ! i # out"])
qed

definition paced_upto :: "'g rng \<Rightarrow> SimulatorConfig \<Rightarrow> bytes list \<Rightarrow> nat \<Rightarrow> sender_event list" where
  "paced_upto r cfg session n = snd (paced_turns r cfg session (send_from r cfg session 0) [0..<n])"

lemma paced_turns_append:
  "paced_turns r cfg session s (xs @ ys) =
     (let (s, es) = paced_turns r cfg session s xs; (s, fs) = paced_turns r cfg session s ys in (s, es @ fs))"
  by (induction xs arbitrary: s) (simp_all add: Let_def split_beta)

lemma paced_turns_state: "fst (paced_turns r cfg session (send_from r cfg session 0) [0..<n]) = send_from r cfg session n"
  by (induction n) (simp_all add: paced_turns_append send_from_Suc paced_turn_send(1) split_beta)

lemma paced_upto_Suc:
  "paced_upto r cfg session (Suc n) =
     paced_upto r cfg session n @ snd (paced_turn r cfg session (send_from r cfg session n) n)"
  using paced_turns_state [of r cfg session n] by (simp add: paced_upto_def paced_turns_append split_beta)

lemma paced_session_upto:
  "paced_session r cfg session =
     paced_upto r cfg session (length session) @ map Send (map snd (sd_delayed (send_from r cfg session (length session))))"
  using paced_turns_state [of r cfg session "length session"]
  by (simp add: paced_session_def paced_upto_def send_from_def split_beta)

lemma sends_paced_upto: "sends (paced_upto r cfg session n) = sd_sent (send_from r cfg session n)"
proof (induction n)
  case 0
  show ?case by (simp add: paced_upto_def send_from_def)
next
  case (Suc n)
  then show ?case by (simp add: paced_upto_Suc send_from_Suc paced_turn_send(2))
qed

lemma sleeps_paced_upto:
  "\<exists>js. sleeps (paced_upto r cfg session n) = map (sleep_target cfg) js \<and> sorted js \<and> set js \<subseteq> {..<n}"
proof (induction n)
  case 0
  show ?case by (intro exI [of _ "[]"]) (simp add: paced_upto_def)
next
  case (Suc n)
  then obtain js where js: "sleeps (paced_upto r cfg session n) = map (sleep_target cfg) js" "sorted js" "set js \<subseteq> {..<n}"
    by blast
  obtain es where "snd (paced_turn r cfg session (send_from r cfg session n) n) =
      map Send es @ (if es \<noteq> [] \<and> interval_ns cfg > 0 then [Sleep_until (sleep_target cfg n)] else [])"
    using paced_turn_send(3) by blast
  then have "sleeps (paced_upto r cfg session (Suc n)) =
      map (sleep_target cfg) (js @ (if es \<noteq> [] \<and> interval_ns cfg > 0 then [n] else []))"
    using js(1) by (simp add: paced_upto_Suc)
  then show ?case using js(2,3)
    by (intro exI [of _ "js @ (if es \<noteq> [] \<and> interval_ns cfg > 0 then [n] else [])"]) (auto simp: sorted_append less_Suc_eq)
qed

text \<open>What comes before a sleep: the sleep is that of some turn, and all sends of the turns up to it are before it.\<close>

lemma sleep_before_sends:
  "xs @ map Send fs = pre @ Sleep_until t # post \<Longrightarrow> \<exists>us. xs = pre @ Sleep_until t # us"
  by (auto simp: append_eq_append_conv2 append_eq_Cons_conv Cons_eq_map_conv map_eq_append_conv)

lemma sleep_of_turn:
  "paced_upto r cfg session n = pre @ Sleep_until t # post \<Longrightarrow>
   \<exists>i < n. t = sleep_target cfg i \<and> sends pre = sd_sent (send_from r cfg session (Suc i))"
proof (induction n arbitrary: post)
  case 0
  then show ?case by (simp add: paced_upto_def)
next
  case (Suc n)
  obtain es where es: "snd (paced_turn r cfg session (send_from r cfg session n) n) =
      map Send es @ (if es \<noteq> [] \<and> interval_ns cfg > 0 then [Sleep_until (sleep_target cfg n)] else [])"
    using paced_turn_send(3) by blast
  let ?xs = "paced_upto r cfg session n @ map Send es"
  have all: "?xs @ (if es \<noteq> [] \<and> interval_ns cfg > 0 then [Sleep_until (sleep_target cfg n)] else []) = pre @ Sleep_until t # post"
    using Suc.prems by (simp add: paced_upto_Suc es)
  show ?case
  proof (cases "\<exists>us. ?xs = pre @ Sleep_until t # us")
    case True
    then show ?thesis using sleep_before_sends Suc.IH less_Suc_eq by meson
  next
    case False
    then have "pre = ?xs" "t = sleep_target cfg n"
      using all by (auto simp: append_eq_append_conv2 append_eq_Cons_conv Cons_eq_append_conv split: if_splits)
    moreover have "sends (paced_upto r cfg session (Suc n)) = sends ?xs" by (simp add: paced_upto_Suc es)
    ultimately show ?thesis using sends_paced_upto [of r cfg session "Suc n"] by (intro exI [of _ n]) simp
  qed
qed

lemma near_one_product:
  assumes "near_one a" "near_one b"
  shows "0 < a * b" "a * b \<le> 2" "1 \<le> a * b * (1 + 3 / 2 ^ 53)"
proof -
  define d :: real where "d = 1 / 2 ^ 53"
  have d: "0 < d" "100 * d \<le> 1" by (simp_all add: d_def)
  have i: "1 - d \<le> a" "a \<le> 1 + d" "1 - d \<le> b" "b \<le> 1 + d" using assms unfolding d_def by linarith+
  then show "0 < a * b" using d by (intro mult_pos_pos) linarith+
  have "a * b \<le> (1 + d) * (1 + d)" using i d by (intro mult_mono) linarith+
  also have "\<dots> \<le> (101 / 100) * (101 / 100)" using d by (intro mult_mono) linarith+
  finally show "a * b \<le> 2" by simp
  have "(1 - d) * (1 - d) * (1 + 3 * d) - 1 = d * (1 - 5 * d + 3 * d * d)" by algebra
  moreover have "0 \<le> d * (1 - 5 * d + 3 * d * d)" using d by (intro mult_nonneg_nonneg) (auto intro: add_nonneg_nonneg)
  ultimately have "1 \<le> (1 - d) * (1 - d) * (1 + 3 * d)" by linarith
  also have "\<dots> \<le> a * b * (1 + 3 * d)" using i d by (intro mult_right_mono mult_mono) linarith+
  finally show "1 \<le> a * b * (1 + 3 / 2 ^ 53)" by (simp add: d_def)
qed

text \<open>The points to sleep until, with the errors of the operations as factors.\<close>

lemma sleep_target_factors:
  assumes rate: "0 < sc_rate_per_sec cfg" "sc_rate_per_sec cfg < 2 ^ 31"
  defines "R \<equiv> real_of_int (sc_rate_per_sec cfg)"
  obtains a where "near_one a" "interval_ns cfg = 1000000000 / R * a"
    "\<And>i. i < 2 ^ 31 \<Longrightarrow> \<exists>b. near_one b \<and> sleep_target cfg i = \<lfloor>1000000000 * real (i + 1) / R * (a * b)\<rfloor>"
proof -
  have "\<bar>sc_rate_per_sec cfg\<bar> < 2 ^ 53" using rate by simp
  then have r: "round_double R = R" unfolding R_def by (rule round_double_int)
  have R: "1 \<le> R" "R \<le> 2147483648" using rate by (simp_all add: R_def)
  then have x: "1 / 3 \<le> 1000000000 / R" by (simp add: pos_le_divide_eq)
  then have "normal (1000000000 / R)" by (intro normal_large) simp
  then obtain a where a: "round_double (1000000000 / R) = 1000000000 / R * a" "near_one a" using rounded_factor by blast
  have iv: "interval_ns cfg = 1000000000 / R * a" using rate(1) a(1) r by (simp add: interval_ns_def R_def)
  have "\<exists>b. near_one b \<and> sleep_target cfg i = \<lfloor>1000000000 * real (i + 1) / R * (a * b)\<rfloor>" if i: "i < 2 ^ 31" for i
  proof -
    let ?k = "real (i + 1)"
    have "\<bar>int (i + 1)\<bar> < 2 ^ 53" using i by simp
    then have "round_double (of_int (int (i + 1))) = of_int (int (i + 1))" by (rule round_double_int)
    then have k: "round_double ?k = ?k" by (simp only: of_int_of_nat_eq)
    have "1 / 3 * (1 / 2) \<le> 1000000000 / R * a" using x R near_one_half [OF a(2)] by (intro mult_mono) auto
    then have "1 / 6 * 1 \<le> 1000000000 / R * a * ?k" by (intro mult_mono) auto
    then have "normal (1000000000 / R * a * ?k)" by (intro normal_large) simp
    then obtain b where b: "round_double (1000000000 / R * a * ?k) = 1000000000 / R * a * ?k * b" "near_one b"
      using rounded_factor by blast
    have "sleep_target cfg i = \<lfloor>1000000000 / R * a * ?k * b\<rfloor>" unfolding sleep_target_def k iv b(1) ..
    also have "1000000000 / R * a * ?k * b = 1000000000 * ?k / R * (a * b)" by simp
    finally show ?thesis using b(2) by blast
  qed
  then show thesis using that a(2) iv by blast
qed

lemma interval_ns_pos:
  assumes "0 < sc_rate_per_sec cfg" "sc_rate_per_sec cfg < 2 ^ 31"
  shows "0 < interval_ns cfg"
proof (rule sleep_target_factors [OF assms])
  fix a :: real
  assume a: "near_one a" "interval_ns cfg = 1000000000 / real_of_int (sc_rate_per_sec cfg) * a"
  show ?thesis unfolding a(2) using near_one_half [OF a(1)] assms(1) by simp
qed

text \<open>The step from one point to the next is larger than the errors.\<close>

lemma sleep_target_mono:
  assumes "0 < sc_rate_per_sec cfg" "sc_rate_per_sec cfg < 2 ^ 31" "i \<le> j" "j < 2 ^ 31"
  shows "sleep_target cfg i \<le> sleep_target cfg j"
proof (cases "i = j")
  case False
  define R where "R = real_of_int (sc_rate_per_sec cfg)"
  obtain a where a: "near_one a" and f: "\<And>i. i < 2 ^ 31 \<Longrightarrow> \<exists>b. near_one b \<and> sleep_target cfg i = \<lfloor>1000000000 * real (i + 1) / R * (a * b)\<rfloor>"
    using sleep_target_factors [OF assms(1,2)] unfolding R_def by blast
  obtain b c where b: "near_one b" "sleep_target cfg i = \<lfloor>1000000000 * real (i + 1) / R * (a * b)\<rfloor>"
    and c: "near_one c" "sleep_target cfg j = \<lfloor>1000000000 * real (j + 1) / R * (a * c)\<rfloor>"
    using f [of i] f [of j] assms(3,4) by auto
  define d :: real where "d = 1 / 2 ^ 53"
  define k where "k = real (i + 1)"
  have k: "0 < k" "k \<le> 2 ^ 31" "k + 1 \<le> real (j + 1)" using assms(3,4) False by (simp_all add: k_def)
  have d: "0 < d" "d * 2 ^ 33 \<le> 1" by (simp_all add: d_def)
  have bc: "b \<le> 1 + d" "1 - d \<le> c" using b(1) c(1) unfolding d_def by linarith+
  have "d * (2 * k + 1) \<le> d * 2 ^ 33" using k(2) d(1) by (intro mult_left_mono) simp_all
  then have "k * (1 + d) \<le> (k + 1) * (1 - d)" using d(2) by (simp add: algebra_simps)
  moreover have "k * b \<le> k * (1 + d)" using k(1) bc(1) by (intro mult_left_mono) simp_all
  moreover have "(k + 1) * (1 - d) \<le> real (j + 1) * c" using k bc(2) d by (intro mult_mono) auto
  ultimately have "k * b \<le> real (j + 1) * c" by linarith
  moreover have "0 \<le> 1000000000 / R * a" using near_one_half [OF a] assms(1) by (simp add: R_def)
  ultimately have "1000000000 / R * a * (k * b) \<le> 1000000000 / R * a * (real (j + 1) * c)" by (rule mult_left_mono)
  then show ?thesis unfolding b(2) c(2) k_def by (intro floor_mono) (simp only: times_divide_eq_left times_divide_eq_right mult_ac)
qed simp

lemma sleep_target_bounds:
  assumes rate: "0 < sc_rate_per_sec cfg" "sc_rate_per_sec cfg < 2 ^ 31" and i: "i < 2 ^ 31"
  shows "0 \<le> sleep_target cfg i" "sleep_target cfg i < 2 ^ 63"
    "real (i + 1) \<le> real_of_int (sc_rate_per_sec cfg) * real_of_int (sleep_target cfg i + 1) / 1000000000 * (1 + 3 / 2 ^ 53)"
proof -
  define R where "R = real_of_int (sc_rate_per_sec cfg)"
  define k where "k = real (i + 1)"
  have R: "1 \<le> R" "0 < R" using rate by (simp_all add: R_def)
  have k: "0 < k" "k \<le> 2147483648" using i by (simp_all add: k_def)
  obtain a b where a: "near_one a" and b: "near_one b" "sleep_target cfg i = \<lfloor>1000000000 * k / R * (a * b)\<rfloor>"
    using sleep_target_factors [OF rate] i unfolding R_def k_def by metis
  define c where "c = a * b"
  note ab = near_one_product [OF a b(1), folded c_def]
  define x where "x = 1000000000 * k / R"
  have x: "0 < x" "x \<le> 1000000000 * 2147483648"
  proof -
    show "0 < x" using R k by (simp add: x_def)
    have "x \<le> 1000000000 * k / 1" unfolding x_def using R k by (intro divide_left_mono) auto
    then show "x \<le> 1000000000 * 2147483648" using k by simp
  qed
  have t: "sleep_target cfg i = \<lfloor>x * c\<rfloor>" unfolding b(2) x_def c_def ..
  have xc: "0 \<le> x * c" "x * c \<le> 1000000000 * 2147483648 * 2" using x ab(1,2) by (simp, intro mult_mono) auto
  show "0 \<le> sleep_target cfg i" using xc(1) unfolding t by simp
  show "sleep_target cfg i < 2 ^ 63" using xc(2) unfolding t floor_less_iff by simp
  define e :: real where "e = 1 + 3 / 2 ^ 53"
  define T where "T = real_of_int (\<lfloor>x * c\<rfloor> + 1)"
  have e: "0 \<le> e" "1 \<le> c * e" using ab(3) by (simp_all add: e_def)
  have "x \<le> x * (c * e)" using x e(2) by simp
  also have "\<dots> = x * c * e" by (simp only: mult.assoc)
  also have "\<dots> \<le> T * e" unfolding T_def using e(1) by (intro mult_right_mono) linarith
  finally have "R / 1000000000 * x \<le> R / 1000000000 * (T * e)" using R by (intro mult_left_mono) auto
  moreover have "R / 1000000000 * x = k" using R by (simp add: x_def)
  moreover have "R / 1000000000 * (T * e) = R * T / 1000000000 * e" by simp
  ultimately have "k \<le> R * T / 1000000000 * e" by simp
  then show "real (i + 1) \<le> real_of_int (sc_rate_per_sec cfg) * real_of_int (sleep_target cfg i + 1) / 1000000000 * (1 + 3 / 2 ^ 53)"
    unfolding t R_def k_def T_def e_def .
qed

lemma sorted_map_mono_on:
  "(\<And>i j. i \<le> j \<Longrightarrow> j \<in> set xs \<Longrightarrow> f i \<le> f j) \<Longrightarrow> sorted xs \<Longrightarrow> sorted (map f xs)"
  by (induction xs) auto

text \<open>
  C33: The sender keeps to its rate. With sleeps the sender sends what it sends without
  them; the points of time it sleeps until never go back, are within the range of the
  clock, and whenever it sleeps until \<open>t\<close> nanoseconds after the start it has sent at most
  \<open>rate \<cdot> (t + 1) / 10 ^ 9\<close> frames, up to a relative error of \<open>3 \<cdot> 2 ^ -53\<close> from the doubles.
  This is for a positive rate; otherwise the sender does not sleep.
\<close>

theorem sender_keeps_rate:
  assumes rate: "0 < sc_rate_per_sec cfg" "sc_rate_per_sec cfg < 2 ^ 31" and len: "length session \<le> 2 ^ 31"
  shows "sends (paced_session r cfg session) = send_session r cfg session \<and>
    sorted (sleeps (paced_session r cfg session)) \<and>
    (\<forall>pre t post. paced_session r cfg session = pre @ Sleep_until t # post \<longrightarrow>
      0 \<le> t \<and> t < 2 ^ 63 \<and>
      real (length (sends pre)) \<le> real_of_int (sc_rate_per_sec cfg) * real_of_int (t + 1) / 1000000000 * (1 + 3 / 2 ^ 53))"
proof (intro conjI allI impI)
  show "sends (paced_session r cfg session) = send_session r cfg session"
    by (simp add: paced_session_upto sends_paced_upto send_session_from Let_def del: map_map)
  obtain js where js: "sleeps (paced_upto r cfg session (length session)) = map (sleep_target cfg) js" "sorted js"
    "set js \<subseteq> {..<length session}" using sleeps_paced_upto by blast
  have "sleep_target cfg i \<le> sleep_target cfg j" if "i \<le> j" "j \<in> set js" for i j
    using sleep_target_mono [OF rate that(1)] that(2) js(3) len by force
  then show "sorted (sleeps (paced_session r cfg session))"
    using sorted_map_mono_on js(2) unfolding paced_session_upto sleeps_simps append_Nil2 js(1) by blast
next
  fix pre t post assume "paced_session r cfg session = pre @ Sleep_until t # post"
  then obtain us where "paced_upto r cfg session (length session) = pre @ Sleep_until t # us"
    using sleep_before_sends unfolding paced_session_upto by blast
  from sleep_of_turn [OF this] obtain i where i: "i < length session" "t = sleep_target cfg i"
    "sends pre = sd_sent (send_from r cfg session (Suc i))" by blast
  let ?s = "send_from r cfg session (Suc i)"
  have "mset (sd_sent ?s @ map snd (sd_delayed ?s)) \<subseteq># mset (take (Suc i) session)"
    using send_from_mset [OF _ refl, of "Suc i" session r cfg] i(1) by simp
  then have "size (mset (sd_sent ?s @ map snd (sd_delayed ?s))) \<le> size (mset (take (Suc i) session))" by (rule size_mset_mono)
  then have l: "length (sends pre) \<le> i + 1" unfolding i(3) by simp
  have "i < 2 ^ 31" using i(1) len by simp
  note b = sleep_target_bounds [OF rate this]
  show "0 \<le> t" "t < 2 ^ 63" using b(1,2) i(2) by simp_all
  show "real (length (sends pre)) \<le> real_of_int (sc_rate_per_sec cfg) * real_of_int (t + 1) / 1000000000 * (1 + 3 / 2 ^ 53)"
    using b(3) l unfolding i(2) by linarith
qed

text \<open>At 50000 frames a second all points of a short session are whole numbers, which are doubles.\<close>

lemma small_config_pace:
  "interval_ns small_config = 20000" "i < 2 ^ 31 \<Longrightarrow> sleep_target small_config i = 20000 * (int i + 1)"
proof -
  have w: "round_double (of_int n) = of_int n" if "0 \<le> n" "n < 2 ^ 53" for n using round_double_int [of n] that by simp
  have "round_double 50000 = 50000" "round_double 20000 = 20000" using w [of 50000] w [of 20000] by simp_all
  then show iv: "interval_ns small_config = 20000"
    by (simp add: interval_ns_def small_config_def init_SimulatorConfig_def)
  assume i: "i < 2 ^ 31"
  have "round_double (real (i + 1)) = real (i + 1)" using w [of "int i + 1"] i by (simp add: add.commute)
  moreover have "round_double (20000 * real (i + 1)) = 20000 * real (i + 1)"
    using w [of "20000 * (int i + 1)"] i by (simp add: add.commute)
  ultimately have "sleep_target small_config i = \<lfloor>20000 * real (i + 1)\<rfloor>" unfolding sleep_target_def iv by simp
  also have "20000 * real (i + 1) = of_int (20000 * (int i + 1))" by simp
  finally show "sleep_target small_config i = 20000 * (int i + 1)" by (simp only: floor_of_int)
qed

theorem sender_keeps_rate_witness:
  "paced_session low_rng small_config [[1], [2]] = [Send [1], Sleep_until 20000, Send [2], Sleep_until 40000] \<and>
   real (length (sends [Send [1], Sleep_until 20000, Send [2]])) \<le> 50000 * real_of_int (40000 + 1) / 1000000000 * (1 + 3 / 2 ^ 53)"
proof -
  have e: "paced_session low_rng small_config [[1], [2]] = [Send [1], Sleep_until 20000, Send [2]] @ Sleep_until 40000 # []"
    by (simp add: paced_session_def paced_turn_def chance_def small_config_pace upt_rec Let_def)
  have "0 < sc_rate_per_sec small_config" "sc_rate_per_sec small_config < 2 ^ 31" "length [[1 :: u8], [2]] \<le> 2 ^ 31"
    by (simp_all add: small_config_def init_SimulatorConfig_def)
  from sender_keeps_rate [OF this, of low_rng] e show ?thesis
    by (simp add: small_config_def init_SimulatorConfig_def)
qed

end
