(* ===== verification/Atomics.thy ===== *)
theory Atomics
  imports Mdp_Prelude
begin

text \<open>
  The part of the C++ memory model that the two threads of the feed handler use: atomic
  loads and stores with relaxed, acquire and release ordering, and plain accesses to the
  cells of an array. It is the usual operational reading with time stamps and views.

  An atomic location has a history of messages in modification order, here numbered by
  time stamps. A thread has a view: for each location the newest message it knows of, and
  for each thread how many plain accesses of that thread happen before its next action. A
  load may return any message that is not older than the view of the thread, so stale
  values are possible; a store may enter the modification order anywhere after the view. A
  release store publishes the view of its thread with the message, and an acquire load
  takes it over: this is the synchronises-with relation. A plain access is a data race,
  which makes the behaviour of the program undefined, when the other thread has accessed
  the cell and this access is not known to have happened before; every pair of accesses
  counts, also two reads, which is more than the language asks for.

  Executions in which a load reads from a store that it influences (load buffering) are not
  covered, as in the models that strengthen the standard to exclude values out of thin air.
\<close>

datatype memory_order = Relaxed | Acquire | Release

datatype thread = Feed | Consumer

fun other :: "thread \<Rightarrow> thread" where
  "other Feed = Consumer"
| "other Consumer = Feed"

record 'l view =
  vw_at :: "'l \<Rightarrow> nat"
  vw_seen :: "thread \<Rightarrow> nat"

record ('l, 'v) message =
  mg_val :: 'v
  mg_view :: "'l view"

record ('l, 'v, 'a) memory =
  mem_hist :: "'l \<Rightarrow> nat \<rightharpoonup> ('l, 'v) message"
  mem_view :: "thread \<Rightarrow> 'l view"
  mem_data :: "'a array"
  mem_access :: "nat \<Rightarrow> thread \<Rightarrow> nat"
  mem_race :: bool

definition no_view :: "'l view" where
  "no_view = \<lparr>vw_at = (\<lambda>_. 0), vw_seen = (\<lambda>_. 0)\<rparr>"

definition join_view :: "'l view \<Rightarrow> 'l view \<Rightarrow> 'l view" where
  "join_view v w = \<lparr>vw_at = (\<lambda>l. max (vw_at v l) (vw_at w l)),
     vw_seen = (\<lambda>t. max (vw_seen v t) (vw_seen w t))\<rparr>"

text \<open>Memory before the threads start: one message per location, and nothing accessed.\<close>

definition init_memory :: "('l \<Rightarrow> 'v) \<Rightarrow> 'a array \<Rightarrow> ('l, 'v, 'a) memory" where
  "init_memory vals cells =
     \<lparr>mem_hist = (\<lambda>l. [0 \<mapsto> \<lparr>mg_val = vals l, mg_view = no_view\<rparr>]), mem_view = (\<lambda>_. no_view),
      mem_data = cells, mem_access = (\<lambda>_ _. 0), mem_race = False\<rparr>"

text \<open>\<open>k\<close> is the message the load reads, and the time stamp the store takes.\<close>

definition atomic_load :: "memory_order \<Rightarrow> thread \<Rightarrow> 'l \<Rightarrow> nat \<Rightarrow> ('l, 'v, 'a) memory \<Rightarrow> ('v \<times> ('l, 'v, 'a) memory) option" where
  "atomic_load ord t l k m =
     (case mem_hist m l k of
        None \<Rightarrow> None
      | Some g \<Rightarrow>
          let v = mem_view m t in
          if k < vw_at v l then None
          else
            let v = v\<lparr>vw_at := (vw_at v)(l := k)\<rparr>;
                v = (if ord = Acquire then join_view v (mg_view g) else v)
            in Some (mg_val g, m\<lparr>mem_view := (mem_view m)(t := v)\<rparr>))"

definition atomic_store :: "memory_order \<Rightarrow> thread \<Rightarrow> 'l \<Rightarrow> 'v \<Rightarrow> nat \<Rightarrow> ('l, 'v, 'a) memory \<Rightarrow> ('l, 'v, 'a) memory option" where
  "atomic_store ord t l x k m =
     (let v = mem_view m t in
      if mem_hist m l k \<noteq> None \<or> k \<le> vw_at v l then None
      else
        let v = v\<lparr>vw_at := (vw_at v)(l := k)\<rparr>;
            g = \<lparr>mg_val = x, mg_view = (if ord = Release then v else no_view)\<rparr>
        in Some (m\<lparr>mem_hist := (mem_hist m)(l := (mem_hist m l)(k \<mapsto> g)),
                   mem_view := (mem_view m)(t := v)\<rparr>))"

text \<open>A plain access of cell \<open>c\<close>, with its race check.\<close>

definition touch :: "thread \<Rightarrow> nat \<Rightarrow> ('l, 'v, 'a) memory \<Rightarrow> ('l, 'v, 'a) memory" where
  "touch t c m =
     (let v = mem_view m t;
          n = vw_seen v t + 1
      in m\<lparr>mem_race := mem_race m \<or> vw_seen v (other t) < mem_access m c (other t),
           mem_view := (mem_view m)(t := v\<lparr>vw_seen := (vw_seen v)(t := n)\<rparr>),
           mem_access := (mem_access m)(c := (mem_access m c)(t := n))\<rparr>)"

definition data_read :: "thread \<Rightarrow> nat \<Rightarrow> ('l, 'v, 'a) memory \<Rightarrow> 'a \<times> ('l, 'v, 'a) memory" where
  "data_read t c m = (mem_data m c, touch t c m)"

definition data_write :: "thread \<Rightarrow> nat \<Rightarrow> 'a \<Rightarrow> ('l, 'v, 'a) memory \<Rightarrow> ('l, 'v, 'a) memory" where
  "data_write t c x m = (touch t c m)\<lparr>mem_data := (mem_data m)(c := x)\<rparr>"

section \<open>Newest messages\<close>

text \<open>
  \<open>newest N m\<close>: the function \<open>N\<close> gives the time stamp of the newest message of each location,
  and no view, of a thread or in a message, is ahead of it. \<open>knows\<close>: a thread has accounted
  for its own accesses.
\<close>

definition view_below :: "('l \<Rightarrow> nat) \<Rightarrow> 'l view \<Rightarrow> bool" where
  "view_below N v \<longleftrightarrow> (\<forall>l. vw_at v l \<le> N l)"

definition newest :: "('l \<Rightarrow> nat) \<Rightarrow> ('l, 'v, 'a) memory \<Rightarrow> bool" where
  "newest N m \<longleftrightarrow> (\<forall>l. mem_hist m l (N l) \<noteq> None) \<and>
     (\<forall>l k g. mem_hist m l k = Some g \<longrightarrow> k \<le> N l \<and> view_below N (mg_view g)) \<and>
     (\<forall>t. view_below N (mem_view m t)) \<and>
     (\<forall>c t. mem_access m c t \<le> vw_seen (mem_view m t) t)"

text \<open>The value of the newest message.\<close>

definition current :: "('l \<Rightarrow> nat) \<Rightarrow> ('l, 'v, 'a) memory \<Rightarrow> 'l \<Rightarrow> 'v" where
  "current N m l = mg_val (the (mem_hist m l (N l)))"

text \<open>A load changes only the view of its thread, which gets larger.\<close>

definition view_le :: "'l view \<Rightarrow> 'l view \<Rightarrow> bool" where
  "view_le v w \<longleftrightarrow> (\<forall>l. vw_at v l \<le> vw_at w l) \<and> (\<forall>t. vw_seen v t \<le> vw_seen w t)"

lemma view_belowD: "view_below N v \<Longrightarrow> vw_at v l \<le> N l"
  by (simp add: view_below_def)

lemma newestD:
  assumes "newest N m"
  shows "mem_hist m l k = Some g \<Longrightarrow> k \<le> N l" "mem_hist m l k = Some g \<Longrightarrow> view_below N (mg_view g)"
    "vw_at (mem_view m t) l \<le> N l" "mem_access m c t \<le> vw_seen (mem_view m t) t"
  using assms unfolding newest_def view_below_def by blast+

lemma newest_message:
  assumes "newest N m"
  obtains g where "mem_hist m l (N l) = Some g" "mg_val g = current N m l"
  using assms unfolding newest_def current_def by force

lemma newest_init: "newest (\<lambda>_. 0) (init_memory vals cells)"
  by (auto simp: newest_def init_memory_def no_view_def view_below_def)

lemma atomic_loadE:
  assumes "atomic_load ord t l k m = Some (x, m')" "newest N m"
  obtains g v where "mem_hist m l k = Some g" "x = mg_val g" "vw_at (mem_view m t) l \<le> k" "k \<le> N l"
    "m' = m\<lparr>mem_view := (mem_view m)(t := v)\<rparr>" "view_le (mem_view m t) v" "view_below N v" "k \<le> vw_at v l"
    "ord = Acquire \<Longrightarrow> view_le (mg_view g) v"
proof -
  obtain g where g: "mem_hist m l k = Some g" "vw_at (mem_view m t) l \<le> k" "x = mg_val g"
    using assms(1) by (auto simp: atomic_load_def Let_def split: option.splits if_splits)
  let ?v = "(mem_view m t)\<lparr>vw_at := (vw_at (mem_view m t))(l := k)\<rparr>"
  let ?w = "if ord = Acquire then join_view ?v (mg_view g) else ?v"
  have "m' = m\<lparr>mem_view := (mem_view m)(t := ?w)\<rparr>"
    using assms(1) g by (simp add: atomic_load_def Let_def)
  moreover have "view_le (mem_view m t) ?w" using g(2) by (simp add: view_le_def join_view_def le_max_iff_disj)
  moreover have "view_below N ?w" using newestD(1-3) [OF assms(2)] g(1)
    by (auto simp: view_below_def join_view_def)
  moreover have "k \<le> vw_at ?w l" by (simp add: join_view_def)
  moreover have "ord = Acquire \<Longrightarrow> view_le (mg_view g) ?w" by (simp add: view_le_def join_view_def)
  ultimately show thesis using that g newestD(1) [OF assms(2) g(1)] by blast
qed

lemma newest_view:
  assumes "newest N m" "view_below N v" "view_le (mem_view m t) v"
  shows "newest N (m\<lparr>mem_view := (mem_view m)(t := v)\<rparr>)"
proof -
  have "mem_access m c t \<le> vw_seen v t" for c
    using newestD(4) [OF assms(1)] assms(3) unfolding view_le_def by (blast intro: order_trans)
  then show ?thesis using assms(1,2) unfolding newest_def by simp
qed

lemma atomic_storeE:
  assumes "atomic_store ord t l x k m = Some m'" "newest N m" "vw_at (mem_view m t) l = N l"
  obtains v g where "N l < k" "v = (mem_view m t)\<lparr>vw_at := (vw_at (mem_view m t))(l := k)\<rparr>"
    "g = \<lparr>mg_val = x, mg_view = (if ord = Release then v else no_view)\<rparr>"
    "m' = m\<lparr>mem_hist := (mem_hist m)(l := (mem_hist m l)(k \<mapsto> g)), mem_view := (mem_view m)(t := v)\<rparr>"
    "newest (N(l := k)) m'"
proof -
  let ?v = "(mem_view m t)\<lparr>vw_at := (vw_at (mem_view m t))(l := k)\<rparr>"
  let ?g = "\<lparr>mg_val = x, mg_view = (if ord = Release then ?v else no_view)\<rparr>"
  have k: "N l < k" and m': "m' = m\<lparr>mem_hist := (mem_hist m)(l := (mem_hist m l)(k \<mapsto> ?g)), mem_view := (mem_view m)(t := ?v)\<rparr>"
    using assms(1,3) by (auto simp: atomic_store_def Let_def split: if_splits)
  have up: "view_below N w \<Longrightarrow> view_below (N(l := k)) w" for w
    using k by (auto simp: view_below_def intro: order_trans less_imp_le)
  have v: "view_below (N(l := k)) ?v" using newestD(3) [OF assms(2)] by (auto simp: view_below_def)
  have old: "j \<le> (N(l := k)) i \<and> view_below (N(l := k)) (mg_view h)" if "mem_hist m i j = Some h" for i j h
    using newestD(1,2) [OF assms(2) that] up k by fastforce
  have "view_below (N(l := k)) no_view" by (simp add: view_below_def no_view_def)
  then have "newest (N(l := k)) m'"
    using v old old [of l] up assms(2) unfolding newest_def m' by (simp add: fun_upd_apply)
  then show thesis using that k m' by blast
qed

lemma newest_touch: "newest N m \<Longrightarrow> newest N (touch t c m)"
  unfolding newest_def touch_def Let_def by (auto simp: view_below_def le_SucI)

lemma newest_data [simp]: "newest N (m\<lparr>mem_data := d\<rparr>) = newest N m"
  by (simp add: newest_def)

end
