(* ===== verification/Spsc_Memory.thy ===== *)
theory Spsc_Memory
  imports Spsc_Queue Atomics
begin

text \<open>
  The ring of \<^verbatim>\<open>spsc_queue.hpp\<close> between the two threads of the feed handler, under the
  memory orders the code gives each access: the positions are relaxed, the sequence numbers
  of the slots are released and acquired, the storage of the slots is plain data. The feed
  thread pushes any items and at the end sets \<^verbatim>\<open>stop_\<close>; the consumer runs
  \<^verbatim>\<open>consumer_loop\<close> of \<^verbatim>\<open>feed_handler.cpp\<close>: it pops until it has seen \<^verbatim>\<open>stop_\<close> and finds
  the ring empty. Stale loads are possible wherever the memory model of \<open>Atomics\<close> allows
  them. The two loads of \<^verbatim>\<open>empty()\<close> are made in the order in which they are written; the
  second one reads the consumer's own position, so the order does not matter.
\<close>

datatype queue_loc = Head | Tail | Sequence nat | Stop

text \<open>
  The consumer is at the condition of its loop, inside \<^verbatim>\<open>empty()\<close> before its first or second
  load, inside \<^verbatim>\<open>try_pop\<close>, or has left the loop.
\<close>

datatype 'a drain = D_Loop | D_Head | D_Tail u64 | D_Pop "'a consumer" | D_Done

record 'a ra_threads =
  ra_mem :: "(queue_loc, u64, 'a) memory"
  ra_feed :: "'a producer"
  ra_stopped :: bool
  ra_drain :: "'a drain"
  ra_pushed :: "'a list"
  ra_popped :: "'a list"

text \<open>
  One access of the feed thread: of \<^verbatim>\<open>try_push(item)\<close> for \<^term>\<open>Some item\<close>, and of
  \<^verbatim>\<open>request_stop\<close>, after which it makes no more calls, for \<^term>\<open>None\<close>. The number \<open>k\<close> is the
  choice the memory model leaves.
\<close>

definition feed_step :: "u64 \<Rightarrow> 'a option \<Rightarrow> nat \<Rightarrow> 'a ra_threads \<Rightarrow> 'a ra_threads option" where
  "feed_step cap call k s =
     (let m = ra_mem s in
      case ra_feed s of
        P_Idle \<Rightarrow>
          (if ra_stopped s then None
           else case call of
             Some item \<Rightarrow>
               map_option (\<lambda>(pos, m). s\<lparr>ra_mem := m, ra_feed := P_Pos item pos\<rparr>)
                 (atomic_load Relaxed Feed Head k m)
           | None \<Rightarrow>
               map_option (\<lambda>m. s\<lparr>ra_mem := m, ra_stopped := True\<rparr>)
                 (atomic_store Release Feed Stop 1 k m))
      | P_Pos x pos \<Rightarrow>
          map_option (\<lambda>(seq, m). s\<lparr>ra_mem := m, ra_feed := (if seq - pos \<noteq> 0 then P_Idle else P_Free x pos)\<rparr>)
            (atomic_load Acquire Feed (Sequence (slot_index cap pos)) k m)
      | P_Free x pos \<Rightarrow>
          Some (s\<lparr>ra_mem := data_write Feed (slot_index cap pos) x m, ra_feed := P_Stored x pos\<rparr>)
      | P_Stored x pos \<Rightarrow>
          map_option (\<lambda>m. s\<lparr>ra_mem := m, ra_feed := P_Published pos, ra_pushed := ra_pushed s @ [x]\<rparr>)
            (atomic_store Release Feed (Sequence (slot_index cap pos)) (pos + 1) k m)
      | P_Published pos \<Rightarrow>
          map_option (\<lambda>m. s\<lparr>ra_mem := m, ra_feed := P_Idle\<rparr>) (atomic_store Relaxed Feed Head (pos + 1) k m))"

text \<open>One access of \<^verbatim>\<open>consumer_loop\<close> and the \<^verbatim>\<open>empty()\<close> and \<^verbatim>\<open>try_pop\<close> it calls.\<close>

definition pop_step :: "u64 \<Rightarrow> nat \<Rightarrow> 'a consumer \<Rightarrow> 'a ra_threads \<Rightarrow> 'a ra_threads option" where
  "pop_step cap k c s =
     (let m = ra_mem s in
      case c of
        C_Idle \<Rightarrow>
          map_option (\<lambda>(pos, m). s\<lparr>ra_mem := m, ra_drain := D_Pop (C_Pos pos)\<rparr>)
            (atomic_load Relaxed Consumer Tail k m)
      | C_Pos pos \<Rightarrow>
          map_option (\<lambda>(seq, m). s\<lparr>ra_mem := m, ra_drain := (if seq - (pos + 1) \<noteq> 0 then D_Loop else D_Pop (C_Ready pos))\<rparr>)
            (atomic_load Acquire Consumer (Sequence (slot_index cap pos)) k m)
      | C_Ready pos \<Rightarrow>
          (let (x, m) = data_read Consumer (slot_index cap pos) m
           in Some (s\<lparr>ra_mem := m, ra_drain := D_Pop (C_Copied x pos)\<rparr>))
      | C_Copied x pos \<Rightarrow>
          map_option (\<lambda>m. s\<lparr>ra_mem := m, ra_drain := D_Pop (C_Released pos), ra_popped := ra_popped s @ [x]\<rparr>)
            (atomic_store Release Consumer (Sequence (slot_index cap pos)) (pos + cap) k m)
      | C_Released pos \<Rightarrow>
          map_option (\<lambda>m. s\<lparr>ra_mem := m, ra_drain := D_Loop\<rparr>) (atomic_store Relaxed Consumer Tail (pos + 1) k m))"

definition drain_step :: "u64 \<Rightarrow> nat \<Rightarrow> 'a ra_threads \<Rightarrow> 'a ra_threads option" where
  "drain_step cap k s =
     (let m = ra_mem s in
      case ra_drain s of
        D_Loop \<Rightarrow>
          map_option (\<lambda>(stop, m). s\<lparr>ra_mem := m, ra_drain := (if stop = 0 then D_Pop C_Idle else D_Head)\<rparr>)
            (atomic_load Acquire Consumer Stop k m)
      | D_Head \<Rightarrow>
          map_option (\<lambda>(h, m). s\<lparr>ra_mem := m, ra_drain := D_Tail h\<rparr>) (atomic_load Acquire Consumer Head k m)
      | D_Tail h \<Rightarrow>
          map_option (\<lambda>(t, m). s\<lparr>ra_mem := m, ra_drain := (if h = t then D_Done else D_Pop C_Idle)\<rparr>)
            (atomic_load Acquire Consumer Tail k m)
      | D_Pop c \<Rightarrow> pop_step cap k c s
      | D_Done \<Rightarrow> None)"

inductive ra_step :: "u64 \<Rightarrow> 'a ra_threads \<Rightarrow> 'a ra_threads \<Rightarrow> bool" for cap where
  feed: "feed_step cap call k s = Some s' \<Longrightarrow> ra_step cap s s'"
| drain: "drain_step cap k s = Some s' \<Longrightarrow> ra_step cap s s'"

inductive_cases ra_stepE: "ra_step cap s s'"

text \<open>The constructor of the queue runs before the consumer thread is started.\<close>

fun init_value :: "queue_loc \<Rightarrow> u64" where
  "init_value (Sequence i) = of_nat i"
| "init_value _ = 0"

definition init_ra_threads :: "'a \<Rightarrow> 'a ra_threads" where
  "init_ra_threads empty_item =
     \<lparr>ra_mem = init_memory init_value (\<lambda>_. empty_item), ra_feed = P_Idle, ra_stopped = False,
      ra_drain = D_Loop, ra_pushed = [], ra_popped = []\<rparr>"

section \<open>Who owns a slot\<close>

text \<open>
  Slot \<open>n mod cap\<close> under ticket \<open>n\<close>. While it holds the item of ticket \<open>n\<close>, the newest sequence
  number is that of the feed thread, which knows it; all else the consumer can read there is
  the number that says that the item is not there yet; and whoever acquires the newest number
  knows of the feed thread's accesses to the storage. While the slot is free for ticket
  \<open>n\<close>, the roles are exchanged.
\<close>

definition stale :: "(queue_loc \<Rightarrow> nat) \<Rightarrow> (queue_loc, u64, 'a) memory \<Rightarrow> thread \<Rightarrow> queue_loc \<Rightarrow> u64 \<Rightarrow> bool" where
  "stale N m t l x \<longleftrightarrow>
     (\<forall>k g. mem_hist m l k = Some g \<and> vw_at (mem_view m t) l \<le> k \<and> k \<noteq> N l \<longrightarrow> mg_val g = x)"

definition published :: "(queue_loc \<Rightarrow> nat) \<Rightarrow> (queue_loc, u64, 'a) memory \<Rightarrow> thread \<Rightarrow> nat \<Rightarrow> u64 \<Rightarrow> bool" where
  "published N m t i x \<longleftrightarrow> vw_at (mem_view m t) (Sequence i) = N (Sequence i) \<and>
     (\<forall>g. mem_hist m (Sequence i) (N (Sequence i)) = Some g \<longrightarrow>
        mg_val g = x \<and> mem_access m i t \<le> vw_seen (mg_view g) t)"

definition slot_full :: "u64 \<Rightarrow> (queue_loc \<Rightarrow> nat) \<Rightarrow> (queue_loc, u64, 'a) memory \<Rightarrow> nat \<Rightarrow> bool" where
  "slot_full cap N m n \<longleftrightarrow> published N m Feed (n mod unat cap) (of_nat n + 1) \<and>
     stale N m Consumer (Sequence (n mod unat cap)) (of_nat n)"

definition slot_free :: "u64 \<Rightarrow> (queue_loc \<Rightarrow> nat) \<Rightarrow> (queue_loc, u64, 'a) memory \<Rightarrow> nat \<Rightarrow> bool" where
  "slot_free cap N m n \<longleftrightarrow> published N m Consumer (n mod unat cap) (of_nat n) \<and>
     stale N m Feed (Sequence (n mod unat cap)) (of_nat n + 1 - cap)"

text \<open>A thread that has found its slot ready may access the storage.\<close>

definition owns :: "(queue_loc \<Rightarrow> nat) \<Rightarrow> (queue_loc, u64, 'a) memory \<Rightarrow> thread \<Rightarrow> nat \<Rightarrow> bool" where
  "owns N m t i \<longleftrightarrow> vw_at (mem_view m t) (Sequence i) = N (Sequence i) \<and>
     mem_access m i (other t) \<le> vw_seen (mem_view m t) (other t)"

definition ra_ring :: "u64 \<Rightarrow> (queue_loc \<Rightarrow> nat) \<Rightarrow> (queue_loc, u64, 'a) memory \<Rightarrow> 'a list \<Rightarrow> nat \<Rightarrow> bool" where
  "ra_ring cap N m xs t \<longleftrightarrow> t \<le> length xs \<and> length xs \<le> t + unat cap \<and>
     (\<forall>n. t \<le> n \<and> n < length xs \<longrightarrow> slot_full cap N m n \<and> mem_data m (n mod unat cap) = xs ! n) \<and>
     (\<forall>n. length xs \<le> n \<and> n < t + unat cap \<longrightarrow> slot_free cap N m n)"

fun feed_ok :: "u64 \<Rightarrow> (queue_loc \<Rightarrow> nat) \<Rightarrow> (queue_loc, u64, 'a) memory \<Rightarrow> nat \<Rightarrow> nat \<Rightarrow> 'a producer \<Rightarrow> bool" where
  "feed_ok cap N m h t P_Idle \<longleftrightarrow> current N m Head = of_nat h"
| "feed_ok cap N m h t (P_Pos x pos) \<longleftrightarrow> current N m Head = of_nat h \<and> pos = of_nat h"
| "feed_ok cap N m h t (P_Free x pos) \<longleftrightarrow> current N m Head = of_nat h \<and> pos = of_nat h \<and>
     h < t + unat cap \<and> owns N m Feed (h mod unat cap)"
| "feed_ok cap N m h t (P_Stored x pos) \<longleftrightarrow> current N m Head = of_nat h \<and> pos = of_nat h \<and>
     h < t + unat cap \<and> owns N m Feed (h mod unat cap) \<and> mem_data m (h mod unat cap) = x"
| "feed_ok cap N m h t (P_Published pos) \<longleftrightarrow> current N m Head = pos \<and> pos + 1 = of_nat h"

fun pop_ok :: "u64 \<Rightarrow> (queue_loc \<Rightarrow> nat) \<Rightarrow> (queue_loc, u64, 'a) memory \<Rightarrow> 'a list \<Rightarrow> nat \<Rightarrow> 'a consumer \<Rightarrow> bool" where
  "pop_ok cap N m xs t C_Idle \<longleftrightarrow> current N m Tail = of_nat t"
| "pop_ok cap N m xs t (C_Pos pos) \<longleftrightarrow> current N m Tail = of_nat t \<and> pos = of_nat t"
| "pop_ok cap N m xs t (C_Ready pos) \<longleftrightarrow> current N m Tail = of_nat t \<and> pos = of_nat t \<and>
     t < length xs \<and> owns N m Consumer (t mod unat cap)"
| "pop_ok cap N m xs t (C_Copied x pos) \<longleftrightarrow> current N m Tail = of_nat t \<and> pos = of_nat t \<and>
     t < length xs \<and> owns N m Consumer (t mod unat cap) \<and> x = xs ! t"
| "pop_ok cap N m xs t (C_Released pos) \<longleftrightarrow> current N m Tail = pos \<and> pos + 1 = of_nat t"

text \<open>
  Once the consumer has seen \<^verbatim>\<open>stop_\<close>, the feed thread makes no more calls and the consumer
  knows its last position.
\<close>

fun drain_ok :: "u64 \<Rightarrow> (queue_loc \<Rightarrow> nat) \<Rightarrow> (queue_loc, u64, 'a) memory \<Rightarrow> 'a list \<Rightarrow> nat \<Rightarrow> bool \<Rightarrow> 'a drain \<Rightarrow> bool" where
  "drain_ok cap N m xs t stopped D_Loop \<longleftrightarrow> current N m Tail = of_nat t"
| "drain_ok cap N m xs t stopped D_Head \<longleftrightarrow> current N m Tail = of_nat t \<and> stopped \<and>
     vw_at (mem_view m Consumer) Head = N Head"
| "drain_ok cap N m xs t stopped (D_Tail h) \<longleftrightarrow> current N m Tail = of_nat t \<and> stopped \<and> h = of_nat (length xs)"
| "drain_ok cap N m xs t stopped (D_Pop c) \<longleftrightarrow> pop_ok cap N m xs t c"
| "drain_ok cap N m xs t stopped D_Done \<longleftrightarrow> current N m Tail = of_nat t \<and> stopped \<and> t = length xs"

definition stop_ok :: "(queue_loc \<Rightarrow> nat) \<Rightarrow> (queue_loc, u64, 'a) memory \<Rightarrow> bool \<Rightarrow> bool" where
  "stop_ok N m stopped \<longleftrightarrow> (\<forall>k g. mem_hist m Stop k = Some g \<and> mg_val g \<noteq> 0 \<longrightarrow>
     stopped \<and> vw_at (mg_view g) Head = N Head) \<and> (stopped \<longrightarrow> current N m Stop \<noteq> 0)"

definition own_locs :: "(queue_loc \<Rightarrow> nat) \<Rightarrow> (queue_loc, u64, 'a) memory \<Rightarrow> bool" where
  "own_locs N m \<longleftrightarrow> vw_at (mem_view m Feed) Head = N Head \<and> vw_at (mem_view m Feed) Stop = N Stop \<and>
     vw_at (mem_view m Consumer) Tail = N Tail"

definition ra_inv_at :: "u64 \<Rightarrow> (queue_loc \<Rightarrow> nat) \<Rightarrow> 'a ra_threads \<Rightarrow> bool" where
  "ra_inv_at cap N s \<longleftrightarrow> newest N (ra_mem s) \<and> own_locs N (ra_mem s) \<and> stop_ok N (ra_mem s) (ra_stopped s) \<and>
     \<not> mem_race (ra_mem s) \<and> ra_popped s = take (length (ra_popped s)) (ra_pushed s) \<and>
     ra_ring cap N (ra_mem s) (ra_pushed s) (length (ra_popped s)) \<and>
     feed_ok cap N (ra_mem s) (length (ra_pushed s)) (length (ra_popped s)) (ra_feed s) \<and>
     drain_ok cap N (ra_mem s) (ra_pushed s) (length (ra_popped s)) (ra_stopped s) (ra_drain s) \<and>
     (ra_stopped s \<longrightarrow> ra_feed s = P_Idle)"

definition ra_inv :: "u64 \<Rightarrow> 'a ra_threads \<Rightarrow> bool" where
  "ra_inv cap s \<longleftrightarrow> cap_ok cap \<and> (\<exists>N. ra_inv_at cap N s)"

lemma ra_inv_init: "cap_ok cap \<Longrightarrow> ra_inv cap (init_ra_threads d)"
  unfolding ra_inv_def ra_inv_at_def
  using newest_init [of init_value "\<lambda>_. d"]
  by (intro conjI exI [of _ "\<lambda>_. 0"])
    (auto simp: init_ra_threads_def own_locs_def stop_ok_def ra_ring_def slot_free_def published_def
      stale_def current_def init_memory_def no_view_def split: if_splits)

section \<open>What an access leaves alone\<close>

subsection \<open>Loads\<close>

text \<open>\<open>grows N t m m'\<close>: only the view of \<open>t\<close> has changed, and it has grown.\<close>

definition grows :: "(queue_loc \<Rightarrow> nat) \<Rightarrow> thread \<Rightarrow> (queue_loc, u64, 'a) memory \<Rightarrow> (queue_loc, u64, 'a) memory \<Rightarrow> bool" where
  "grows N t m m' \<longleftrightarrow> (\<exists>v. m' = m\<lparr>mem_view := (mem_view m)(t := v)\<rparr> \<and> view_le (mem_view m t) v \<and> view_below N v)"

lemma grows_at:
  assumes "grows N t m m'" "vw_at (mem_view m u) l = N l"
  shows "vw_at (mem_view m' u) l = N l"
proof -
  obtain v where "m' = m\<lparr>mem_view := (mem_view m)(t := v)\<rparr>" "vw_at (mem_view m t) l \<le> vw_at v l" "vw_at v l \<le> N l"
    using assms(1) unfolding grows_def view_le_def view_below_def by blast
  then show ?thesis using assms(2) by (cases "u = t") simp_all
qed

lemma grows_view:
  assumes "grows N t m m'"
  shows "vw_at (mem_view m u) l \<le> vw_at (mem_view m' u) l" "vw_seen (mem_view m u) w \<le> vw_seen (mem_view m' u) w"
    "mem_hist m' = mem_hist m" "mem_data m' = mem_data m" "mem_access m' = mem_access m" "mem_race m' = mem_race m"
  using assms unfolding grows_def view_le_def by auto

lemma grows_current: "grows N t m m' \<Longrightarrow> current N m' = current N m"
  by (auto simp: grows_def current_def)

lemma grows_stale: "grows N t m m' \<Longrightarrow> stale N m u l x \<Longrightarrow> stale N m' u l x"
  unfolding stale_def by (simp add: grows_view(3)) (blast intro: order_trans grows_view(1))

lemma grows_published: "grows N t m m' \<Longrightarrow> published N m u i x \<Longrightarrow> published N m' u i x"
  unfolding published_def by (simp add: grows_view(3,5) grows_at)

lemma grows_owns: "grows N t m m' \<Longrightarrow> owns N m u i \<Longrightarrow> owns N m' u i"
  unfolding owns_def by (auto simp: grows_view(5) grows_at intro: order_trans grows_view(2))

lemma grows_ring: "grows N t m m' \<Longrightarrow> ra_ring cap N m xs n \<Longrightarrow> ra_ring cap N m' xs n"
  unfolding ra_ring_def slot_full_def slot_free_def by (simp add: grows_stale grows_published grows_view(4))

lemma grows_feed: "grows N t m m' \<Longrightarrow> feed_ok cap N m h n p \<Longrightarrow> feed_ok cap N m' h n p"
  by (cases p) (simp_all add: grows_current grows_owns grows_view(4))

lemma grows_pop: "grows N t m m' \<Longrightarrow> pop_ok cap N m xs n c \<Longrightarrow> pop_ok cap N m' xs n c"
  by (cases c) (simp_all add: grows_current grows_owns)

lemma grows_drain: "grows N t m m' \<Longrightarrow> drain_ok cap N m xs n b d \<Longrightarrow> drain_ok cap N m' xs n b d"
  by (cases d) (simp_all add: grows_current grows_pop grows_at)

lemma grows_newest: "grows N t m m' \<Longrightarrow> newest N m \<Longrightarrow> newest N m'"
  by (auto simp: grows_def intro: newest_view)

lemma grows_inv:
  assumes g: "grows N t (ra_mem s) m'" and inv: "ra_inv_at cap N s"
  shows "ra_inv_at cap N (s\<lparr>ra_mem := m'\<rparr>)"
proof -
  have "own_locs N m'" using inv g by (simp add: ra_inv_at_def own_locs_def grows_at)
  moreover have "stop_ok N m' (ra_stopped s)" using inv grows_view(3) [OF g] grows_current [OF g]
    unfolding ra_inv_at_def stop_ok_def by metis
  ultimately show ?thesis
    using inv grows_view(6) [OF g] by (simp add: ra_inv_at_def grows_newest [OF g] grows_ring [OF g] grows_feed [OF g] grows_drain [OF g])
qed

text \<open>
  What a load returns: a value that is current, or one that the view does not exclude; when
  the view is up to date, the current one.
\<close>

lemma load_grows:
  assumes "atomic_load ord t l k m = Some (x, m')" "newest N m"
  shows "grows N t m m'" "vw_at (mem_view m t) l = N l \<Longrightarrow> x = current N m l"
proof -
  obtain g v where g: "mem_hist m l k = Some g" "x = mg_val g" "vw_at (mem_view m t) l \<le> k" "k \<le> N l"
    "m' = m\<lparr>mem_view := (mem_view m)(t := v)\<rparr>" "view_le (mem_view m t) v" "view_below N v"
    using atomic_loadE [OF assms] by metis
  then show "grows N t m m'" by (auto simp: grows_def)
  show "vw_at (mem_view m t) l = N l \<Longrightarrow> x = current N m l" using g(1-4) by (simp add: current_def)
qed

text \<open>An acquire load of the sequence number of a slot the other thread has published.\<close>

lemma load_sequence:
  assumes l: "atomic_load Acquire t (Sequence i) k m = Some (x, m')" and N: "newest N m"
    and p: "published N m (other t) i y" and s: "stale N m t (Sequence i) z" and ne: "x \<noteq> z"
  shows "x = y" "owns N m' t i"
proof -
  obtain g v where g: "mem_hist m (Sequence i) k = Some g" "x = mg_val g" "vw_at (mem_view m t) (Sequence i) \<le> k"
    "m' = m\<lparr>mem_view := (mem_view m)(t := v)\<rparr>" "view_below N v" "k \<le> vw_at v (Sequence i)" "view_le (mg_view g) v"
    using atomic_loadE [OF l N] by metis
  have k: "k = N (Sequence i)" using s g(1-3) ne unfolding stale_def by blast
  then show "x = y" using p g(1,2) by (simp add: published_def)
  have "mem_access m i (other t) \<le> vw_seen (mg_view g) (other t)" using p g(1) k by (simp add: published_def)
  then have "mem_access m i (other t) \<le> vw_seen v (other t)" using g(7) by (meson view_le_def order_trans)
  then show "owns N m' t i" using g(4,5,6) k by (simp add: owns_def view_below_def antisym)
qed

subsection \<open>Stores\<close>

lemma store_frame:
  assumes "atomic_store ord t l x k m = Some m'" "newest N m" "vw_at (mem_view m t) l = N l"
  shows "newest (N(l := k)) m'" "mem_data m' = mem_data m" "mem_access m' = mem_access m" "mem_race m' = mem_race m"
    "vw_seen (mem_view m' u) = vw_seen (mem_view m u)"
    "vw_at (mem_view m' u) = (if u = t then (vw_at (mem_view m t))(l := k) else vw_at (mem_view m u))"
    "l' \<noteq> l \<Longrightarrow> mem_hist m' l' = mem_hist m l'"
    "current (N(l := k)) m' = (current N m)(l := x)"
  by (rule atomic_storeE [OF assms], simp add: current_def fun_eq_iff)+

lemma store_other:
  assumes "atomic_store ord t l x k m = Some m'" "newest N m" "vw_at (mem_view m t) l = N l"
  shows "l' \<noteq> l \<Longrightarrow> stale N m u l' y \<Longrightarrow> stale (N(l := k)) m' u l' y"
    "Sequence i \<noteq> l \<Longrightarrow> published N m u i y \<Longrightarrow> published (N(l := k)) m' u i y"
    "Sequence i \<noteq> l \<Longrightarrow> owns N m u i \<Longrightarrow> owns (N(l := k)) m' u i"
  using store_frame [OF assms] by (auto simp: stale_def published_def owns_def split: if_splits)

lemma store_ring:
  assumes "atomic_store ord t l x k m = Some m'" "newest N m" "vw_at (mem_view m t) l = N l"
    "\<And>i. Sequence i \<noteq> l" "ra_ring cap N m xs n"
  shows "ra_ring cap (N(l := k)) m' xs n"
  using assms(4,5) store_other(1,2) [OF assms(1-3)] store_frame(2) [OF assms(1-3)]
  unfolding ra_ring_def slot_full_def slot_free_def by simp

text \<open>A release store of the sequence number by the thread that owns the slot.\<close>

lemma store_publishes:
  assumes st: "atomic_store Release t (Sequence i) x k m = Some m'" and N: "newest N m"
    and o: "owns N m t i" and p: "published N m (other t) i y"
  shows "published (N(Sequence i := k)) m' t i x" "stale (N(Sequence i := k)) m' (other t) (Sequence i) y"
proof -
  have v: "vw_at (mem_view m t) (Sequence i) = N (Sequence i)" using o by (simp add: owns_def)
  obtain g where g: "N (Sequence i) < k" "mg_val g = x" "vw_seen (mg_view g) = vw_seen (mem_view m t)"
    "mem_hist m' (Sequence i) = (mem_hist m (Sequence i))(k \<mapsto> g)"
    by (rule atomic_storeE [OF st N v]) (rule that; simp)
  note f = store_frame [OF st N v]
  show "published (N(Sequence i := k)) m' t i x"
    using g newestD(4) [OF N] f(3,6) by (simp add: published_def)
  have t: "other t \<noteq> t" by (cases t) simp_all
  have "mg_val h = y" if "mem_hist m (Sequence i) j = Some h" "N (Sequence i) \<le> j" for j h
    using newestD(1) [OF N that(1)] that p by (simp add: published_def)
  then show "stale (N(Sequence i := k)) m' (other t) (Sequence i) y"
    using p g(4) f(6) t by (auto simp: stale_def published_def split: if_splits)
qed

subsection \<open>Plain accesses\<close>

lemma touch_frame:
  assumes "owns N m t i"
  shows "mem_hist (touch t i m) = mem_hist m" "mem_data (touch t i m) = mem_data m"
    "mem_race (touch t i m) = mem_race m" "vw_at (mem_view (touch t i m) u) = vw_at (mem_view m u)"
    "current N (touch t i m) = current N m"
  using assms by (auto simp: touch_def Let_def owns_def current_def fun_eq_iff)

lemma touch_other:
  assumes "owns N m t i"
  shows "stale N m u l y \<Longrightarrow> stale N (touch t i m) u l y"
    "(u, j) \<noteq> (t, i) \<Longrightarrow> published N m u j y \<Longrightarrow> published N (touch t i m) u j y"
    "(other u, j) \<noteq> (t, i) \<Longrightarrow> owns N m u j \<Longrightarrow> owns N (touch t i m) u j"
  using touch_frame [OF assms]
  by (auto simp: stale_def published_def owns_def touch_def Let_def split: if_splits)

lemma data_frame [simp]:
  "stale N (m\<lparr>mem_data := d\<rparr>) u l y = stale N m u l y" "published N (m\<lparr>mem_data := d\<rparr>) u i y = published N m u i y"
  "owns N (m\<lparr>mem_data := d\<rparr>) u i = owns N m u i" "current N (m\<lparr>mem_data := d\<rparr>) = current N m"
  "own_locs N (m\<lparr>mem_data := d\<rparr>) = own_locs N m" "stop_ok N (m\<lparr>mem_data := d\<rparr>) b = stop_ok N m b"
  by (auto simp: current_def stale_def published_def owns_def own_locs_def stop_ok_def)

lemma touch_locs:
  assumes "owns N m t i"
  shows "own_locs N (touch t i m) = own_locs N m" "stop_ok N (touch t i m) b = stop_ok N m b"
  using touch_frame [OF assms] by (simp_all add: own_locs_def stop_ok_def)

text \<open>Tickets less than \<open>cap\<close> apart have different slots.\<close>

lemma ticket_slots: "a < b \<Longrightarrow> b < a + n \<Longrightarrow> a mod n \<noteq> b mod (n :: nat)"
  using ticket_slot_less [of 0 "b - a" n a] by simp

section \<open>The feed thread\<close>

lemma ra_invD:
  assumes "ra_inv_at cap N s"
  shows "newest N (ra_mem s)" "own_locs N (ra_mem s)" "stop_ok N (ra_mem s) (ra_stopped s)" "\<not> mem_race (ra_mem s)"
    "ra_popped s = take (length (ra_popped s)) (ra_pushed s)"
    "ra_ring cap N (ra_mem s) (ra_pushed s) (length (ra_popped s))"
    "feed_ok cap N (ra_mem s) (length (ra_pushed s)) (length (ra_popped s)) (ra_feed s)"
    "drain_ok cap N (ra_mem s) (ra_pushed s) (length (ra_popped s)) (ra_stopped s) (ra_drain s)"
    "ra_stopped s \<Longrightarrow> ra_feed s = P_Idle"
  using assms unfolding ra_inv_at_def by blast+

lemma ringD:
  assumes "ra_ring cap N m xs t"
  shows "t \<le> length xs" "length xs \<le> t + unat cap"
    "t \<le> n \<Longrightarrow> n < length xs \<Longrightarrow> slot_full cap N m n" "t \<le> n \<Longrightarrow> n < length xs \<Longrightarrow> mem_data m (n mod unat cap) = xs ! n"
    "length xs \<le> n \<Longrightarrow> n < t + unat cap \<Longrightarrow> slot_free cap N m n"
  using assms unfolding ra_ring_def by blast+

lemma slotD:
  "slot_full cap N m n \<Longrightarrow> published N m Feed (n mod unat cap) (of_nat n + 1)"
  "slot_full cap N m n \<Longrightarrow> stale N m Consumer (Sequence (n mod unat cap)) (of_nat n)"
  "slot_free cap N m n \<Longrightarrow> published N m Consumer (n mod unat cap) (of_nat n)"
  "slot_free cap N m n \<Longrightarrow> stale N m Feed (Sequence (n mod unat cap)) (of_nat n + 1 - cap)"
  unfolding slot_full_def slot_free_def by blast+

lemma cap_not_1: "cap_ok cap \<Longrightarrow> cap \<noteq> 1"
  using cap_bounds [of cap] by auto

text \<open>
  The feed thread finds its slot free exactly when it reads the consumer's number, and then
  it owns the slot; when the ring is full it reads its own number.
\<close>

lemma feed_finds_free:
  assumes cap: "cap_ok cap" and N: "newest N m" and r: "ra_ring cap N m xs t"
    and l: "atomic_load Acquire Feed (Sequence (length xs mod unat cap)) k m = Some (of_nat (length xs), m')"
  shows "length xs < t + unat cap" "owns N m' Feed (length xs mod unat cap)"
proof -
  show lt: "length xs < t + unat cap"
  proof (rule ccontr)
    assume "\<not> length xs < t + unat cap"
    then have h: "length xs = t + unat cap" using ringD(2) [OF r] by simp
    then have p: "published N m Feed (length xs mod unat cap) (of_nat t + 1)"
      using slotD(1) [OF ringD(3) [OF r, of t]] cap_bounds [OF cap] by simp
    obtain g where "mem_hist m (Sequence (length xs mod unat cap)) (N (Sequence (length xs mod unat cap))) = Some g"
      "mg_val g = current N m (Sequence (length xs mod unat cap))" using newest_message [OF N] .
    then have "current N m (Sequence (length xs mod unat cap)) = of_nat t + 1" using p unfolding published_def by metis
    then have "of_nat (length xs) = (of_nat t + 1 :: u64)" using load_grows(2) [OF l N] p by (simp add: published_def)
    then show False using cap_not_1 [OF cap] by (simp add: h)
  qed
  note f = ringD(5) [OF r order_refl lt]
  have "(of_nat (length xs) :: u64) \<noteq> of_nat (length xs) + 1 - cap" using cap_not_1 [OF cap] by simp
  then show "owns N m' Feed (length xs mod unat cap)"
    using load_sequence(2) [OF l N, of _ "of_nat (length xs) + 1 - cap"] slotD(3,4) [OF f] by simp
qed

lemma inv_feed:
  assumes "ra_inv_at cap N s" "feed_ok cap N (ra_mem s) (length (ra_pushed s)) (length (ra_popped s)) p"
    "ra_stopped s \<Longrightarrow> p = P_Idle"
  shows "ra_inv_at cap N (s\<lparr>ra_feed := p\<rparr>)"
  using assms by (simp add: ra_inv_at_def)

lemma feed_load_inv:
  assumes cap: "cap_ok cap" and inv: "ra_inv_at cap N s" and st: "feed_step cap call k s = Some s'"
    and pc: "ra_feed s = P_Idle \<and> call \<noteq> None \<or> ra_feed s = P_Pos x pos"
  shows "ra_inv_at cap N s'"
proof -
  note d = ra_invD [OF inv]
  let ?h = "length (ra_pushed s)" and ?t = "length (ra_popped s)"
  show ?thesis
  proof (cases "ra_feed s = P_Idle")
    case True
    then obtain item p m' where p: "atomic_load Relaxed Feed Head k (ra_mem s) = Some (p, m')"
      "s' = (s\<lparr>ra_mem := m'\<rparr>)\<lparr>ra_feed := P_Pos item p\<rparr>" "\<not> ra_stopped s"
      using st pc by (auto simp: feed_step_def Let_def split: if_splits)
    have "p = of_nat ?h" using load_grows(2) [OF p(1) d(1)] d(2,7) True by (simp add: own_locs_def)
    then show ?thesis unfolding p(2) using d(7) True p(3) grows_current [OF load_grows(1) [OF p(1) d(1)]]
      by (intro inv_feed grows_inv [OF load_grows(1) [OF p(1) d(1)] inv]) simp_all
  next
    case False
    then have P: "ra_feed s = P_Pos x pos" "pos = of_nat ?h" "\<not> ra_stopped s" using pc d(7,9) by auto
    then obtain y m' where y: "atomic_load Acquire Feed (Sequence (?h mod unat cap)) k (ra_mem s) = Some (y, m')"
      "s' = (s\<lparr>ra_mem := m'\<rparr>)\<lparr>ra_feed := (if y - pos \<noteq> 0 then P_Idle else P_Free x pos)\<rparr>"
      using st by (auto simp: feed_step_def Let_def slot_index_ticket [OF cap] split: if_splits)
    have "?h < ?t + unat cap \<and> owns N m' Feed (?h mod unat cap)" if "y = of_nat ?h"
      using feed_finds_free [OF cap d(1,6)] y(1) that by blast
    then show ?thesis unfolding y(2) using d(7) P grows_current [OF load_grows(1) [OF y(1) d(1)]]
      by (intro inv_feed grows_inv [OF load_grows(1) [OF y(1) d(1)] inv]) auto
  qed
qed

lemma feed_write_inv:
  assumes cap: "cap_ok cap" and inv: "ra_inv_at cap N s" and st: "feed_step cap call k s = Some s'"
    and pc: "ra_feed s = P_Free x pos"
  shows "ra_inv_at cap N s'"
proof -
  note d = ra_invD [OF inv]
  let ?h = "length (ra_pushed s)" and ?t = "length (ra_popped s)" and ?m = "ra_mem s"
  let ?i = "?h mod unat cap"
  have o: "owns N ?m Feed ?i" and lt: "?h < ?t + unat cap" and pos: "pos = of_nat ?h" using d(7) pc by auto
  have s': "s' = s\<lparr>ra_mem := (touch Feed ?i ?m)\<lparr>mem_data := (mem_data ?m)(?i := x)\<rparr>, ra_feed := P_Stored x pos\<rparr>"
    using st pc by (simp add: feed_step_def data_write_def Let_def pos slot_index_ticket [OF cap])
  note f = touch_frame [OF o] and u = touch_other [OF o] and lo = touch_locs [OF o]
  have ne: "n mod unat cap \<noteq> ?i" if "?t \<le> n" "n < ?h" for n using ticket_slots [of n ?h "unat cap"] that lt by simp
  have "ra_ring cap N (ra_mem s') (ra_pushed s) ?t"
    using d(6) ne u(1,2) unfolding ra_ring_def slot_full_def slot_free_def s' by simp
  moreover have "pop_ok cap N (ra_mem s') (ra_pushed s) ?t c" if "pop_ok cap N ?m (ra_pushed s) ?t c" for c
    using that ne [of ?t] u(3) [of Consumer "?t mod unat cap"] f(5) unfolding s' by (cases c) auto
  then have "drain_ok cap N (ra_mem s') (ra_pushed s) ?t (ra_stopped s) (ra_drain s)"
    using d(8) f(4,5) unfolding s' by (cases "ra_drain s") auto
  moreover have "owns N (touch Feed ?i ?m) Feed ?i" "\<not> ra_stopped s" using u(3) o d(9) pc by auto
  ultimately show ?thesis unfolding ra_inv_at_def using d f(3,5) lo newest_touch [OF d(1)] pc pos lt
    by (simp add: s')
qed

lemma feed_publish_inv:
  assumes cap: "cap_ok cap" and inv: "ra_inv_at cap N s" and st: "feed_step cap call k s = Some s'"
    and pc: "ra_feed s = P_Stored x pos"
  shows "ra_inv_at cap (N(Sequence (length (ra_pushed s) mod unat cap) := k)) s'"
proof -
  note d = ra_invD [OF inv]
  let ?h = "length (ra_pushed s)" and ?t = "length (ra_popped s)" and ?m = "ra_mem s"
  let ?i = "?h mod unat cap" and ?N = "N(Sequence (?h mod unat cap) := k)"
  have o: "owns N ?m Feed ?i" and lt: "?h < ?t + unat cap" and pos: "pos = of_nat ?h" and x: "mem_data ?m ?i = x"
    using d(7) pc by auto
  obtain m' where m': "atomic_store Release Feed (Sequence ?i) (of_nat ?h + 1) k ?m = Some m'"
    "s' = s\<lparr>ra_mem := m', ra_feed := P_Published pos, ra_pushed := ra_pushed s @ [x]\<rparr>"
    using st pc by (auto simp: feed_step_def Let_def pos slot_index_ticket [OF cap])
  have v: "vw_at (mem_view ?m Feed) (Sequence ?i) = N (Sequence ?i)" using o by (simp add: owns_def)
  note f = store_frame [OF m'(1) d(1) v] and u = store_other [OF m'(1) d(1) v]
  have ne: "n mod unat cap \<noteq> ?i" if "?t \<le> n" "n < ?t + unat cap" "n \<noteq> ?h" for n
    using ticket_slots [of n ?h "unat cap"] ticket_slots [of ?h n "unat cap"] that lt ringD(1) [OF d(6)] by linarith
  have "slot_full cap ?N m' ?h"
    using store_publishes [OF m'(1) d(1) o] slotD(3) [OF ringD(5) [OF d(6) order_refl lt]]
    by (simp add: slot_full_def)
  moreover have "slot_full cap ?N m' n \<and> mem_data m' (n mod unat cap) = ra_pushed s ! n" if "?t \<le> n" "n < ?h" for n
    using ringD(3,4) [OF d(6) that] ne [of n] that lt u(1,2) f(2) by (simp add: slot_full_def)
  moreover have "slot_free cap ?N m' n" if "?h < n" "n < ?t + unat cap" for n
    using ringD(5) [OF d(6), of n] ne [of n] that ringD(1) [OF d(6)] u(1,2) by (simp add: slot_free_def)
  ultimately have "ra_ring cap ?N m' (ra_pushed s @ [x]) ?t"
    using lt ringD(1) [OF d(6)] x f(2) unfolding ra_ring_def by (auto simp: nth_append less_Suc_eq)
  moreover have "pop_ok cap ?N m' (ra_pushed s @ [x]) ?t c" if "pop_ok cap N ?m (ra_pushed s) ?t c" for c
    using that ne [of ?t] lt u(3) [of "?t mod unat cap"] f(8) by (cases c) (auto simp: nth_append)
  then have "drain_ok cap ?N m' (ra_pushed s @ [x]) ?t (ra_stopped s) (ra_drain s)"
    using d(8,9) pc f(8) by (cases "ra_drain s") auto
  moreover have "stop_ok ?N m' (ra_stopped s)" "own_locs ?N m'"
    using d(2,3) f(6,7,8) by (auto simp: stop_ok_def own_locs_def)
  moreover have "ra_popped s = take ?t (ra_pushed s @ [x])" using d(5) ringD(1) [OF d(6)] by simp
  moreover have "current N ?m Head = pos" "\<not> ra_stopped s" using d(7,9) pc pos by auto
  ultimately show ?thesis unfolding ra_inv_at_def m'(2) using d(4) f(1,4,8) pos by simp
qed

lemma feed_position_inv:
  assumes inv: "ra_inv_at cap N s" and st: "feed_step cap call k s = Some s'" and pc: "ra_feed s = P_Published pos"
  shows "ra_inv_at cap (N(Head := k)) s'"
proof -
  note d = ra_invD [OF inv]
  let ?h = "length (ra_pushed s)" and ?t = "length (ra_popped s)" and ?m = "ra_mem s" and ?N = "N(Head := k)"
  obtain m' where m': "atomic_store Relaxed Feed Head (pos + 1) k ?m = Some m'"
    "s' = s\<lparr>ra_mem := m', ra_feed := P_Idle\<rparr>"
    using st pc by (auto simp: feed_step_def Let_def)
  have v: "vw_at (mem_view ?m Feed) Head = N Head" and pos: "pos + 1 = of_nat ?h" and ns: "\<not> ra_stopped s"
    using d(2,7,9) pc by (auto simp: own_locs_def)
  note f = store_frame [OF m'(1) d(1) v] and u = store_other [OF m'(1) d(1) v]
  have r: "ra_ring cap ?N m' (ra_pushed s) ?t" by (rule store_ring [OF m'(1) d(1) v _ d(6)]) simp
  have "pop_ok cap ?N m' (ra_pushed s) ?t c" if "pop_ok cap N ?m (ra_pushed s) ?t c" for c
    using that u(3) f(8) by (cases c) auto
  then have dr: "drain_ok cap ?N m' (ra_pushed s) ?t (ra_stopped s) (ra_drain s)"
    using d(8) f(8) ns by (cases "ra_drain s") auto
  have "stop_ok ?N m' (ra_stopped s)" "own_locs ?N m'"
    using d(2,3) f(6,7,8) ns by (auto simp: stop_ok_def own_locs_def)
  then show ?thesis unfolding ra_inv_at_def m'(2) using d(4,5) f(1,4,8) pos r dr by simp
qed

lemma feed_stop_inv:
  assumes inv: "ra_inv_at cap N s" and st: "feed_step cap None k s = Some s'" and pc: "ra_feed s = P_Idle"
  shows "ra_inv_at cap (N(Stop := k)) s'"
proof -
  note d = ra_invD [OF inv]
  let ?h = "length (ra_pushed s)" and ?t = "length (ra_popped s)" and ?m = "ra_mem s" and ?N = "N(Stop := k)"
  obtain m' where m': "atomic_store Release Feed Stop 1 k ?m = Some m'"
    "s' = s\<lparr>ra_mem := m', ra_stopped := True\<rparr>" and ns: "\<not> ra_stopped s"
    using st pc by (auto simp: feed_step_def Let_def split: if_splits)
  have v: "vw_at (mem_view ?m Feed) Stop = N Stop" using d(2) by (auto simp: own_locs_def)
  note f = store_frame [OF m'(1) d(1) v] and u = store_other [OF m'(1) d(1) v]
  have r: "ra_ring cap ?N m' (ra_pushed s) ?t" by (rule store_ring [OF m'(1) d(1) v _ d(6)]) simp
  have "pop_ok cap ?N m' (ra_pushed s) ?t c" if "pop_ok cap N ?m (ra_pushed s) ?t c" for c
    using that u(3) f(8) by (cases c) auto
  then have dr: "drain_ok cap ?N m' (ra_pushed s) ?t True (ra_drain s)"
    using d(8) f(8) ns by (cases "ra_drain s") auto
  obtain g where g: "mem_hist m' Stop = (mem_hist ?m Stop)(k \<mapsto> g)" "vw_at (mg_view g) Head = N Head"
    by (rule atomic_storeE [OF m'(1) d(1) v]) (rule that, simp, use d(2) in \<open>simp add: own_locs_def\<close>)
  then have "stop_ok ?N m' True" using d(3) ns f(8) unfolding stop_ok_def by auto
  moreover have "own_locs ?N m'" using d(2) f(6) by (simp add: own_locs_def)
  ultimately show ?thesis unfolding ra_inv_at_def m'(2) using d(4,5,7) f(1,4,8) pc r dr by simp
qed

lemma feed_step_inv:
  assumes "cap_ok cap" "ra_inv_at cap N s" "feed_step cap call k s = Some s'"
  shows "\<exists>N. ra_inv_at cap N s'"
  using assms feed_load_inv [OF assms] feed_write_inv [OF assms] feed_publish_inv [OF assms]
    feed_position_inv [OF assms(2,3)] feed_stop_inv [of cap N s k s']
  by (cases "ra_feed s"; cases call) blast+

section \<open>The consumer thread\<close>

lemma consumer_finds_item:
  assumes cap: "cap_ok cap" and N: "newest N m" and r: "ra_ring cap N m xs t"
    and l: "atomic_load Acquire Consumer (Sequence (t mod unat cap)) k m = Some (of_nat t + 1, m')"
  shows "t < length xs" "owns N m' Consumer (t mod unat cap)"
proof -
  show lt: "t < length xs"
  proof (rule ccontr)
    assume "\<not> t < length xs"
    then have p: "published N m Consumer (t mod unat cap) (of_nat t)"
      using slotD(3) [OF ringD(5) [OF r, of t]] cap_bounds [OF cap] by simp
    obtain g where "mem_hist m (Sequence (t mod unat cap)) (N (Sequence (t mod unat cap))) = Some g"
      "mg_val g = current N m (Sequence (t mod unat cap))" using newest_message [OF N] .
    then have "current N m (Sequence (t mod unat cap)) = of_nat t" using p unfolding published_def by metis
    then have "of_nat t + 1 = (of_nat t :: u64)" using load_grows(2) [OF l N] p by (simp add: published_def)
    then show False by simp
  qed
  show "owns N m' Consumer (t mod unat cap)"
    using load_sequence(2) [OF l N, of _ "of_nat t"] slotD(1,2) [OF ringD(3) [OF r order_refl lt]] by simp
qed

lemma inv_drain:
  assumes "ra_inv_at cap N s" "drain_ok cap N (ra_mem s) (ra_pushed s) (length (ra_popped s)) (ra_stopped s) c"
  shows "ra_inv_at cap N (s\<lparr>ra_drain := c\<rparr>)"
  using assms by (simp add: ra_inv_at_def)

text \<open>A load step: the view grows, and the next program point has to be justified.\<close>

lemma drain_load_inv:
  assumes inv: "ra_inv_at cap N s" and l: "atomic_load ord Consumer l k (ra_mem s) = Some (x, m')"
    and ok: "drain_ok cap N m' (ra_pushed s) (length (ra_popped s)) (ra_stopped s) c"
  shows "ra_inv_at cap N (s\<lparr>ra_mem := m', ra_drain := c\<rparr>)"
  using inv_drain [OF grows_inv [OF load_grows(1) [OF l ra_invD(1) [OF inv]] inv], of c] ok by simp

lemma stop_seen:
  assumes "ra_inv_at cap N s" "atomic_load Acquire Consumer Stop k (ra_mem s) = Some (x, m')" "x \<noteq> 0"
  shows "ra_stopped s" "vw_at (mem_view m' Consumer) Head = N Head"
proof -
  obtain g v where g: "mem_hist (ra_mem s) Stop k = Some g" "x = mg_val g"
    "m' = (ra_mem s)\<lparr>mem_view := (mem_view (ra_mem s))(Consumer := v)\<rparr>" "view_below N v" "view_le (mg_view g) v"
    using atomic_loadE [OF assms(2) ra_invD(1) [OF assms(1)]] by metis
  have h: "ra_stopped s \<and> vw_at (mg_view g) Head = N Head"
    using ra_invD(3) [OF assms(1)] g(1,2) assms(3) unfolding stop_ok_def by blast
  then show "ra_stopped s" ..
  have "vw_at (mg_view g) Head \<le> vw_at v Head" "vw_at v Head \<le> N Head" using g(4,5) by (simp_all add: view_le_def view_below_def)
  then show "vw_at (mem_view m' Consumer) Head = N Head" using h g(3) by simp
qed

lemma drain_loop_inv:
  assumes cap: "cap_ok cap" and inv: "ra_inv_at cap N s" and st: "drain_step cap k s = Some s'"
    and pc: "ra_drain s = D_Loop \<or> ra_drain s = D_Head \<or> ra_drain s = D_Tail h"
  shows "ra_inv_at cap N s'"
proof -
  note d = ra_invD [OF inv]
  let ?h = "length (ra_pushed s)" and ?t = "length (ra_popped s)" and ?m = "ra_mem s"
  have tail: "current N ?m Tail = of_nat ?t" using d(8) pc by auto
  consider (loop) "ra_drain s = D_Loop" | (head) "ra_drain s = D_Head" | (tail) "ra_drain s = D_Tail h" using pc by blast
  then show ?thesis
  proof cases
    case loop
    then obtain x m' where l: "atomic_load Acquire Consumer Stop k ?m = Some (x, m')"
      "s' = s\<lparr>ra_mem := m', ra_drain := (if x = 0 then D_Pop C_Idle else D_Head)\<rparr>"
      using st by (auto simp: drain_step_def Let_def)
    have "current N m' Tail = of_nat ?t" using tail grows_current [OF load_grows(1) [OF l(1) d(1)]] by simp
    then show ?thesis unfolding l(2) using stop_seen [OF inv l(1)] by (intro drain_load_inv [OF inv l(1)]) auto
  next
    case head
    then obtain x m' where l: "atomic_load Acquire Consumer Head k ?m = Some (x, m')"
      "s' = s\<lparr>ra_mem := m', ra_drain := D_Tail x\<rparr>"
      using st by (auto simp: drain_step_def Let_def)
    have "x = of_nat ?h" "ra_stopped s" using load_grows(2) [OF l(1) d(1)] d(7,8,9) head by auto
    then show ?thesis unfolding l(2) using tail grows_current [OF load_grows(1) [OF l(1) d(1)]]
      by (intro drain_load_inv [OF inv l(1)]) simp
  next
    case tail
    then obtain x m' where l: "atomic_load Acquire Consumer Tail k ?m = Some (x, m')"
      "s' = s\<lparr>ra_mem := m', ra_drain := (if h = x then D_Done else D_Pop C_Idle)\<rparr>"
      using st by (auto simp: drain_step_def Let_def)
    have x: "x = of_nat ?t" "h = of_nat ?h" "ra_stopped s" "current N ?m Tail = of_nat ?t"
      using load_grows(2) [OF l(1) d(1)] d(2,8) tail by (auto simp: own_locs_def)
    have "?t = ?h" if "h = x"
    proof (rule ccontr)
      assume "?t \<noteq> ?h"
      then have "(of_nat (?t + (?h - ?t)) :: u64) \<noteq> of_nat ?t"
        using ringD(1,2) [OF d(6)] cap_bounds [OF cap] by (intro of_nat_neq) auto
      then show False using ringD(1) [OF d(6)] that x(1,2) by simp
    qed
    then show ?thesis unfolding l(2) using x grows_current [OF load_grows(1) [OF l(1) d(1)]]
      by (intro drain_load_inv [OF inv l(1)]) auto
  qed
qed

lemma pop_load_inv:
  assumes cap: "cap_ok cap" and inv: "ra_inv_at cap N s" and st: "drain_step cap k s = Some s'"
    and pc: "ra_drain s = D_Pop c" "c = C_Idle \<or> c = C_Pos pos"
  shows "ra_inv_at cap N s'"
proof -
  note d = ra_invD [OF inv]
  let ?t = "length (ra_popped s)" and ?m = "ra_mem s"
  have tail: "current N ?m Tail = of_nat ?t" using d(8) pc by auto
  show ?thesis
  proof (cases "c = C_Idle")
    case True
    then obtain p m' where l: "atomic_load Relaxed Consumer Tail k ?m = Some (p, m')"
      "s' = s\<lparr>ra_mem := m', ra_drain := D_Pop (C_Pos p)\<rparr>"
      using st pc(1) by (auto simp: drain_step_def pop_step_def Let_def)
    have "p = of_nat ?t" using load_grows(2) [OF l(1) d(1)] d(2) tail by (simp add: own_locs_def)
    then show ?thesis unfolding l(2) using tail grows_current [OF load_grows(1) [OF l(1) d(1)]]
      by (intro drain_load_inv [OF inv l(1)]) simp
  next
    case False
    then have P: "c = C_Pos pos" "pos = of_nat ?t" using pc d(8) by auto
    then obtain y m' where l: "atomic_load Acquire Consumer (Sequence (?t mod unat cap)) k ?m = Some (y, m')"
      "s' = s\<lparr>ra_mem := m', ra_drain := (if y - (pos + 1) \<noteq> 0 then D_Loop else D_Pop (C_Ready pos))\<rparr>"
      using st pc(1) by (auto simp: drain_step_def pop_step_def Let_def slot_index_ticket [OF cap] split: if_splits)
    have "?t < length (ra_pushed s) \<and> owns N m' Consumer (?t mod unat cap)" if "y = of_nat ?t + 1"
      using consumer_finds_item [OF cap d(1,6)] l(1) that by blast
    then show ?thesis unfolding l(2) using tail P(2) grows_current [OF load_grows(1) [OF l(1) d(1)]]
      by (intro drain_load_inv [OF inv l(1)]) auto
  qed
qed

lemma pop_read_inv:
  assumes cap: "cap_ok cap" and inv: "ra_inv_at cap N s" and st: "drain_step cap k s = Some s'"
    and pc: "ra_drain s = D_Pop (C_Ready pos)"
  shows "ra_inv_at cap N s'"
proof -
  note d = ra_invD [OF inv]
  let ?h = "length (ra_pushed s)" and ?t = "length (ra_popped s)" and ?m = "ra_mem s"
  let ?i = "?t mod unat cap"
  have o: "owns N ?m Consumer ?i" and lt: "?t < ?h" and pos: "pos = of_nat ?t" and tail: "current N ?m Tail = of_nat ?t"
    using d(8) pc by auto
  have s': "s' = s\<lparr>ra_mem := touch Consumer ?i ?m, ra_drain := D_Pop (C_Copied (mem_data ?m ?i) pos)\<rparr>"
    using st pc by (simp add: drain_step_def pop_step_def data_read_def Let_def pos slot_index_ticket [OF cap])
  note f = touch_frame [OF o] and u = touch_other [OF o] and lo = touch_locs [OF o]
  have ne: "n mod unat cap \<noteq> ?i" if "?t < n" "n < ?t + unat cap" for n
    using ticket_slots [of ?t n "unat cap"] that by simp
  have "ra_ring cap N (touch Consumer ?i ?m) (ra_pushed s) ?t"
    using d(6) ne lt u(1,2) f(2) unfolding ra_ring_def slot_full_def slot_free_def by simp
  moreover have "feed_ok cap N (touch Consumer ?i ?m) ?h ?t (ra_feed s)"
    using d(7) ne [of ?h] lt u(3) [of Feed "?h mod unat cap"] f(2,5) by (cases "ra_feed s") auto
  moreover have "mem_data ?m ?i = ra_pushed s ! ?t" using ringD(4) [OF d(6) order_refl lt] .
  moreover have "owns N (touch Consumer ?i ?m) Consumer ?i" using u(3) o by simp
  ultimately show ?thesis unfolding ra_inv_at_def s' using d(2-5,9) f(3,5) lo newest_touch [OF d(1)] pos lt tail by simp
qed

lemma pop_release_inv:
  assumes cap: "cap_ok cap" and inv: "ra_inv_at cap N s" and st: "drain_step cap k s = Some s'"
    and pc: "ra_drain s = D_Pop (C_Copied x pos)"
  shows "ra_inv_at cap (N(Sequence (length (ra_popped s) mod unat cap) := k)) s'"
proof -
  note d = ra_invD [OF inv]
  let ?h = "length (ra_pushed s)" and ?t = "length (ra_popped s)" and ?m = "ra_mem s"
  let ?i = "?t mod unat cap" and ?N = "N(Sequence (?t mod unat cap) := k)"
  have o: "owns N ?m Consumer ?i" and lt: "?t < ?h" and pos: "pos = of_nat ?t" and x: "x = ra_pushed s ! ?t"
    and tail: "current N ?m Tail = of_nat ?t" using d(8) pc by auto
  obtain m' where m': "atomic_store Release Consumer (Sequence ?i) (of_nat ?t + cap) k ?m = Some m'"
    "s' = s\<lparr>ra_mem := m', ra_drain := D_Pop (C_Released pos), ra_popped := ra_popped s @ [x]\<rparr>"
    using st pc by (auto simp: drain_step_def pop_step_def Let_def pos slot_index_ticket [OF cap])
  have v: "vw_at (mem_view ?m Consumer) (Sequence ?i) = N (Sequence ?i)" using o by (simp add: owns_def)
  note f = store_frame [OF m'(1) d(1) v] and u = store_other [OF m'(1) d(1) v] and b = cap_bounds [OF cap]
  have ne: "n mod unat cap \<noteq> ?i" if "?t < n" "n < ?t + unat cap" for n
    using ticket_slots [of ?t n "unat cap"] that by simp
  have "slot_free cap ?N m' (?t + unat cap)"
    using store_publishes [OF m'(1) d(1) o] slotD(1) [OF ringD(3) [OF d(6) order_refl lt]] b
    by (simp add: slot_free_def)
  moreover have "slot_full cap ?N m' n \<and> mem_data m' (n mod unat cap) = ra_pushed s ! n" if "?t < n" "n < ?h" for n
    using ringD(2) [OF d(6)] ringD(3,4) [OF d(6), of n] ne [of n] that u(1,2) f(2) by (simp add: slot_full_def)
  moreover have "slot_free cap ?N m' n" if "?h \<le> n" "n < ?t + unat cap" for n
    using ringD(5) [OF d(6), of n] ne [of n] that lt u(1,2) by (simp add: slot_free_def)
  ultimately have "ra_ring cap ?N m' (ra_pushed s) (?t + 1)"
    using lt ringD(2) [OF d(6)] b unfolding ra_ring_def by (auto simp: less_Suc_eq Suc_le_eq)
  moreover have "feed_ok cap ?N m' ?h (?t + 1) (ra_feed s)"
    using d(7) ne [of ?h] lt u(3) [of "?h mod unat cap"] f(2,8) by (cases "ra_feed s") auto
  moreover have "stop_ok ?N m' (ra_stopped s)" "own_locs ?N m'"
    using d(2,3) f(6,7,8) by (auto simp: stop_ok_def own_locs_def)
  moreover have "ra_popped s @ [x] = take (?t + 1) (ra_pushed s)" using d(5) x lt by (simp add: take_Suc_conv_app_nth)
  ultimately show ?thesis unfolding ra_inv_at_def m'(2) using d(4,9) f(1,4,8) pos tail lt
    by (simp add: Suc_leI min_absorb2)
qed

lemma pop_position_inv:
  assumes inv: "ra_inv_at cap N s" and st: "drain_step cap k s = Some s'" and pc: "ra_drain s = D_Pop (C_Released pos)"
  shows "ra_inv_at cap (N(Tail := k)) s'"
proof -
  note d = ra_invD [OF inv]
  let ?h = "length (ra_pushed s)" and ?t = "length (ra_popped s)" and ?m = "ra_mem s" and ?N = "N(Tail := k)"
  obtain m' where m': "atomic_store Relaxed Consumer Tail (pos + 1) k ?m = Some m'"
    "s' = s\<lparr>ra_mem := m', ra_drain := D_Loop\<rparr>"
    using st pc by (auto simp: drain_step_def pop_step_def Let_def)
  have v: "vw_at (mem_view ?m Consumer) Tail = N Tail" and pos: "pos + 1 = of_nat ?t"
    using d(2,8) pc by (auto simp: own_locs_def)
  note f = store_frame [OF m'(1) d(1) v] and u = store_other [OF m'(1) d(1) v]
  have r: "ra_ring cap ?N m' (ra_pushed s) ?t" by (rule store_ring [OF m'(1) d(1) v _ d(6)]) simp
  have fe: "feed_ok cap ?N m' ?h ?t (ra_feed s)" using d(7) u(3) f(2,8) by (cases "ra_feed s") auto
  have "stop_ok ?N m' (ra_stopped s)" "own_locs ?N m'"
    using d(2,3) f(6,7,8) by (auto simp: stop_ok_def own_locs_def)
  then show ?thesis unfolding ra_inv_at_def m'(2) using d(4,5,9) f(1,4,8) pos r fe by simp
qed

lemma drain_step_inv:
  assumes "cap_ok cap" "ra_inv_at cap N s" "drain_step cap k s = Some s'"
  shows "\<exists>N. ra_inv_at cap N s'"
proof (cases "ra_drain s")
  case (D_Pop c)
  then show ?thesis using pop_load_inv [OF assms] pop_read_inv [OF assms] pop_release_inv [OF assms] pop_position_inv [OF assms(2,3)]
    by (cases c) blast+
next
  case D_Done
  then show ?thesis using assms(3) by (simp add: drain_step_def Let_def)
qed (use drain_loop_inv [OF assms] in blast)+

lemma ra_step_inv: "ra_inv cap s \<Longrightarrow> ra_step cap s s' \<Longrightarrow> ra_inv cap s'"
  by (auto simp: ra_inv_def elim!: ra_stepE dest: feed_step_inv drain_step_inv)

interpretation ra_queue: step_system "\<lambda>s. cap_ok cap \<and> s = init_ra_threads d" "ra_step cap" "ra_inv cap"
  for cap d
  by unfold_locales (auto intro: ra_inv_init ra_step_inv)

text \<open>A load of the newest message and a store after it are always possible.\<close>

lemma load_enabled:
  assumes "newest N m"
  shows "\<exists>k x m'. atomic_load ord t l k m = Some (x, m')"
proof -
  obtain g where "mem_hist m l (N l) = Some g" using newest_message [OF assms] by metis
  then have "\<exists>x m'. atomic_load ord t l (N l) m = Some (x, m')"
    using newestD(3) [OF assms, of t l] by (simp add: atomic_load_def Let_def)
  then show ?thesis by blast
qed

lemma store_enabled:
  assumes "newest N m"
  shows "\<exists>k m'. atomic_store ord t l x k m = Some m'"
proof -
  have "mem_hist m l (Suc (N l)) = None" using newestD(1) [OF assms, of l "Suc (N l)"] by (cases "mem_hist m l (Suc (N l))") auto
  then have "\<exists>m'. atomic_store ord t l x (Suc (N l)) m = Some m'"
    using newestD(3) [OF assms, of t l] by (simp add: atomic_store_def Let_def)
  then show ?thesis by blast
qed

lemma drain_enabled:
  assumes N: "newest N (ra_mem s)" and "ra_drain s \<noteq> D_Done"
  shows "\<exists>k s'. drain_step cap k s = Some s'"
proof (cases "ra_drain s")
  case (D_Pop c)
  then show ?thesis using load_enabled [OF N] store_enabled [OF N]
    by (cases c) (fastforce simp: drain_step_def pop_step_def Let_def split: prod.splits)+
next
  case D_Done
  then show ?thesis using assms(2) by simp
qed (use load_enabled [OF N] in \<open>fastforce simp: drain_step_def Let_def\<close>)+

section \<open>Atomic calls\<close>

text \<open>
  Seen from outside, a call takes effect in one step, its store of the sequence number: it
  appends to the items in the ring or takes the oldest one off. All other steps leave the
  items alone, so a call that reads a stale value and fails has no effect.
\<close>

definition ring_items :: "'a ra_threads \<Rightarrow> 'a list" where
  "ring_items s = drop (length (ra_popped s)) (ra_pushed s)"

lemma feed_step_atomic:
  assumes "ra_inv_at cap N s" "feed_step cap call k s = Some s'"
  shows "ra_popped s' = ra_popped s \<and>
    (ring_items s' = ring_items s \<or> (\<exists>x. ring_items s' = ring_items s @ [x] \<and> length (ring_items s) < unat cap))"
proof -
  note d = ra_invD [OF assms(1)]
  have le: "length (ra_popped s) \<le> length (ra_pushed s)" by (rule ringD(1) [OF d(6)])
  show ?thesis
  proof (cases "ra_feed s")
    case (P_Stored x pos)
    then have "ra_popped s' = ra_popped s" "ra_pushed s' = ra_pushed s @ [x]"
      using assms(2) by (auto simp: feed_step_def Let_def)
    then show ?thesis using le d(7) P_Stored by (auto simp: ring_items_def)
  qed (use assms(2) in \<open>auto simp: feed_step_def ring_items_def Let_def split: if_splits option.splits\<close>)
qed

lemma drain_step_atomic:
  assumes "ra_inv_at cap N s" "drain_step cap k s = Some s'"
  shows "ra_pushed s' = ra_pushed s \<and> (ring_items s' = ring_items s \<and> ra_popped s' = ra_popped s \<or>
    (\<exists>x. ring_items s = x # ring_items s' \<and> ra_popped s' = ra_popped s @ [x]))"
proof (cases "\<exists>x pos. ra_drain s = D_Pop (C_Copied x pos)")
  case True
  then obtain x pos where c: "ra_drain s = D_Pop (C_Copied x pos)" by blast
  then have "ra_pushed s' = ra_pushed s" "ra_popped s' = ra_popped s @ [x]"
    using assms(2) by (auto simp: drain_step_def pop_step_def Let_def)
  then show ?thesis using ra_invD(8) [OF assms(1)] c by (auto simp: ring_items_def Cons_nth_drop_Suc)
next
  case False
  have "ra_pushed s' = ra_pushed s \<and> ra_popped s' = ra_popped s"
  proof (cases "ra_drain s")
    case (D_Pop c)
    then show ?thesis using False assms(2)
      by (cases c) (auto simp: drain_step_def pop_step_def data_read_def Let_def split: if_splits)
  qed (use assms(2) in \<open>auto simp: drain_step_def Let_def split: if_splits\<close>)
  then show ?thesis by (simp add: ring_items_def)
qed

section \<open>Draining\<close>

text \<open>
  When the feed thread has stopped and the consumer reads the newest values, each of its
  steps gets it closer to the end of its loop. The measure counts the items left and the
  steps of a turn; a pop that was begun on an empty ring fails first.
\<close>

fun drain_rank :: "nat \<Rightarrow> 'a drain \<Rightarrow> nat" where
  "drain_rank n (D_Pop C_Idle) = (if n = 0 then 12 else 5)"
| "drain_rank n (D_Pop (C_Pos p)) = (if n = 0 then 11 else 4)"
| "drain_rank n (D_Pop (C_Ready p)) = 3"
| "drain_rank n (D_Pop (C_Copied x p)) = 2"
| "drain_rank n (D_Pop (C_Released p)) = 9"
| "drain_rank n D_Loop = 8"
| "drain_rank n D_Head = 7"
| "drain_rank n (D_Tail h) = 6"
| "drain_rank n D_Done = 0"

definition drain_left :: "'a ra_threads \<Rightarrow> nat" where
  "drain_left s = (let n = length (ra_pushed s) - length (ra_popped s) in 10 * n + drain_rank n (ra_drain s))"

lemma load_newest:
  assumes "newest N m"
  shows "\<exists>m'. atomic_load ord t l (N l) m = Some (current N m l, m')"
proof -
  obtain g where "mem_hist m l (N l) = Some g" "mg_val g = current N m l" using newest_message [OF assms] .
  then show ?thesis using newestD(3) [OF assms, of t l] by (simp add: atomic_load_def Let_def)
qed

lemma current_published: "newest N m \<Longrightarrow> published N m t i x \<Longrightarrow> current N m (Sequence i) = x"
  using newest_message [of N m "Sequence i"] unfolding published_def by metis

lemma drain_progress:
  assumes cap: "cap_ok cap" and inv: "ra_inv_at cap N s" and st: "ra_stopped s" and nd: "ra_drain s \<noteq> D_Done"
  shows "\<exists>k s'. drain_step cap k s = Some s' \<and> ra_stopped s' \<and> drain_left s' < drain_left s"
proof -
  note d = ra_invD [OF inv]
  let ?h = "length (ra_pushed s)" and ?t = "length (ra_popped s)" and ?m = "ra_mem s"
  have le: "?t \<le> ?h" by (rule ringD(1) [OF d(6)])
  note load = load_newest [OF d(1)]
  show ?thesis
  proof (cases "ra_drain s")
    case D_Loop
    obtain m' where m': "atomic_load Acquire Consumer Stop (N Stop) ?m = Some (current N ?m Stop, m')" using load by blast
    have "current N ?m Stop \<noteq> 0" using d(3) st by (simp add: stop_ok_def)
    then show ?thesis using D_Loop m' st
      by (intro exI [of _ "N Stop"]) (simp add: drain_step_def drain_left_def Let_def)
  next
    case D_Head
    obtain m' x where "atomic_load Acquire Consumer Head (N Head) ?m = Some (x, m')" using load by blast
    then show ?thesis using D_Head st by (intro exI [of _ "N Head"]) (simp add: drain_step_def drain_left_def Let_def)
  next
    case (D_Tail h)
    obtain m' where m': "atomic_load Acquire Consumer Tail (N Tail) ?m = Some (current N ?m Tail, m')" using load by blast
    have "h = of_nat ?h" "current N ?m Tail = of_nat ?t" using d(8) D_Tail by auto
    then show ?thesis using D_Tail m' st le
      by (intro exI [of _ "N Tail"]) (auto simp: drain_step_def drain_left_def Let_def)
  next
    case (D_Pop c)
    have ok: "pop_ok cap N ?m (ra_pushed s) ?t c" using d(8) D_Pop by simp
    show ?thesis
    proof (cases c)
      case C_Idle
      obtain m' x where "atomic_load Relaxed Consumer Tail (N Tail) ?m = Some (x, m')" using load by blast
      then show ?thesis using D_Pop C_Idle st
        by (intro exI [of _ "N Tail"]) (simp add: drain_step_def pop_step_def drain_left_def Let_def)
    next
      case (C_Pos pos)
      let ?l = "Sequence (?t mod unat cap)"
      have pos: "pos = of_nat ?t" using ok C_Pos by simp
      obtain m' where m': "atomic_load Acquire Consumer ?l (N ?l) ?m = Some (current N ?m ?l, m')" using load by blast
      have "current N ?m ?l = of_nat ?t + 1" if "?t < ?h"
        using current_published [OF d(1) slotD(1) [OF ringD(3) [OF d(6) order_refl that]]] .
      then show ?thesis using D_Pop C_Pos m' st pos le
        by (intro exI [of _ "N ?l"]) (auto simp: drain_step_def pop_step_def drain_left_def Let_def slot_index_ticket [OF cap])
    next
      case (C_Ready pos)
      then show ?thesis using D_Pop st
        by (intro exI [of _ 0]) (simp add: drain_step_def pop_step_def drain_left_def data_read_def Let_def)
    next
      case (C_Copied x pos)
      obtain k m' where "atomic_store Release Consumer (Sequence (slot_index cap pos)) (pos + cap) k ?m = Some m'"
        using store_enabled [OF d(1)] by blast
      moreover have "?h - ?t = Suc (?h - Suc ?t)" using ok C_Copied by (simp add: Suc_diff_Suc)
      ultimately show ?thesis using D_Pop C_Copied st
        by (intro exI [of _ k]) (simp add: drain_step_def pop_step_def drain_left_def Let_def)
    next
      case (C_Released pos)
      obtain k m' where "atomic_store Relaxed Consumer Tail (pos + 1) k ?m = Some m'" using store_enabled [OF d(1)] by blast
      then show ?thesis using D_Pop C_Released st
        by (intro exI [of _ k]) (simp add: drain_step_def pop_step_def drain_left_def Let_def)
    qed
  qed (use nd in simp)
qed

lemma drain_completes:
  assumes "cap_ok cap"
  shows "\<exists>N. ra_inv_at cap N s \<Longrightarrow> ra_stopped s \<Longrightarrow>
    \<exists>s'. (\<lambda>s s'. \<exists>k. drain_step cap k s = Some s')\<^sup>*\<^sup>* s s' \<and> ra_drain s' = D_Done"
proof (induction "drain_left s" arbitrary: s rule: less_induct)
  case less
  obtain N where N: "ra_inv_at cap N s" using less.prems by blast
  show ?case
  proof (cases "ra_drain s = D_Done")
    case False
    obtain k s1 where s1: "drain_step cap k s = Some s1" "ra_stopped s1" "drain_left s1 < drain_left s"
      using drain_progress [OF assms N less.prems(2) False] by blast
    from less.hyps [OF s1(3) drain_step_inv [OF assms N s1(1)] s1(2)] show ?thesis
      using s1(1) by (blast intro: converse_rtranclp_into_rtranclp)
  qed blast
qed

section \<open>Properties\<close>

text \<open>
  Schedules: each entry names the thread, with the call the feed thread makes when it is
  between two calls, and the choice of the memory model.
\<close>

fun ra_exec :: "u64 \<Rightarrow> ('a option option \<times> nat) list \<Rightarrow> 'a ra_threads \<Rightarrow> 'a ra_threads option" where
  "ra_exec cap [] s = Some s"
| "ra_exec cap ((Some call, k) # es) s = Option.bind (feed_step cap call k s) (ra_exec cap es)"
| "ra_exec cap ((None, k) # es) s = Option.bind (drain_step cap k s) (ra_exec cap es)"

lemma ra_exec_steps: "ra_exec cap es s = Some s' \<Longrightarrow> (ra_step cap)\<^sup>*\<^sup>* s s'"
  by (induction cap es s rule: ra_exec.induct)
    (auto simp: bind_eq_Some_conv intro: converse_rtranclp_into_rtranclp ra_step.intros)

text \<open>
  The ring carries one item and is drained after the stop; the consumer's first look at
  \<^verbatim>\<open>stop_\<close> comes before any of it.
\<close>

definition short_session :: "(nat option option \<times> nat) list" where
  "short_session = [(Some (Some 7), 0), (Some None, 0), (Some None, 0), (None, 0), (Some None, 1), (Some None, 1), (Some None, 1),
     (None, 0), (None, 0), (None, 1), (None, 1), (None, 0), (None, 0), (None, 1), (None, 0), (None, 2), (None, 1),
     (None, 1), (None, 1), (None, 1)]"

lemmas ra_eval = init_ra_threads_def init_memory_def feed_step_def drain_step_def pop_step_def atomic_load_def
  atomic_store_def data_read_def data_write_def touch_def no_view_def join_view_def slot_index_def Let_def

text \<open>
  C3: The ring under the memory orders of the code. Whatever stale values the memory model
  lets the loads return and however the two threads interleave, the plain accesses to the
  storage of the slots never race, so the behaviour is defined; the items popped are a
  prefix of the items pushed, in order, with none lost or doubled, and at most \<open>cap\<close> items
  are in flight. Positions may wrap around \<open>2 ^ 64\<close> any number of times.
\<close>

theorem ring_race_free:
  assumes "cap = 2 ^ e" "1 \<le> e" "e < 64" "(ra_step cap)\<^sup>*\<^sup>* (init_ra_threads d) s"
  shows "\<not> mem_race (ra_mem s) \<and> (\<exists>rest. ra_pushed s = ra_popped s @ rest \<and> length rest \<le> unat cap)"
proof -
  have "ra_inv cap s" using ra_queue.inv_reachable [of cap _ d s] assms by (auto simp: cap_ok_def)
  then obtain N where "ra_inv_at cap N s" unfolding ra_inv_def by blast
  note d = ra_invD [OF this]
  have "ra_pushed s = ra_popped s @ drop (length (ra_popped s)) (ra_pushed s)" using d(5) by (metis append_take_drop_id)
  then show ?thesis using d(4) ringD(2) [OF d(6)] by (intro conjI exI [of _ "drop (length (ra_popped s)) (ra_pushed s)"]) auto
qed

theorem ring_race_free_witness:
  "\<exists>s. ra_exec 4 short_session (init_ra_threads 0) = Some s \<and> \<not> mem_race (ra_mem s) \<and> ra_pushed s = [7] \<and>
     (\<exists>rest. ra_pushed s = ra_popped s @ rest \<and> length rest \<le> unat (4 :: u64))"
proof -
  have "map_option ra_pushed (ra_exec 4 short_session (init_ra_threads 0)) = Some [7]"
    by (simp add: short_session_def ra_eval)
  then obtain s where s: "ra_exec 4 short_session (init_ra_threads 0) = Some s" "ra_pushed s = [7]" by auto
  then show ?thesis using ring_race_free [of 4 2, OF _ _ _ ra_exec_steps [OF s(1)]] by auto
qed

text \<open>
  C4: Shutting down. When the consumer leaves its loop, it has popped every item that was
  ever pushed, although the position it compares with is only stored relaxed: the feed
  thread has stopped for good, and the release and acquire of \<^verbatim>\<open>stop_\<close> carry the position
  over. Until then the consumer is never stuck, whatever the feed thread does; and once
  the feed thread has stopped, steps of the consumer alone lead to the end of its loop.
\<close>

theorem shutdown_drains_ring:
  assumes "cap = 2 ^ e" "1 \<le> e" "e < 64" "(ra_step cap)\<^sup>*\<^sup>* (init_ra_threads d) s"
  shows "(if ra_drain s = D_Done then ra_popped s = ra_pushed s \<and> (\<forall>s'. \<not> ra_step cap s s')
      else \<exists>k s'. drain_step cap k s = Some s') \<and>
    (ra_stopped s \<longrightarrow> (\<exists>s'. (\<lambda>s s'. \<exists>k. drain_step cap k s = Some s')\<^sup>*\<^sup>* s s' \<and> ra_drain s' = D_Done))"
proof -
  have inv: "ra_inv cap s" using ra_queue.inv_reachable [of cap _ d s] assms by (auto simp: cap_ok_def)
  then obtain N where "ra_inv_at cap N s" unfolding ra_inv_def by blast
  note d = ra_invD [OF this]
  have "if ra_drain s = D_Done then ra_popped s = ra_pushed s \<and> (\<forall>s'. \<not> ra_step cap s s')
      else \<exists>k s'. drain_step cap k s = Some s'"
  proof (cases "ra_drain s = D_Done")
    case True
    then have "length (ra_popped s) = length (ra_pushed s)" "ra_stopped s" "ra_feed s = P_Idle" using d(8,9) by auto
    then show ?thesis using d(5) True by (auto elim!: ra_stepE simp: feed_step_def drain_step_def Let_def)
  next
    case False
    then show ?thesis using drain_enabled [OF d(1)] by simp
  qed
  then show ?thesis using drain_completes inv unfolding ra_inv_def by blast
qed

theorem shutdown_drains_ring_witness:
  "\<exists>s. ra_exec 4 short_session (init_ra_threads 0) = Some s \<and> ra_drain s = D_Done \<and> ra_popped s = ra_pushed s"
proof -
  have "map_option ra_drain (ra_exec 4 short_session (init_ra_threads 0)) = Some D_Done"
    by (simp add: short_session_def ra_eval)
  then obtain s where s: "ra_exec 4 short_session (init_ra_threads 0) = Some s" "ra_drain s = D_Done" by auto
  then show ?thesis using shutdown_drains_ring [of 4 2, OF _ _ _ ra_exec_steps [OF s(1)]] by auto
qed

text \<open>
  C5: The calls of the ring are atomic, whatever stale values their loads return. Each step
  of either thread leaves the items in the ring as they are, or appends one at the end while
  there is room, or takes the oldest off and hands it to the consumer: the ring refines a
  bounded queue, in which a call may also fail without effect.
\<close>

theorem ring_calls_atomic:
  assumes "cap = 2 ^ e" "1 \<le> e" "e < 64" "(ra_step cap)\<^sup>*\<^sup>* (init_ra_threads d) s" "ra_step cap s s'"
  shows "(ring_items s' = ring_items s \<and> ra_pushed s' = ra_pushed s \<and> ra_popped s' = ra_popped s) \<or>
    (\<exists>x. ring_items s' = ring_items s @ [x] \<and> length (ring_items s) < unat cap \<and> ra_popped s' = ra_popped s) \<or>
    (\<exists>x. ring_items s = x # ring_items s' \<and> ra_pushed s' = ra_pushed s \<and> ra_popped s' = ra_popped s @ [x])"
proof -
  have inv: "ra_inv cap s" using ra_queue.inv_reachable [of cap _ d s] assms by (auto simp: cap_ok_def)
  then obtain N where N: "ra_inv_at cap N s" unfolding ra_inv_def by blast
  from assms(5) show ?thesis
  proof (cases rule: ra_step.cases)
    case (feed call k)
    obtain N' where N': "ra_inv_at cap N' s'" using feed_step_inv [OF _ N feed] inv unfolding ra_inv_def by blast
    have "ring_items s' = ring_items s \<Longrightarrow> ra_popped s' = ra_popped s \<Longrightarrow> ra_pushed s' = ra_pushed s"
      using ra_invD(5) [OF N] ra_invD(5) [OF N'] unfolding ring_items_def by (metis append_take_drop_id)
    then show ?thesis using feed_step_atomic [OF N feed] by blast
  next
    case (drain k)
    then show ?thesis using drain_step_atomic [OF N drain] by blast
  qed
qed

theorem ring_calls_atomic_witness:
  "\<exists>s s'. ra_exec 4 (take 4 short_session) (init_ra_threads 0) = Some s \<and> ra_step 4 s s' \<and>
     (ring_items s' = ring_items s @ [7] \<or> ring_items s' = ring_items s)"
proof -
  have "map_option ring_items (ra_exec 4 (take 4 short_session) (init_ra_threads 0)) = Some []"
    "map_option ring_items (Option.bind (ra_exec 4 (take 4 short_session) (init_ra_threads 0)) (feed_step 4 None 1)) = Some [7]"
    by (simp_all add: short_session_def ring_items_def ra_eval)
  then obtain s s' where s: "ra_exec 4 (take 4 short_session) (init_ra_threads 0) = Some s" "feed_step 4 None 1 s = Some s'"
    "ring_items s = []" "ring_items s' = [7]" by (auto simp: bind_eq_Some_conv)
  have "ra_step 4 s s'" using s(2) by (rule ra_step.feed)
  with ring_calls_atomic [of 4 2, OF _ _ _ ra_exec_steps [OF s(1)] this] show ?thesis
    using s by (intro exI [of _ s] exI [of _ s']) auto
qed

end
