(* ===== verification/Pipeline_Files.thy ===== *)
theory Pipeline_Files
  imports Feed_Handler
begin

text \<open>
  From datagrams to files: what the three output files of a run of the feed handler hold
  when they are read back, in terms of the messages the run accepted. This puts the parser,
  the sequence tracker, the book, the ring, the consumer thread and the file formats
  together; the recovery connection and the datagrams are arbitrary.
\<close>

text \<open>The ticks and the trade messages of a sequence of messages.\<close>

fun book_ticks :: "BookBuilder \<Rightarrow> ParsedPayload list \<Rightarrow> NormalizedTick list" where
  "book_ticks b [] = []"
| "book_ticks b (p # ps) =
     (case book_step b p of (b', tick) \<Rightarrow> (case tick of None \<Rightarrow> [] | Some t \<Rightarrow> [t]) @ book_ticks b' ps)"

fun trade_messages :: "ParsedPayload list \<Rightarrow> Trade list" where
  "trade_messages [] = []"
| "trade_messages (P_Trade m # ps) = m # trade_messages ps"
| "trade_messages (_ # ps) = trade_messages ps"

text \<open>The values on the tape line of a trade message, and the quantity traded in a symbol.\<close>

definition trade_line :: "Trade \<Rightarrow> nat list" where
  "trade_line m = tape_fields (pe_trade (trade_event m))"

definition quantity_traded :: "u32 \<Rightarrow> Trade list \<Rightarrow> nat" where
  "quantity_traded s ms = sum_list (map (\<lambda>m. unat (tr_qty m)) (filter (\<lambda>m. tr_symbol_id m = s) ms))"

lemma event_kinds [simp]:
  "pe_kind (tick_event t) = Tick" "pe_tick (tick_event t) = t" "pe_kind (trade_event m) = TradeEvt"
  by (simp_all add: tick_event_def trade_event_def)

lemma tick_list_session: "tick_list (session_events b ps) = book_ticks b ps"
  by (induction b ps rule: book_ticks.induct)
    (auto simp: tick_list_def step_events_def split: prod.splits option.splits ParsedPayload.splits)

lemma trade_list_session: "trade_list (session_events b ps) = map (\<lambda>m. pe_trade (trade_event m)) (trade_messages ps)"
proof (induction ps arbitrary: b)
  case (Cons p ps)
  then show ?case by (cases p) (auto simp: trade_list_def step_events_def split: option.splits)
qed (simp add: trade_list_def)

lemma traded_messages:
  "traded s (map (\<lambda>m. pe_trade (trade_event m)) ms) = of_nat (quantity_traded s ms)"
  by (induction ms) (auto simp: traded_def quantity_traded_def trade_event_def)

text \<open>
  The files after the messages \<open>ps\<close>: the BBO log has one line for each tick of the book, the
  tape one for each trade message, and the bars of either type add up to the traded quantity
  of each symbol (modulo \<open>2 ^ 64\<close>).
\<close>

definition files_read_back :: "'h FeedHandler \<Rightarrow> ParsedPayload list \<Rightarrow> bool" where
  "files_read_back h ps \<longleftrightarrow>
     parse_log (os_data (bp_out (fh_bbo h))) = map bbo_fields (book_ticks init_BookBuilder ps) \<and>
     parse_log (os_data (tw_out (fh_tape h))) = map trade_line (trade_messages ps) \<and>
     (case read_bars (os_data (ba_out (fh_bars h))) of
        None \<Rightarrow> False
      | Some bars \<Rightarrow> \<forall>s < 32. \<forall>ty \<in> {0, 1}.
          of_nat (file_volume bars s ty) = (of_nat (quantity_traded s (trade_messages ps)) :: u64))"

lemma consumed_files_read_back:
  fixes hdr_init :: "int \<Rightarrow> int \<Rightarrow> int \<Rightarrow> 'h option"
  assumes files: "opened (hc_bbo_path cfg)" "opened (hc_tape_path cfg)" "opened (hc_bars_path cfg)" "hc_volume_bar_qty cfg \<noteq> 0"
    and h_def: "h = init_FeedHandler hdr_init opened cfg" and evs: "evs = session_events init_BookBuilder ps"
    and bbo: "fh_bbo h' = foldl bbo_on_tick (fh_bbo h) (tick_list evs)"
    and tape: "fh_tape h' = foldl tape_on_trade (fh_tape h) (trade_list evs)"
    and bars: "bars_run (fh_bars h) (trade_list evs) = Some g" "fh_bars h' = flush_all g"
  shows "files_read_back h' ps"
proof -
  let ?ts = "map (\<lambda>m. pe_trade (trade_event m)) (trade_messages ps)"
  note l = tick_list_session [of init_BookBuilder ps, folded evs] trade_list_session [of init_BookBuilder ps, folded evs]
  have o: "bp_out (fh_bbo h) = open_stream" "tw_out (fh_tape h) = open_stream"
    "fh_bars h = init_BarAggregator True (hc_time_bar_ns cfg) (hc_volume_bar_qty cfg)"
    using files(1-3) by (simp_all add: h_def init_FeedHandler_def open_stream_def)
  obtain bs where "agg_inv g bs ?ts"
    using bars_run_total [OF files(4)] bars(1) unfolding o(3) l by (metis option.inject)
  from flushed_file [OF this] show ?thesis
    unfolding traded_messages files_read_back_def bbo tape bars(2) l
    by (auto simp: parse_bbo_log [OF o(1)] parse_tape_log [OF o(2)] trade_line_def comp_def)
qed

text \<open>
  C2: The files of a run. When the three files can be opened, the volume bar quantity is
  positive and the consumer thread gets a turn before each push, then a run over any
  datagrams with any recovery replies leaves files that read back to the ticks, the trades
  and the traded quantities of some messages: those of frames 1, 2, 3, ... that came with a
  datagram or a recovery reply, and at least as many as the datagrams contain in this order.
\<close>

theorem run_writes_files:
  assumes "opened (hc_bbo_path cfg)" "opened (hc_tape_path cfg)" "opened (hc_bars_path cfg)" "hc_volume_bar_qty cfg \<noteq> 0"
    and "\<forall>n. 1 \<le> ev_turns env n"
  shows "\<exists>h' fs. run env True turns (init_FeedHandler hdr_init opened cfg) = Some (0, h') \<and>
    list_all (arrived env turns) fs \<and> map frame_seq fs = map of_nat [1..<length fs + 1] \<and>
    (\<forall>gs. feeds_from 0 gs turns \<longrightarrow> length gs \<le> length fs) \<and> files_read_back h' (map frame_payload fs)"
proof -
  let ?h = "init_FeedHandler hdr_init opened cfg"
  obtain h' fs g where h': "run env True turns ?h = Some (0, h')" "list_all (arrived env turns) fs"
    "map frame_seq fs = map of_nat [1..<length fs + 1]" "\<forall>gs. feeds_from 0 gs turns \<longrightarrow> length gs \<le> length fs"
    "fh_bbo h' = foldl bbo_on_tick (fh_bbo ?h) (tick_list (session_events init_BookBuilder (map frame_payload fs)))"
    "fh_tape h' = foldl tape_on_trade (fh_tape ?h) (trade_list (session_events init_BookBuilder (map frame_payload fs)))"
    "bars_run (fh_bars ?h) (trade_list (session_events init_BookBuilder (map frame_payload fs))) = Some g"
    "fh_bars h' = flush_all g"
    using run_frames [where opened = opened and cfg = cfg and env = env and turns = turns and hdr_init = hdr_init] assms(4,5)
    by blast
  then show ?thesis using consumed_files_read_back [OF assms(1-4) refl refl h'(5-8)] by blast
qed

theorem run_writes_files_witness:
  "let f = trade_frame 1 10 5 0 Buy 100 7 in
   \<exists>h' fs. run quiet_env True [None, Some f, None]
       (init_FeedHandler (\<lambda>_ _ _. Some ()) (\<lambda>_. True) init_HandlerConfig) = Some (0, h') \<and>
     fs \<noteq> [] \<and> (\<forall>g \<in> set fs. prefix g f) \<and> files_read_back h' (map frame_payload fs)"
proof -
  define f where "f = trade_frame 1 10 5 0 Buy 100 7"
  have c: "(\<lambda>_. True) (hc_bbo_path init_HandlerConfig)" "(\<lambda>_. True) (hc_tape_path init_HandlerConfig)"
    "(\<lambda>_. True) (hc_bars_path init_HandlerConfig)" "hc_volume_bar_qty init_HandlerConfig \<noteq> 0"
    "\<forall>n. 1 \<le> ev_turns quiet_env n"
    by (simp_all add: init_HandlerConfig_def quiet_env_def)
  from run_writes_files [OF c, of "[None, Some f, None]" "\<lambda>_ _ _. Some ()"]
  obtain h' fs where h': "run quiet_env True [None, Some f, None] (init_FeedHandler (\<lambda>_ _ _. Some ()) (\<lambda>_. True) init_HandlerConfig) = Some (0, h')"
    "list_all (arrived quiet_env [None, Some f, None]) fs"
    "\<forall>gs. feeds_from 0 gs [None, Some f, None] \<longrightarrow> length gs \<le> length fs" "files_read_back h' (map frame_payload fs)" by blast
  then show ?thesis using one_frame_run [OF h'(2,3) [unfolded f_def]] unfolding f_def Let_def by blast
qed

end
