(* ===== verification/Handler_Types.thy ===== *)
theory Handler_Types
  imports Feed_Handler
begin

text \<open>
  The fixed-size arrays of the handler. In the model an array is a function on all of
  \<open>nat\<close>; here it is shown that a run never writes a cell beyond the declared size of any of
  them, whatever datagrams and recovery replies arrive: the 64 slots of the reorder window
  with their 44 bytes each, the 32 books with their 4097 levels and 65 bitmap words per
  side, the 16384 slots of the event ring, and the 32 accumulators of either kind of bar.
  (An index into the order pool is a 16-bit word, so it is in range by its type.)
\<close>

section \<open>The components\<close>

subsection \<open>The reorder window\<close>

lemma far_slot: "64 \<le> i \<Longrightarrow> i \<noteq> window_index q"
  using window_index_less [of q] by linarith

lemma flush_loop_far: "64 \<le> i \<Longrightarrow> st_window (flush_loop t) i = st_window t i"
proof (induction t rule: flush_loop.induct)
  case (1 t)
  have "st_window (take_slot t) i = st_window t i"
    using far_slot [OF "1.prems"] by (simp add: take_slot_def Let_def)
  then show ?case using 1 by (subst flush_loop.simps) (simp add: Let_def)
qed

lemma store_ooo_far: "64 \<le> i \<Longrightarrow> st_window (store_ooo t q f) i = st_window t i"
  using far_slot [of i q] by (simp add: store_ooo_def Let_def note_drop_def)

lemma push_far:
  assumes "64 \<le> i"
  shows "st_window (snd (push t f)) i = st_window t i"
  using assms
  by (cases rule: push_cases [of f t])
    (auto simp: flush_contiguous_def Let_def flush_loop_far buffer_ooo_def store_ooo_far note_drop_def clear_gap_def)

lemma push_recovered_far: "64 \<le> i \<Longrightarrow> st_window (push_recovered t data) i = st_window t i"
proof (induction t data rule: push_recovered.induct)
  case (1 t data)
  then show ?case by (subst push_recovered.simps) (simp add: Let_def push_far)
qed

subsection \<open>The books\<close>

lemma take_off_far: "order_ok r \<Longrightarrow> 32 \<le> i \<Longrightarrow> take_off books r i = books i"
  using order_ok_bounds [of r] by (auto simp: take_off_def edit_side_def)

lemma place_far: "order_ok r \<Longrightarrow> 32 \<le> i \<Longrightarrow> place books r i = books i"
  using order_ok_bounds [of r] by (auto simp: place_def put_on_def edit_side_def)

lemma unplace_far: "(\<And>r. x = Some r \<Longrightarrow> order_ok r) \<Longrightarrow> 32 \<le> i \<Longrightarrow> unplace books x i = books i"
  by (auto simp: unplace_def take_off_far split: option.splits)

lemma book_step_far:
  assumes inv: "book_inv b" and i: "32 \<le> i"
  shows "bb_books (fst (book_step b p)) i = bb_books b i"
proof (cases p)
  case (P_AddOrder m)
  show ?thesis
  proof (cases "add_ok m \<and> card (dom (orders_of b)) < kOrderPool")
    case True
    then show ?thesis using on_add_accept(1) [OF inv, of m] record_ok(1) P_AddOrder i book_invD(3) [OF inv]
      by (simp add: place_far unplace_far)
  next
    case False
    then have "on_add b m = (b, None)" using on_add_reject on_add_full [OF inv] by (meson not_le)
    then show ?thesis using P_AddOrder by simp
  qed
next
  case (P_ModifyOrder m)
  show ?thesis
  proof (cases "modify_ok m \<and> orders_of b (mo_order_id m) \<noteq> None")
    case True
    then obtain r where r: "orders_of b (mo_order_id m) = Some r" by auto
    show ?thesis using on_modify_accept(1) [OF inv _ r] True record_ok(2) [of m] P_ModifyOrder i book_invD(3) [OF inv r]
      by (simp add: place_far take_off_far)
  next
    case False
    then show ?thesis using on_modify_reject [of m b] P_ModifyOrder by auto
  qed
next
  case (P_DeleteOrder m)
  show ?thesis
  proof (cases "orders_of b (do_order_id m)")
    case (Some r)
    then show ?thesis using on_delete_accept(1) [OF inv Some] P_DeleteOrder i book_invD(3) [OF inv Some]
      by (simp add: take_off_far)
  qed (use P_DeleteOrder on_delete_reject in simp)
next
  case (P_Trade m)
  have "unat (tr_symbol_id m) < 32" if "tr_symbol_id m < kMaxSymbols"
    using that by (simp add: word_less_nat_alt kMaxSymbols_def)
  then show ?thesis using P_Trade i by (auto simp: on_trade_def Let_def not_le)
qed simp_all

lemma book_run_far: "32 \<le> i \<Longrightarrow> bb_books (book_run init_BookBuilder ps) i = init_SymbolBook"
proof (induction ps rule: rev_induct)
  case Nil
  then show ?case by (simp add: book_run_def init_BookBuilder_def)
next
  case (snoc p ps)
  then show ?case using book_step_far book_run_inv by (simp add: book_run_snoc)
qed

text \<open>Levels and bitmap words of one side.\<close>

lemma side_inv_cells:
  assumes "side_inv d s"
  shows "sb_qty s p \<noteq> 0 \<Longrightarrow> 1 \<le> p \<and> p \<le> 4096" "sb_occupied s w \<noteq> 0 \<Longrightarrow> w < 65" "sb_best_price s \<le> 4096"
proof -
  note i = side_invD [OF assms]
  show "sb_qty s p \<noteq> 0 \<Longrightarrow> 1 \<le> p \<and> p \<le> 4096" using i(1,2) by blast
  show "w < 65" if "sb_occupied s w \<noteq> 0"
  proof -
    obtain n where n: "bit (sb_occupied s w) n" using \<open>sb_occupied s w \<noteq> 0\<close> by (auto simp: bit_eq_iff)
    then have "n < 64" using bit_imp_le_length [OF n] by simp
    then have "occupied (sb_occupied s) (w * 64 + n)" using n by (simp add: occupied_word)
    from i(1) [OF this] show ?thesis by simp
  qed
  have "unat (sb_best_price s) \<le> 4096" using i(1,3) by (auto simp: scan_result_def split: if_splits)
  then show "sb_best_price s \<le> 4096" by (simp add: word_le_nat_alt)
qed

subsection \<open>The event ring\<close>

lemma event_slot: "slot_index kEventQueueCapacity pos < 16384"
proof -
  have "slot_index kEventQueueCapacity (of_nat (unat pos)) = unat pos mod unat kEventQueueCapacity"
    by (rule slot_index_ticket [OF cap_ok_events])
  then show ?thesis by (simp add: kEventQueueCapacity_def)
qed

lemma queue_far:
  assumes "16384 \<le> i"
  shows "sq_slots (snd (try_push kEventQueueCapacity x q)) i = sq_slots q i"
    "sq_slots (snd (try_pop kEventQueueCapacity q)) i = sq_slots q i"
  using assms event_slot [of "sq_head q"] event_slot [of "sq_tail q"] by (auto simp: try_push_def try_pop_def Let_def)

subsection \<open>The accumulators\<close>

definition far_accs :: "BarAggregator \<Rightarrow> nat \<Rightarrow> Acc \<times> Acc" where
  "far_accs g i = (ba_time_acc g (i + 32), ba_vol_acc g (i + 32))"

lemma far_write_bar: "far_accs (write_bar g s a ty) = far_accs g"
  by (simp add: far_accs_def write_bar_def Let_def fun_eq_iff)

lemma far_set_acc:
  assumes "s < kMaxSymbols"
  shows "far_accs (set_time_acc g s a) = far_accs g" "far_accs (set_vol_acc g s a) = far_accs g"
proof -
  have "unat s < 32" using assms by (simp add: word_less_nat_alt kMaxSymbols_def)
  then show "far_accs (set_time_acc g s a) = far_accs g" "far_accs (set_vol_acc g s a) = far_accs g"
    by (auto simp: far_accs_def set_time_acc_def set_vol_acc_def fun_eq_iff)
qed

lemma far_on_time: "s < kMaxSymbols \<Longrightarrow> far_accs (on_time g s t) = far_accs g"
  by (simp add: on_time_def Let_def far_set_acc far_write_bar)

lemma far_volume_loop:
  assumes "volume_loop s t g = Some g'"
  shows "s < kMaxSymbols \<longrightarrow> far_accs g' = far_accs g"
proof (induction rule: volume_loop.raw_induct [OF _ assms, rotated])
  case (1 loop s t g g')
  then show ?case
    by (fastforce simp: Let_def far_set_acc far_write_bar split: if_splits)
qed

lemma far_bars_on_trade: "bars_on_trade g t = Some g' \<Longrightarrow> far_accs g' = far_accs g"
  using far_volume_loop [of "te_symbol_id t" t _ g']
  by (auto simp: bars_on_trade_def on_volume_def Let_def far_set_acc far_on_time not_le split: if_splits)

lemma far_flush_all: "far_accs (flush_all g) = far_accs g"
proof -
  have "far_accs (flush_symbol g s) = far_accs g" if "s < kMaxSymbols" for g s
    using that by (simp add: flush_symbol_def Let_def far_set_acc far_write_bar)
  then have "\<forall>s \<in> set ss. s < kMaxSymbols \<Longrightarrow> far_accs (foldl flush_symbol g ss) = far_accs g" for ss g
    by (induction ss arbitrary: g) auto
  moreover have "(of_nat n :: u32) < kMaxSymbols" if "n < 32" for n
    using that by (simp add: word_less_nat_alt kMaxSymbols_def unat_of_nat take_bit_eq_mod)
  ultimately show ?thesis by (simp add: flush_all_def kMaxSymbols_def)
qed

section \<open>The handler\<close>

text \<open>Everything beyond the declared sizes.\<close>

definition far_cells :: "'h FeedHandler \<Rightarrow> nat \<Rightarrow> Slot \<times> PipelineEvent QSlot \<times> Acc \<times> Acc" where
  "far_cells h i = (st_window (fh_tracker h) (i + 64), sq_slots (fh_queue h) (i + 16384), far_accs (fh_bars h) i)"

lemma far_updates [simp]:
  "far_cells (h\<lparr>fh_clock := c\<rparr>) = far_cells h" "far_cells (h\<lparr>fh_stats := s\<rparr>) = far_cells h"
  "far_cells (h\<lparr>fh_book := b\<rparr>) = far_cells h" "far_cells (h\<lparr>fh_bbo := p\<rparr>) = far_cells h"
  "far_cells (h\<lparr>fh_tape := w\<rparr>) = far_cells h" "far_cells (h\<lparr>fh_stuck := x\<rparr>) = far_cells h"
  "far_cells (h\<lparr>fh_sched := n\<rparr>) = far_cells h" "far_cells (h\<lparr>fh_stop := x\<rparr>) = far_cells h"
  by (simp_all add: far_cells_def fun_eq_iff)

lemma far_components:
  "(\<And>i. 16384 \<le> i \<Longrightarrow> sq_slots q i = sq_slots (fh_queue h) i) \<Longrightarrow> far_cells (h\<lparr>fh_queue := q\<rparr>) = far_cells h"
  "(\<And>i. 64 \<le> i \<Longrightarrow> st_window t i = st_window (fh_tracker h) i) \<Longrightarrow> far_cells (h\<lparr>fh_tracker := t\<rparr>) = far_cells h"
  "far_accs g = far_accs (fh_bars h) \<Longrightarrow> far_cells (h\<lparr>fh_bars := g\<rparr>) = far_cells h"
  by (simp_all add: far_cells_def fun_eq_iff)

lemma far_queue:
  "try_push kEventQueueCapacity x (fh_queue h) = (ok, q) \<Longrightarrow> far_cells (h\<lparr>fh_queue := q\<rparr>) = far_cells h"
  "try_pop kEventQueueCapacity (fh_queue h) = (y, q) \<Longrightarrow> far_cells (h\<lparr>fh_queue := q\<rparr>) = far_cells h"
  using queue_far [where q = "fh_queue h"] by (metis far_components(1) snd_conv)+

lemma far_consumer_turn: "far_cells (consumer_turn env h) = far_cells h"
proof -
  obtain y q where p: "try_pop kEventQueueCapacity (fh_queue h) = (y, q)" by fastforce
  note f = far_queue(2) [OF p]
  show ?thesis
  proof (cases y)
    case (Some ev)
    show ?thesis
    proof (cases "bars_on_trade (fh_bars h) (pe_trade ev)")
      case None
      then show ?thesis using f by (simp add: consumer_turn_def p Some now_ns_def Let_def split: EventKind.splits)
    next
      case (Some g)
      have "far_cells (h'\<lparr>fh_bars := g\<rparr>) = far_cells h'" if "fh_bars h' = fh_bars h" for h' :: "'a FeedHandler"
        using far_bars_on_trade [OF Some] that by (intro far_components(3)) simp
      then show ?thesis using f Some
        by (simp add: consumer_turn_def p \<open>y = Some ev\<close> now_ns_def Let_def split: EventKind.splits)
    qed
  qed (simp add: consumer_turn_def p f)
qed

lemma far_consumer_runs: "far_cells (consumer_runs env h) = far_cells h"
proof -
  have "far_cells ((consumer_turn env ^^ n) h) = far_cells h" for n h
    by (induction n arbitrary: h) (simp_all add: far_consumer_turn)
  then show ?thesis by (simp add: consumer_runs_def)
qed

lemma far_publish: "far_cells (snd (publish env ev h)) = far_cells h"
proof -
  have "far_cells (snd (publish_tries env ev n h)) = far_cells h" for n
  proof (induction n arbitrary: h)
    case (Suc n)
    show ?case using Suc far_queue(1) [of ev "consumer_runs env h"] far_consumer_runs [of env h]
      by (auto simp: Let_def split: prod.splits bool.splits)
  qed simp
  then show ?thesis by (simp add: publish_def)
qed

lemma far_handle_frame: "far_cells (handle_frame env w p h f) = far_cells h"
  by (simp add: handle_frame_def handle_parsed_def now_ns_def publish_tick_def publish_trade_def far_publish Let_def
      split: prod.splits option.splits ParsedPayload.splits)

lemma far_try_recover: "far_cells (try_recover env h) = far_cells h"
proof -
  have "far_cells (h'\<lparr>fh_tracker := clear_gap (note_recovery (push_recovered (fh_tracker h) d) n)\<rparr>) = far_cells h'"
    if "fh_tracker h' = fh_tracker h" for h' :: "'a FeedHandler" and d n
    using that by (intro far_components(2)) (simp add: clear_gap_def note_recovery_def push_recovered_far)
  then show ?thesis by (auto simp: try_recover_def now_ns_def Let_def split: recovery_io.splits)
qed

lemma far_process_datagram: "far_cells (process_datagram env bs w h) = far_cells h"
proof -
  have push: "far_cells (h\<lparr>fh_tracker := snd (push (fh_tracker h) f)\<rparr>) = far_cells h" for f and h :: "'a FeedHandler"
    by (intro far_components(2)) (simp add: push_far)
  have clear: "far_cells (h\<lparr>fh_tracker := clear_ready (fh_tracker h)\<rparr>) = far_cells h" for h :: "'a FeedHandler"
    by (intro far_components(2)) (simp add: clear_ready_def)
  have frames: "far_cells (foldl (handle_frame env a b) h fs) = far_cells h" for a b fs and h :: "'a FeedHandler"
    by (induction fs arbitrary: h) (simp_all add: far_handle_frame)
  show ?thesis
    using push [of "h\<lparr>fh_clock := fh_clock h + 1\<rparr>"]
    by (simp add: process_datagram_def now_ns_def Let_def clear frames far_try_recover)
qed

lemma far_run_turn: "far_cells (run_turn env h d) = far_cells h"
  by (simp add: run_turn_def now_ns_def Let_def far_process_datagram split: option.splits)

text \<open>What the cells of a handler may hold between two datagrams.\<close>

definition window_typed :: "SequenceTracker \<Rightarrow> bool" where
  "window_typed t \<longleftrightarrow> (\<forall>i \<ge> 64. st_window t i = init_Slot) \<and>
     (\<forall>i < 64. length (sl_data (st_window t i)) = 44 \<and>
        (sl_occupied (st_window t i) \<longrightarrow> 20 \<le> unat (sl_length (st_window t i)) \<and> unat (sl_length (st_window t i)) \<le> 44))"

definition book_typed :: "BookBuilder \<Rightarrow> bool" where
  "book_typed b \<longleftrightarrow> (\<forall>i \<ge> 32. bb_books b i = init_SymbolBook) \<and>
     (\<forall>i d. let side = side_of d (bb_books b i) in
        (\<forall>p. sb_qty side p \<noteq> 0 \<longrightarrow> 1 \<le> p \<and> p \<le> 4096) \<and> (\<forall>w. sb_occupied side w \<noteq> 0 \<longrightarrow> w < 65) \<and>
        sb_best_price side \<le> 4096)"

definition ring_typed :: "PipelineEvent SpscQueue \<Rightarrow> bool" where
  "ring_typed q \<longleftrightarrow> (\<forall>i \<ge> 16384. sq_slots q i = sq_slots (init_SpscQueue init_PipelineEvent) i)"

definition bars_typed :: "BarAggregator \<Rightarrow> bool" where
  "bars_typed g \<longleftrightarrow> (\<forall>i \<ge> 32. ba_time_acc g i = init_Acc \<and> ba_vol_acc g i = init_Acc)"

text \<open>
  C9: No array of the handler is ever written out of bounds. After any datagrams, with any
  recovery replies and any scheduling of the consumer, the cells beyond the declared sizes
  of the reorder window, the books, the ring and the accumulators are as constructed; every
  slot of the window has its 44 bytes, and an occupied one a length of 20 to 44; every
  level with a quantity is one of 1 to 4096, every bitmap word in use one of the 65, and
  every best price is at most 4096, so the reads that use it are in range as well.
\<close>

theorem handler_arrays_typed:
  "let h = foldl (run_turn env) (start_run env (init_FeedHandler hdr_init opened cfg)) turns
   in window_typed (fh_tracker h) \<and> book_typed (fh_book h) \<and> ring_typed (fh_queue h) \<and> bars_typed (fh_bars h)"
proof -
  define h0 where "h0 = init_FeedHandler hdr_init opened cfg"
  define h where "h = foldl (run_turn env) (start_run env h0) turns"
  obtain fs where fs: "handled accepted False (start_run env h0) h fs"
    using run_turns_handled [OF handled_start, of False env accepted turns] unfolding h_def h0_def by blast
  then have w: "window_wf (fh_tracker h)" and b: "fh_book h = book_run init_BookBuilder (map frame_payload fs)"
    by (simp_all add: handled_def)
  have "far_cells (foldl (run_turn env) g ts) = far_cells g" for ts g
    by (induction ts arbitrary: g) (simp_all add: far_run_turn)
  then have "far_cells h = far_cells h0" by (simp add: h_def start_run_def now_ns_def)
  then have far: "st_window (fh_tracker h) (i + 64) = init_Slot"
      "sq_slots (fh_queue h) (i + 16384) = sq_slots (init_SpscQueue init_PipelineEvent) (i + 16384)"
      "ba_time_acc (fh_bars h) (i + 32) = init_Acc" "ba_vol_acc (fh_bars h) (i + 32) = init_Acc" for i
    by (simp_all add: fun_eq_iff far_cells_def far_accs_def h0_def init_FeedHandler_def init_SequenceTracker_def init_BarAggregator_def)
  have "st_window (fh_tracker h) i = init_Slot" if "64 \<le> i" for i using far(1) [of "i - 64"] that by simp
  then have "window_typed (fh_tracker h)" using w by (simp add: window_typed_def window_wf_def)
  moreover have "sq_slots (fh_queue h) i = sq_slots (init_SpscQueue init_PipelineEvent) i" if "16384 \<le> i" for i
    using far(2) [of "i - 16384"] that by simp
  then have "ring_typed (fh_queue h)" by (simp add: ring_typed_def)
  moreover have "ba_time_acc (fh_bars h) i = init_Acc \<and> ba_vol_acc (fh_bars h) i = init_Acc" if "32 \<le> i" for i
    using far(3,4) [of "i - 32"] that by simp
  then have "bars_typed (fh_bars h)" by (simp add: bars_typed_def)
  moreover have "book_typed (fh_book h)"
    unfolding book_typed_def b Let_def using book_run_far book_run_inv [of "map frame_payload fs"]
    by (blast intro: side_inv_cells [OF books_invD [OF book_invD(2)]] dest: side_inv_cells [OF books_invD [OF book_invD(2)]])
  ultimately show ?thesis by (simp add: h_def h0_def)
qed

end
