(* ===== verification/Bar_Reference.thy ===== *)
theory Bar_Reference
  imports Consumers
begin

text \<open>
  What the two kinds of bars are, stated without accumulators: a time bar summarises a block
  of consecutive trades of a symbol, a volume bar a chunk of the single units traded. The
  aggregator of \<^verbatim>\<open>src/consumers.cpp\<close> writes exactly these.
\<close>

section \<open>The reference\<close>

text \<open>
  The blocks of the trades of one symbol: a block ends with the first trade that is \<open>n\<close>
  nanoseconds or more after the one that opened it (the difference is unsigned), and never
  with the trade that opened it.
\<close>

fun time_blocks :: "u64 \<Rightarrow> TradeEvent list \<Rightarrow> TradeEvent list \<Rightarrow> TradeEvent list list" where
  "time_blocks n cur [] = (if cur = [] then [] else [cur])"
| "time_blocks n cur (t # ts) =
     (if cur \<noteq> [] \<and> n \<le> te_ts_ns t - te_ts_ns (hd cur) then (cur @ [t]) # time_blocks n [] ts
      else time_blocks n (cur @ [t]) ts)"

text \<open>Each traded unit as one element, and a list cut into pieces of \<open>n\<close>.\<close>

definition units :: "TradeEvent list \<Rightarrow> TradeEvent list" where
  "units ts = concat (map (\<lambda>t. replicate (unat (te_qty t)) t) ts)"

fun chunks :: "nat \<Rightarrow> 'a list \<Rightarrow> 'a list list" where
  "chunks n xs = (if n = 0 \<or> xs = [] then [] else take n xs # chunks n (drop n xs))"

declare chunks.simps [simp del]

definition trades_of :: "u32 \<Rightarrow> TradeEvent list \<Rightarrow> TradeEvent list" where
  "trades_of s ts = filter (\<lambda>t. te_symbol_id t = s) ts"

text \<open>The record for some trades of a symbol.\<close>

definition bar_of :: "u32 \<Rightarrow> nat \<Rightarrow> nat \<Rightarrow> TradeEvent list \<Rightarrow> bar_fields" where
  "bar_of s ty volume ts =
     (let prices = (\<lambda>t. unat (te_price t)) ` set ts in
      \<lparr>bf_symbol_id = unat s, bf_start_ts_ns = unat (te_ts_ns (hd ts)), bf_end_ts_ns = unat (te_ts_ns (last ts)),
       bf_open = unat (te_price (hd ts)), bf_high = Max prices, bf_low = Min prices,
       bf_close = unat (te_price (last ts)), bf_volume = volume, bf_bar_type = ty\<rparr>)"

definition time_bar_of :: "u32 \<Rightarrow> TradeEvent list \<Rightarrow> bar_fields" where
  "time_bar_of s ts = bar_of s 0 (sum_list (map (\<lambda>t. unat (te_qty t)) ts) mod 2 ^ 64) ts"

definition volume_bar_of :: "u32 \<Rightarrow> TradeEvent list \<Rightarrow> bar_fields" where
  "volume_bar_of s us = bar_of s 1 (length us) us"

definition records_of :: "u32 \<Rightarrow> nat \<Rightarrow> bar_fields list \<Rightarrow> bar_fields list" where
  "records_of s ty fs = filter (\<lambda>f. bf_symbol_id f = unat s \<and> bf_bar_type f = ty) fs"

section \<open>Accumulators as summaries\<close>

definition summary :: "u64 \<Rightarrow> TradeEvent list \<Rightarrow> Acc" where
  "summary v ts =
     (if ts = [] then init_Acc
      else \<lparr>ac_active = True, ac_start_ts = te_ts_ns (hd ts), ac_end_ts = te_ts_ns (last ts),
            ac_open = te_price (hd ts), ac_high = Max (te_price ` set ts), ac_low = Min (te_price ` set ts),
            ac_close = te_price (last ts), ac_volume = v\<rparr>)"

lemma summary_fields [simp]:
  "ac_active (summary v ts) \<longleftrightarrow> ts \<noteq> []" "ts \<noteq> [] \<Longrightarrow> ac_volume (summary v ts) = v"
  "ts \<noteq> [] \<Longrightarrow> ac_start_ts (summary v ts) = te_ts_ns (hd ts)" "summary v [] = init_Acc"
  by (simp_all add: summary_def init_Acc_def)

lemma summary_single: "open_acc t = summary (ucast (te_qty t)) [t]"
  by (simp add: summary_def open_acc_def)

lemma summary_snoc:
  assumes "ts \<noteq> []"
  shows "extend_acc (summary v ts) t = summary (v + ucast (te_qty t)) (ts @ [t])"
proof -
  define P where "P = te_price ` set ts"
  have P: "finite P" "P \<noteq> {}" using assms by (simp_all add: P_def)
  have "Max (insert p P) = (if Max P < p then p else Max P)" "Min (insert p P) = (if p < Min P then p else Min P)" for p
    using Max_insert [OF P, of p] Min_insert [OF P, of p] by (auto simp only: max_def min_def not_less split: if_splits)
  then show ?thesis using assms by (simp add: summary_def extend_acc_def P_def [symmetric])
qed

lemma summary_cong:
  assumes "set ts = set us" "ts \<noteq> []" "hd ts = hd us" "last ts = last us"
  shows "summary v ts = summary v us"
  using assms by (auto simp: summary_def)

lemma fields_summary:
  assumes "ts \<noteq> []"
  shows "fields_of_bar (make_bar s (summary v ts) ty) = bar_of s (unat ty) (unat v) ts"
proof -
  have m: "mono (unat :: u32 \<Rightarrow> nat)" by (simp add: mono_def word_le_nat_alt)
  have "Max (unat ` te_price ` set ts) = unat (Max (te_price ` set ts))"
    "Min (unat ` te_price ` set ts) = unat (Min (te_price ` set ts))"
    using mono_Max_commute [OF m, of "te_price ` set ts"] mono_Min_commute [OF m, of "te_price ` set ts"] assms by simp_all
  then show ?thesis
    using assms by (simp add: fields_of_bar_def make_bar_def summary_def bar_of_def Let_def image_image)
qed

text \<open>The records of one symbol and type, before they are read back.\<close>

definition bars_of :: "u32 \<Rightarrow> u8 \<Rightarrow> BinaryBar list \<Rightarrow> BinaryBar list" where
  "bars_of s ty bars = filter (\<lambda>b. bar_symbol_id b = s \<and> bar_type b = ty) bars"

lemma bars_of_append [simp]: "bars_of s ty (xs @ ys) = bars_of s ty xs @ bars_of s ty ys"
  by (simp add: bars_of_def)

lemma bars_of_single [simp]: "bars_of s ty [make_bar s' a ty'] = (if s' = s \<and> ty' = ty then [make_bar s' a ty'] else [])"
  by (simp add: bars_of_def)

lemma bars_of_map [simp]:
  "bars_of s ty (map (\<lambda>x. make_bar s' (f x) ty') xs) = (if s' = s \<and> ty' = ty then map (\<lambda>x. make_bar s' (f x) ty') xs else [])"
  by (auto simp: bars_of_def filter_map comp_def)

lemma records_of_bars: "records_of s (unat ty) (map fields_of_bar bars) = map fields_of_bar (bars_of s ty bars)"
proof -
  have "bf_symbol_id (fields_of_bar b) = unat s \<and> bf_bar_type (fields_of_bar b) = unat ty \<longleftrightarrow>
      bar_symbol_id b = s \<and> bar_type b = ty" for b
    using unsigned_word_eqI [of "bar_type b" ty] by (auto simp: fields_of_bar_def unat_inject)
  then show ?thesis by (simp add: records_of_def bars_of_def filter_map comp_def)
qed

section \<open>Time bars\<close>

definition qty_sum :: "TradeEvent list \<Rightarrow> u64" where
  "qty_sum ts = sum_list (map (\<lambda>t. ucast (te_qty t)) ts)"

abbreviation block_acc :: "TradeEvent list \<Rightarrow> Acc" where
  "block_acc ts \<equiv> summary (qty_sum ts) ts"

lemma unat_qty_sum: "unat (qty_sum ts) = sum_list (map (\<lambda>t. unat (te_qty t)) ts) mod 2 ^ 64"
proof -
  have "qty_sum ts = of_nat (sum_list (map (\<lambda>t. unat (te_qty t)) ts))"
    by (induction ts) (simp_all add: qty_sum_def)
  then show ?thesis by (simp add: unat_of_nat take_bit_eq_mod)
qed

lemma init_Acc_inactive [simp]: "\<not> ac_active init_Acc"
  by (simp add: init_Acc_def)

lemma block_acc_next:
  "(if \<not> ac_active (block_acc cur) then open_acc t else extend_acc (block_acc cur) t) = block_acc (cur @ [t])"
  by (cases "cur = []") (simp_all add: summary_single summary_snoc qty_sum_def)

lemma on_time_block:
  fixes g s t cur
  assumes "ba_time_acc g (unat s) = block_acc cur"
  defines "a \<equiv> block_acc (cur @ [t])"
  shows "on_time g s t =
    (if cur \<noteq> [] \<and> ba_time_bar_ns g \<le> te_ts_ns t - te_ts_ns (hd cur)
     then set_time_acc (write_bar (set_time_acc g s a) s a 0) s init_Acc else set_time_acc g s a)"
proof (cases "cur = []")
  case False
  then have "extend_acc (block_acc cur) t = a" using block_acc_next [of cur t] by (simp add: a_def)
  moreover have "ac_start_ts a = te_ts_ns (hd cur)" using False by (simp add: a_def)
  ultimately show ?thesis using False assms(1) by (simp add: on_time_def Let_def)
qed (use assms(1) block_acc_next [of "[]" t] in \<open>simp add: on_time_def Let_def a_def\<close>)

section \<open>Volume bars\<close>

abbreviation chunk_acc :: "TradeEvent list \<Rightarrow> Acc" where
  "chunk_acc us \<equiv> summary (of_nat (length us)) us"

lemma units_snoc: "units (ts @ [t]) = units ts @ replicate (unat (te_qty t)) t"
  by (simp add: units_def)

lemma summary_replicate: "0 < k \<Longrightarrow> summary v (us @ replicate k t) = summary v (us @ [t])"
  by (rule summary_cong) (auto simp: hd_append)

lemma of_nat_u64_nonzero: "0 < d \<Longrightarrow> d < 2 ^ 64 \<Longrightarrow> (of_nat d :: u64) \<noteq> 0"
  by (simp add: word_of_nat_eq_0_iff nat_dvd_not_less)

text \<open>The loop on \<open>r\<close> pending units of earlier trades and \<open>k\<close> of the trade that is added.\<close>

lemma volume_loop_chunks:
  assumes q: "ba_volume_bar_qty g = q" "length r < unat q" and k: "0 < k" "length r + k < 2 ^ 64"
    and a: "ba_vol_acc g (unat s) = chunk_acc (r @ replicate k t)" and l: "bar_log g bars"
  shows "\<exists>g' cs r'. volume_loop s t g = Some g' \<and> bar_log g' (bars @ map (\<lambda>c. make_bar s (chunk_acc c) 1) cs) \<and>
    ba_vol_acc g' = (ba_vol_acc g)(unat s := chunk_acc r') \<and> r @ replicate k t = concat cs @ r' \<and>
    (\<forall>c \<in> set cs. length c = unat q) \<and> length r' < unat q \<and> ba_time_acc g' = ba_time_acc g \<and>
    ba_volume_bar_qty g' = q \<and> ba_time_bar_ns g' = ba_time_bar_ns g"
  using q k a l
proof (induction k arbitrary: g r bars rule: less_induct)
  case (less k)
  let ?us = "r @ replicate k t" and ?a = "ba_vol_acc g (unat s)"
  have us: "?us \<noteq> []" "length ?us = length r + k" using less.prems(3) by auto
  have act: "ac_active ?a" "ac_volume ?a = of_nat (length r + k)" using less.prems(5) us by simp_all
  have le: "q \<le> ac_volume ?a \<longleftrightarrow> unat q \<le> length r + k"
    using act(2) less.prems(4) by (simp add: word_le_nat_alt unat_of_nat take_bit_eq_mod del: of_nat_add)
  show ?case
  proof (cases "unat q \<le> length r + k")
    case False
    then have "volume_loop s t g = Some g" using le less.prems(1) by (subst volume_loop.simps) (auto simp: Let_def)
    then show ?thesis using False less.prems by (intro exI [of _ g] exI [of _ "[]"] exI [of _ ?us]) auto
  next
    case True
    define j where "j = unat q - length r"
    define c where "c = r @ replicate j t"
    have j: "0 < j" "j \<le> k" "length c = unat q" using True less.prems(2) by (simp_all add: j_def c_def)
    have split: "?us = c @ replicate (k - j) t" using j(2) by (simp add: c_def flip: replicate_add)
    have e: "?a\<lparr>ac_volume := q\<rparr> = chunk_acc c"
    proof -
      have "?a\<lparr>ac_volume := q\<rparr> = summary q (r @ [t])"
        using less.prems(5) summary_replicate [OF less.prems(3)] by (simp add: summary_def)
      also have "\<dots> = summary q c" using summary_replicate [OF j(1)] by (simp add: c_def)
      finally show ?thesis using j(3) by simp
    qed
    have left: "ac_volume ?a - q = of_nat (k - j)"
    proof -
      have "length r + k = unat q + (k - j)" using j(2,3) by (simp add: c_def)
      then have "ac_volume ?a = of_nat (unat q) + of_nat (k - j)" unfolding act(2) by (simp only: of_nat_add)
      then show ?thesis by simp
    qed
    let ?w = "write_bar g s (chunk_acc c) 1" and ?b = "make_bar s (chunk_acc c) 1"
    have w: "bar_log ?w (bars @ [?b])" using less.prems(6) by (rule write_bar_log)
    show ?thesis
    proof (cases "k = j")
      case True
      then have "volume_loop s t g = Some (set_vol_acc ?w s init_Acc)"
        using le \<open>unat q \<le> length r + k\<close> act(1) left e less.prems(1) by (subst volume_loop.simps) (simp add: Let_def)
      then show ?thesis using w True split j(3) less.prems(1,2)
        by (intro exI [of _ "set_vol_acc ?w s init_Acc"] exI [of _ "[c]"] exI [of _ "[]"]) auto
    next
      case False
      have p: "0 < k - j" "k - j < k" "k - j < 2 ^ 64" using False j(1,2) less.prems(4) by auto
      then have ne: "(of_nat (k - j) :: u64) \<noteq> 0" by (intro of_nat_u64_nonzero)
      have nq: "ac_volume ?a \<noteq> q" using left ne by auto
      let ?g = "set_vol_acc ?w s (rest_acc ?a (of_nat (k - j)) t)"
      have "rest_acc ?a (of_nat (k - j)) t = summary (of_nat (k - j)) [t]"
        using less.prems(5) summary_replicate [OF less.prems(3), of _ r t] by (simp add: rest_acc_def summary_def)
      then have r: "rest_acc ?a (of_nat (k - j)) t = chunk_acc (replicate (k - j) t)"
        using summary_replicate [OF p(1), of _ "[]" t] by simp
      have step: "volume_loop s t g = volume_loop s t ?g"
        using le \<open>unat q \<le> length r + k\<close> act(1) left e ne nq less.prems(1)
        by (subst volume_loop.simps) (simp add: Let_def rest_acc_def)
      have "\<exists>g' cs r'. volume_loop s t ?g = Some g' \<and> bar_log g' ((bars @ [?b]) @ map (\<lambda>c. make_bar s (chunk_acc c) 1) cs) \<and>
        ba_vol_acc g' = (ba_vol_acc ?g)(unat s := chunk_acc r') \<and> [] @ replicate (k - j) t = concat cs @ r' \<and>
        (\<forall>c \<in> set cs. length c = unat q) \<and> length r' < unat q \<and> ba_time_acc g' = ba_time_acc ?g \<and>
        ba_volume_bar_qty g' = q \<and> ba_time_bar_ns g' = ba_time_bar_ns ?g"
      proof (rule less.IH [OF p(2)])
        show "ba_vol_acc ?g (unat s) = chunk_acc ([] @ replicate (k - j) t)" using r by simp
      qed (use p(1,3) less.prems(1,2) w in simp_all)
      then obtain g' cs r' where g': "volume_loop s t g = Some g'"
        "bar_log g' (bars @ map (\<lambda>c. make_bar s (chunk_acc c) 1) (c # cs))"
        "ba_vol_acc g' = (ba_vol_acc g)(unat s := chunk_acc r')" "replicate (k - j) t = concat cs @ r'"
        "\<forall>c \<in> set cs. length c = unat q" "length r' < unat q" "ba_time_acc g' = ba_time_acc g"
        "ba_volume_bar_qty g' = q" "ba_time_bar_ns g' = ba_time_bar_ns g" unfolding step by auto
      then show ?thesis using split j(3) by (intro exI [of _ g'] exI [of _ "c # cs"] exI [of _ r']) simp
    qed
  qed
qed

section \<open>Both kinds together\<close>

text \<open>
  The records of a symbol and type are those of \<open>closed\<close>, and the accumulator has the
  trades \<open>cur\<close>.
\<close>

definition held :: "Acc array \<Rightarrow> u8 \<Rightarrow> (TradeEvent list \<Rightarrow> Acc) \<Rightarrow> BinaryBar list \<Rightarrow> u32 \<Rightarrow>
    TradeEvent list list \<Rightarrow> TradeEvent list \<Rightarrow> bool" where
  "held accs ty f bars s closed cur \<longleftrightarrow>
     bars_of s ty bars = map (\<lambda>b. make_bar s (f b) ty) closed \<and> [] \<notin> set closed \<and> accs (unat s) = f cur"

abbreviation time_held :: "BarAggregator \<Rightarrow> BinaryBar list \<Rightarrow> u32 \<Rightarrow> TradeEvent list list \<Rightarrow> TradeEvent list \<Rightarrow> bool" where
  "time_held g \<equiv> held (ba_time_acc g) 0 block_acc"

abbreviation volume_held :: "BarAggregator \<Rightarrow> BinaryBar list \<Rightarrow> u32 \<Rightarrow> TradeEvent list list \<Rightarrow> TradeEvent list \<Rightarrow> bool" where
  "volume_held g \<equiv> held (ba_vol_acc g) 1 chunk_acc"

definition time_ok :: "BarAggregator \<Rightarrow> BinaryBar list \<Rightarrow> TradeEvent list \<Rightarrow> u32 \<Rightarrow> bool" where
  "time_ok g bars ts s \<longleftrightarrow> (\<exists>closed cur. time_held g bars s closed cur \<and>
     (\<forall>us. time_blocks (ba_time_bar_ns g) [] (trades_of s ts @ us) = closed @ time_blocks (ba_time_bar_ns g) cur us))"

definition volume_ok :: "BarAggregator \<Rightarrow> BinaryBar list \<Rightarrow> TradeEvent list \<Rightarrow> u32 \<Rightarrow> bool" where
  "volume_ok g bars ts s \<longleftrightarrow> (\<exists>cs r. volume_held g bars s cs r \<and> units (trades_of s ts) = concat cs @ r \<and>
     (\<forall>c \<in> set cs. length c = unat (ba_volume_bar_qty g)) \<and> length r < unat (ba_volume_bar_qty g))"

lemma trades_of_snoc: "trades_of s (ts @ [t]) = trades_of s ts @ (if te_symbol_id t = s then [t] else [])"
  by (simp add: trades_of_def)

lemma held_other:
  "held accs ty f bars s closed cur \<Longrightarrow> bars_of s ty new = [] \<Longrightarrow> accs' (unat s) = accs (unat s) \<Longrightarrow>
   held accs' ty f (bars @ new) s closed cur"
  by (simp add: held_def)

lemma on_time_ok:
  assumes ok: "time_ok g bars ts (te_symbol_id t)" and l: "bar_log g bars"
  defines "g' \<equiv> on_time g (te_symbol_id t) t"
  obtains new where "bar_log g' (bars @ new)" "time_ok g' (bars @ new) (ts @ [t]) (te_symbol_id t)"
    "\<And>s ty. s \<noteq> te_symbol_id t \<or> ty \<noteq> 0 \<Longrightarrow> bars_of s ty new = []"
    "\<And>s. s \<noteq> te_symbol_id t \<Longrightarrow> ba_time_acc g' (unat s) = ba_time_acc g (unat s)" "ba_vol_acc g' = ba_vol_acc g"
    "ba_volume_bar_qty g' = ba_volume_bar_qty g" "ba_time_bar_ns g' = ba_time_bar_ns g"
proof -
  let ?s = "te_symbol_id t" and ?n = "ba_time_bar_ns g"
  obtain closed cur where c: "time_held g bars ?s closed cur"
    "\<And>us. time_blocks ?n [] (trades_of ?s ts @ us) = closed @ time_blocks ?n cur us"
    using ok unfolding time_ok_def by blast
  let ?a = "block_acc (cur @ [t])"
  note step = on_time_block [of g ?s cur t, folded g'_def]
  have b: "time_blocks ?n [] (trades_of ?s (ts @ [t]) @ us) = closed @ time_blocks ?n cur (t # us)" for us
    using c(2) [of "t # us"] by (simp add: trades_of_snoc)
  show thesis
  proof (cases "cur \<noteq> [] \<and> ?n \<le> te_ts_ns t - te_ts_ns (hd cur)")
    case True
    then have g': "g' = set_time_acc (write_bar (set_time_acc g ?s ?a) ?s ?a 0) ?s init_Acc"
      using step c(1) by (simp add: held_def)
    have "time_held g' (bars @ [make_bar ?s ?a 0]) ?s (closed @ [cur @ [t]]) []"
      using c(1) by (simp add: held_def g')
    then have "time_ok g' (bars @ [make_bar ?s ?a 0]) (ts @ [t]) ?s"
      unfolding time_ok_def using b True g' by (intro exI conjI) (assumption, simp)
    then show thesis using l by (intro that [of "[make_bar ?s ?a 0]"]) (auto simp: g' write_bar_log unat_inject)
  next
    case False
    then have g': "g' = set_time_acc g ?s ?a" using step c(1) unfolding held_def by (metis (no_types))
    have "time_held g' bars ?s closed (cur @ [t])" using c(1) by (simp add: held_def g')
    then have "time_ok g' bars (ts @ [t]) ?s"
      unfolding time_ok_def using b False g' by (intro exI conjI) (assumption, auto)
    then show thesis using l by (intro that [of "[]"]) (auto simp: g' unat_inject bars_of_def)
  qed
qed

lemma on_volume_ok:
  assumes ok: "volume_ok g bars ts (te_symbol_id t)" and l: "bar_log g bars"
    and q: "unat (ba_volume_bar_qty g) \<le> 2 ^ 63" and t: "te_qty t \<noteq> 0"
  obtains g' new where "on_volume g (te_symbol_id t) t = Some g'" "bar_log g' (bars @ new)"
    "volume_ok g' (bars @ new) (ts @ [t]) (te_symbol_id t)"
    "\<And>s ty. s \<noteq> te_symbol_id t \<or> ty \<noteq> 1 \<Longrightarrow> bars_of s ty new = []"
    "\<And>s. s \<noteq> te_symbol_id t \<Longrightarrow> ba_vol_acc g' (unat s) = ba_vol_acc g (unat s)" "ba_time_acc g' = ba_time_acc g"
    "ba_volume_bar_qty g' = ba_volume_bar_qty g" "ba_time_bar_ns g' = ba_time_bar_ns g"
proof -
  let ?s = "te_symbol_id t" and ?q = "ba_volume_bar_qty g" and ?k = "unat (te_qty t)"
  obtain cs r where r: "volume_held g bars ?s cs r" "units (trades_of ?s ts) = concat cs @ r"
    "\<forall>c \<in> set cs. length c = unat ?q" "length r < unat ?q" using ok unfolding volume_ok_def by blast
  have k: "0 < ?k" "length r + ?k < 2 ^ 64"
    using t r(4) q unsigned_less [of "te_qty t", where 'a = nat] by (simp_all add: unat_gt_0)
  let ?o = "ba_vol_acc g (unat ?s)" and ?us = "r @ replicate ?k t"
  have "(if \<not> ac_active ?o then open_acc t else extend_acc ?o t) = summary (of_nat (length r) + ucast (te_qty t)) (r @ [t])"
    using r(1) by (cases "r = []") (simp_all add: held_def summary_single summary_snoc)
  also have "of_nat (length r) + ucast (te_qty t) = (of_nat (length ?us) :: u64)" by simp
  also have "summary (of_nat (length ?us)) (r @ [t]) = chunk_acc ?us" using summary_replicate [OF k(1)] by simp
  finally have a: "(if \<not> ac_active ?o then open_acc t else extend_acc ?o t) = chunk_acc ?us" .
  let ?g = "set_vol_acc g ?s (chunk_acc ?us)"
  have "ba_volume_bar_qty ?g = ?q" "ba_vol_acc ?g (unat ?s) = chunk_acc ?us" "bar_log ?g bars" using l by simp_all
  from volume_loop_chunks [OF this(1) r(4) k this(2,3)]
  obtain g' cs' r' where g': "volume_loop ?s t ?g = Some g'" "bar_log g' (bars @ map (\<lambda>c. make_bar ?s (chunk_acc c) 1) cs')"
    "ba_vol_acc g' = (ba_vol_acc ?g)(unat ?s := chunk_acc r')" "?us = concat cs' @ r'"
    "\<forall>c \<in> set cs'. length c = unat ?q" "length r' < unat ?q" "ba_time_acc g' = ba_time_acc ?g"
    "ba_volume_bar_qty g' = ?q" "ba_time_bar_ns g' = ba_time_bar_ns ?g" by blast
  have "[] \<notin> set cs'" using g'(5,6) by auto
  then have "volume_held g' (bars @ map (\<lambda>c. make_bar ?s (chunk_acc c) 1) cs') ?s (cs @ cs') r'"
    using r(1) g'(3) by (simp add: held_def)
  moreover have "units (trades_of ?s (ts @ [t])) = concat (cs @ cs') @ r'"
    using r(2) g'(4) by (simp add: trades_of_snoc units_snoc)
  ultimately have "volume_ok g' (bars @ map (\<lambda>c. make_bar ?s (chunk_acc c) 1) cs') (ts @ [t]) ?s"
    unfolding volume_ok_def g'(8) using r(3) g'(5,6) by (intro exI conjI) (assumption, assumption, auto)
  moreover have "on_volume g ?s t = Some g'" using g'(1) a by (simp add: on_volume_def Let_def)
  ultimately show thesis using g'(2,3,7-9)
    by (intro that [of g' "map (\<lambda>c. make_bar ?s (chunk_acc c) 1) cs'"]) (auto simp: unat_inject)
qed

definition bars_ok :: "BarAggregator \<Rightarrow> BinaryBar list \<Rightarrow> TradeEvent list \<Rightarrow> bool" where
  "bars_ok g bars ts \<longleftrightarrow> bar_log g bars \<and> (\<forall>s < kMaxSymbols. time_ok g bars ts s \<and> volume_ok g bars ts s)"

lemma ok_other:
  assumes "bars_of s 0 new = []" "bars_of s 1 new = []" "te_symbol_id t \<noteq> s"
    "ba_time_bar_ns g' = ba_time_bar_ns g" "ba_volume_bar_qty g' = ba_volume_bar_qty g"
    "ba_time_acc g' (unat s) = ba_time_acc g (unat s)" "ba_vol_acc g' (unat s) = ba_vol_acc g (unat s)"
  shows "time_ok g bars ts s \<Longrightarrow> time_ok g' (bars @ new) (ts @ [t]) s"
    "volume_ok g bars ts s \<Longrightarrow> volume_ok g' (bars @ new) (ts @ [t]) s"
  using assms by (auto simp: time_ok_def volume_ok_def held_def trades_of_snoc)

lemma bars_on_trade_ok:
  assumes ok: "bars_ok g bars ts" and q: "unat (ba_volume_bar_qty g) \<le> 2 ^ 63" and t: "te_qty t \<noteq> 0"
  shows "\<exists>g' bars'. bars_on_trade g t = Some g' \<and> bars_ok g' bars' (ts @ [t]) \<and>
    ba_volume_bar_qty g' = ba_volume_bar_qty g \<and> ba_time_bar_ns g' = ba_time_bar_ns g"
proof (cases "te_symbol_id t < kMaxSymbols")
  case False
  then have "bars_on_trade g t = Some g" by (simp add: bars_on_trade_def not_less)
  moreover have "te_symbol_id t \<noteq> s" if "s < kMaxSymbols" for s using False that by auto
  then have "bars_ok g (bars @ []) (ts @ [t])" using ok ok_other [of _ "[]" t g g bars ts] by (simp add: bars_ok_def bars_of_def)
  ultimately show ?thesis by auto
next
  case True
  let ?s = "te_symbol_id t"
  have l: "bar_log g bars" "time_ok g bars ts ?s" "volume_ok g bars ts ?s" using ok True by (simp_all add: bars_ok_def)
  obtain new where n: "bar_log (on_time g ?s t) (bars @ new)" "time_ok (on_time g ?s t) (bars @ new) (ts @ [t]) ?s"
    "\<And>s ty. s \<noteq> ?s \<or> ty \<noteq> 0 \<Longrightarrow> bars_of s ty new = []"
    "\<And>s. s \<noteq> ?s \<Longrightarrow> ba_time_acc (on_time g ?s t) (unat s) = ba_time_acc g (unat s)"
    "ba_vol_acc (on_time g ?s t) = ba_vol_acc g" "ba_volume_bar_qty (on_time g ?s t) = ba_volume_bar_qty g"
    "ba_time_bar_ns (on_time g ?s t) = ba_time_bar_ns g"
    using on_time_ok [OF l(2,1)] by metis
  have "volume_ok (on_time g ?s t) (bars @ new) ts ?s"
    using l(3) n(3) [of ?s 1] n(5,6) by (simp add: volume_ok_def held_def)
  from on_volume_ok [OF this n(1) _ t] q n(6)
  obtain g' new' where v: "on_volume (on_time g ?s t) ?s t = Some g'" "bar_log g' ((bars @ new) @ new')"
    "volume_ok g' ((bars @ new) @ new') (ts @ [t]) ?s" "\<And>s ty. s \<noteq> ?s \<or> ty \<noteq> 1 \<Longrightarrow> bars_of s ty new' = []"
    "\<And>s. s \<noteq> ?s \<Longrightarrow> ba_vol_acc g' (unat s) = ba_vol_acc (on_time g ?s t) (unat s)"
    "ba_time_acc g' = ba_time_acc (on_time g ?s t)" "ba_volume_bar_qty g' = ba_volume_bar_qty (on_time g ?s t)"
    "ba_time_bar_ns g' = ba_time_bar_ns (on_time g ?s t)" by metis
  have "time_ok g' (bars @ new @ new') (ts @ [t]) ?s"
    using n(2) v(4) [of ?s 0] v(6,8) by (simp add: time_ok_def held_def)
  moreover have "time_ok g' (bars @ new @ new') (ts @ [t]) s \<and> volume_ok g' (bars @ new @ new') (ts @ [t]) s"
    if "s < kMaxSymbols" "s \<noteq> ?s" for s
    using ok that ok_other [of s "new @ new'" t g' g bars ts] n(3) [of s] v(4) [of s] n(4) [of s] v(5) [of s] n(5-7) v(6-8)
    by (simp add: bars_ok_def)
  ultimately have "bars_ok g' (bars @ new @ new') (ts @ [t])"
    using v(2,3) unfolding bars_ok_def by (metis append.assoc)
  moreover have "bars_on_trade g t = Some g'" using True v(1) by (simp add: bars_on_trade_def not_le)
  ultimately show ?thesis using v(7,8) n(6,7) by metis
qed

lemma bars_run_ok:
  assumes "bars_ok g bars ts" "unat (ba_volume_bar_qty g) \<le> 2 ^ 63" "\<forall>u \<in> set us. te_qty u \<noteq> 0"
  shows "\<exists>g' bars'. bars_run g us = Some g' \<and> bars_ok g' bars' (ts @ us) \<and>
    ba_volume_bar_qty g' = ba_volume_bar_qty g \<and> ba_time_bar_ns g' = ba_time_bar_ns g"
  using assms
proof (induction us arbitrary: g bars ts)
  case (Cons u us)
  from bars_on_trade_ok [OF Cons.prems(1,2), of u] Cons.prems(3)
  obtain g1 b1 where g1: "bars_on_trade g u = Some g1" "bars_ok g1 b1 (ts @ [u])"
    "ba_volume_bar_qty g1 = ba_volume_bar_qty g" "ba_time_bar_ns g1 = ba_time_bar_ns g" by auto
  then show ?case using Cons.IH [OF g1(2)] Cons.prems(2,3) by simp
qed auto

section \<open>The final flush\<close>

text \<open>All blocks (chunks) \<open>bs\<close> of a symbol are written but for the last, which may be pending.\<close>

definition part_of :: "Acc array \<Rightarrow> u8 \<Rightarrow> (TradeEvent list \<Rightarrow> Acc) \<Rightarrow> BinaryBar list \<Rightarrow> u32 \<Rightarrow> TradeEvent list list \<Rightarrow> bool" where
  "part_of accs ty f bars s bs \<longleftrightarrow> (\<exists>closed cur. held accs ty f bars s closed cur \<and>
     (ty = 0 \<or> cur = [] \<or> ac_volume (f cur) \<noteq> 0) \<and> bs = closed @ (if cur = [] then [] else [cur]))"

abbreviation parts_ok :: "BarAggregator \<Rightarrow> BinaryBar list \<Rightarrow> (u32 \<Rightarrow> TradeEvent list list) \<Rightarrow> (u32 \<Rightarrow> TradeEvent list list) \<Rightarrow> u32 \<Rightarrow> bool" where
  "parts_ok g bars B C s \<equiv> part_of (ba_time_acc g) 0 block_acc bars s (B s) \<and> part_of (ba_vol_acc g) 1 chunk_acc bars s (C s)"

definition empty_at :: "BarAggregator \<Rightarrow> u32 \<Rightarrow> bool" where
  "empty_at g s \<longleftrightarrow> \<not> ac_active (ba_time_acc g (unat s)) \<and> \<not> ac_active (ba_vol_acc g (unat s))"

lemma part_of_written:
  assumes "part_of accs ty (\<lambda>us. summary (v us) us) bars s bs" "ac_active (accs (unat s))"
  shows "part_of (accs(unat s := init_Acc)) ty (\<lambda>us. summary (v us) us) (bars @ [make_bar s (accs (unat s)) ty]) s bs"
proof -
  from assms(1) obtain closed cur where c: "held accs ty (\<lambda>us. summary (v us) us) bars s closed cur"
    "bs = closed @ (if cur = [] then [] else [cur])" unfolding part_of_def by blast
  then have "cur \<noteq> []" using assms(2) by (auto simp: held_def)
  then show ?thesis unfolding part_of_def using c by (intro exI [of _ "closed @ [cur]"] exI [of _ "[]"]) (simp add: held_def)
qed

lemma part_of_append:
  "bars_of s ty new = [] \<Longrightarrow> accs' (unat s) = accs (unat s) \<Longrightarrow>
   part_of accs ty f bars s bs \<Longrightarrow> part_of accs' ty f (bars @ new) s bs"
  unfolding part_of_def using held_other by blast

lemma flush_time_parts:
  fixes g s
  defines "g' \<equiv> if ac_active (ba_time_acc g (unat s)) then set_time_acc (write_bar g s (ba_time_acc g (unat s)) 0) s init_Acc else g"
  assumes "bar_log g bars" "\<forall>s < kMaxSymbols. parts_ok g bars B C s" "s < kMaxSymbols"
  shows "\<exists>bars'. bar_log g' bars' \<and> (\<forall>s < kMaxSymbols. parts_ok g' bars' B C s)"
proof (cases "ac_active (ba_time_acc g (unat s))")
  case True
  let ?b = "make_bar s (ba_time_acc g (unat s)) 0"
  have g': "g' = set_time_acc (write_bar g s (ba_time_acc g (unat s)) 0) s init_Acc" using True by (simp add: g'_def)
  have "parts_ok g' (bars @ [?b]) B C s'" if "s' < kMaxSymbols" for s'
  proof (cases "s' = s")
    case same: True
    then show ?thesis using assms(3) that True part_of_written [of "ba_time_acc g" 0 qty_sum bars s "B s"]
      by (auto simp: g' intro: part_of_append)
  next
    case False
    then show ?thesis using assms(3) that by (auto simp: g' unat_inject intro: part_of_append)
  qed
  then show ?thesis using assms(2) by (intro exI [of _ "bars @ [?b]"]) (simp add: g' write_bar_log)
qed (use assms in auto)

lemma flush_volume_parts:
  fixes g s
  defines "g' \<equiv> if ac_active (ba_vol_acc g (unat s)) then set_vol_acc (write_bar g s (ba_vol_acc g (unat s)) 1) s init_Acc else g"
  assumes "bar_log g bars" "\<forall>s < kMaxSymbols. parts_ok g bars B C s" "s < kMaxSymbols"
  shows "\<exists>bars'. bar_log g' bars' \<and> (\<forall>s < kMaxSymbols. parts_ok g' bars' B C s)"
proof (cases "ac_active (ba_vol_acc g (unat s))")
  case True
  let ?b = "make_bar s (ba_vol_acc g (unat s)) 1"
  have g': "g' = set_vol_acc (write_bar g s (ba_vol_acc g (unat s)) 1) s init_Acc" using True by (simp add: g'_def)
  have "parts_ok g' (bars @ [?b]) B C s'" if "s' < kMaxSymbols" for s'
  proof (cases "s' = s")
    case same: True
    then show ?thesis using assms(3) that True part_of_written [of "ba_vol_acc g" 1 "\<lambda>us. of_nat (length us)" bars s "C s"]
      by (auto simp: g' intro: part_of_append)
  next
    case False
    then show ?thesis using assms(3) that by (auto simp: g' unat_inject intro: part_of_append)
  qed
  then show ?thesis using assms(2) by (intro exI [of _ "bars @ [?b]"]) (simp add: g' write_bar_log)
qed (use assms in auto)

text \<open>An active volume accumulator is never empty, so the second test of the flush never fails.\<close>

lemma flush_symbol_parts:
  assumes l: "bar_log g bars" and p: "\<forall>s < kMaxSymbols. parts_ok g bars B C s" and s: "s < kMaxSymbols"
  shows "\<exists>bars'. bar_log (flush_symbol g s) bars' \<and> (\<forall>s' < kMaxSymbols. parts_ok (flush_symbol g s) bars' B C s') \<and>
    empty_at (flush_symbol g s) s \<and> (\<forall>s'. empty_at g s' \<longrightarrow> empty_at (flush_symbol g s) s')"
proof -
  define g1 where "g1 = (if ac_active (ba_time_acc g (unat s)) then set_time_acc (write_bar g s (ba_time_acc g (unat s)) 0) s init_Acc else g)"
  define g2 where "g2 = (if ac_active (ba_vol_acc g1 (unat s)) then set_vol_acc (write_bar g1 s (ba_vol_acc g1 (unat s)) 1) s init_Acc else g1)"
  from flush_time_parts [OF l p s, folded g1_def] obtain b1 where b1: "bar_log g1 b1" "\<forall>s < kMaxSymbols. parts_ok g1 b1 B C s" by blast
  from flush_volume_parts [OF b1 s, folded g2_def] obtain b2 where b2: "bar_log g2 b2" "\<forall>s < kMaxSymbols. parts_ok g2 b2 B C s" by blast
  have "ac_volume (ba_vol_acc g1 (unat s)) > 0" if "ac_active (ba_vol_acc g1 (unat s))"
    using that b1(2) s by (auto simp: part_of_def held_def word_gt_0)
  then have e: "flush_symbol g s = g2" unfolding flush_symbol_def Let_def g1_def [symmetric] g2_def by simp
  have "empty_at g2 s" "\<forall>s'. empty_at g s' \<longrightarrow> empty_at g2 s'"
    unfolding empty_at_def g2_def g1_def by (auto simp: unat_inject)
  then show ?thesis unfolding e using b2 by blast
qed

lemma flush_fold_parts:
  assumes "bar_log g bars" "\<forall>s < kMaxSymbols. parts_ok g bars B C s" "\<forall>s \<in> set ss. s < kMaxSymbols"
  shows "\<exists>bars'. bar_log (foldl flush_symbol g ss) bars' \<and> (\<forall>s < kMaxSymbols. parts_ok (foldl flush_symbol g ss) bars' B C s) \<and>
    (\<forall>s. s \<in> set ss \<or> empty_at g s \<longrightarrow> empty_at (foldl flush_symbol g ss) s)"
  using assms
proof (induction ss arbitrary: g bars)
  case (Cons s ss)
  from flush_symbol_parts [OF Cons.prems(1,2), of s] Cons.prems(3)
  obtain b1 where b1: "bar_log (flush_symbol g s) b1" "\<forall>s' < kMaxSymbols. parts_ok (flush_symbol g s) b1 B C s'"
    "empty_at (flush_symbol g s) s" "\<forall>s'. empty_at g s' \<longrightarrow> empty_at (flush_symbol g s) s'" by auto
  from Cons.IH [OF b1(1,2)] b1(3,4) Cons.prems(3) show ?case by auto
qed auto

lemma part_of_empty:
  assumes "part_of accs ty (\<lambda>us. summary (v us) us) bars s bs" "\<not> ac_active (accs (unat s))"
  shows "bars_of s ty bars = map (\<lambda>b. make_bar s (summary (v b) b) ty) bs" "[] \<notin> set bs"
  using assms by (auto simp: part_of_def held_def)

lemma flush_all_parts:
  assumes "bar_log g bars" "\<forall>s < kMaxSymbols. parts_ok g bars B C s"
  shows "\<exists>bars'. bar_log (flush_all g) bars' \<and> (\<forall>s < kMaxSymbols.
    bars_of s 0 bars' = map (\<lambda>b. make_bar s (block_acc b) 0) (B s) \<and> [] \<notin> set (B s) \<and>
    bars_of s 1 bars' = map (\<lambda>b. make_bar s (chunk_acc b) 1) (C s) \<and> [] \<notin> set (C s))"
proof -
  let ?ss = "map of_nat [0..<unat kMaxSymbols] :: u32 list"
  have ss: "s \<in> set ?ss \<longleftrightarrow> s < kMaxSymbols" for s
  proof
    assume "s < kMaxSymbols"
    then show "s \<in> set ?ss" by (intro image_eqI [of _ _ "unat s"] | simp add: word_less_nat_alt)+
  qed (auto simp: kMaxSymbols_def word_less_nat_alt unat_of_nat take_bit_eq_mod)
  from flush_fold_parts [OF assms, of ?ss] ss obtain bars' where b: "bar_log (flush_all g) bars'"
    "\<forall>s < kMaxSymbols. parts_ok (flush_all g) bars' B C s" "\<forall>s < kMaxSymbols. empty_at (flush_all g) s"
    unfolding flush_all_def by blast
  have "bars_of s 0 bars' = map (\<lambda>b. make_bar s (block_acc b) 0) (B s) \<and> [] \<notin> set (B s) \<and>
    bars_of s 1 bars' = map (\<lambda>b. make_bar s (chunk_acc b) 1) (C s) \<and> [] \<notin> set (C s)" if "s < kMaxSymbols" for s
    using b(2,3) that part_of_empty [of "ba_time_acc (flush_all g)" 0 qty_sum bars' s "B s"]
      part_of_empty [of "ba_vol_acc (flush_all g)" 1 "\<lambda>us. of_nat (length us)" bars' s "C s"]
    unfolding empty_at_def by blast
  then show ?thesis using b(1) by blast
qed

section \<open>The bar file and the reference\<close>

lemma chunks_concat:
  assumes "0 < n" "\<forall>c \<in> set cs. length c = n" "length r < n"
  shows "chunks n (concat cs @ r) = cs @ (if r = [] then [] else [r])"
  using assms(2)
proof (induction cs)
  case Nil
  then show ?case using assms(1,3) by (subst chunks.simps) (simp add: chunks.simps)
next
  case (Cons c cs)
  then have "concat (c # cs) @ r \<noteq> []" "take n (concat (c # cs) @ r) = c" "drop n (concat (c # cs) @ r) = concat cs @ r"
    using assms(1) by auto
  then show ?case using Cons assms(1) by (subst chunks.simps) simp
qed

lemma fields_block: "b \<noteq> [] \<Longrightarrow> fields_of_bar (make_bar s (block_acc b) 0) = time_bar_of s b"
  by (simp add: fields_summary time_bar_of_def unat_qty_sum)

lemma fields_chunk: "c \<noteq> [] \<Longrightarrow> length c < 2 ^ 64 \<Longrightarrow> fields_of_bar (make_bar s (chunk_acc c) 1) = volume_bar_of s c"
  by (simp add: fields_summary volume_bar_of_def unat_of_nat take_bit_eq_mod)

lemma chunks_short: "c \<in> set (chunks n xs) \<Longrightarrow> length c \<le> n"
proof (induction n xs rule: chunks.induct)
  case (1 n xs)
  then show ?case by (subst (asm) (2) chunks.simps) (auto split: if_splits)
qed

lemma bars_ok_init: "volume_bar_qty \<noteq> 0 \<Longrightarrow> bars_ok (init_BarAggregator True time_bar_ns volume_bar_qty) [] []"
  unfolding bars_ok_def time_ok_def volume_ok_def held_def
  by (intro conjI allI impI exI [of _ "[]"])
    (simp_all add: bar_log_def init_BarAggregator_def bars_of_def trades_of_def units_def unat_gt_0)

lemma bars_ok_parts:
  assumes "bars_ok g bars ts" "ba_volume_bar_qty g \<noteq> 0" "s < kMaxSymbols"
  shows "parts_ok g bars (\<lambda>s. time_blocks (ba_time_bar_ns g) [] (trades_of s ts))
    (\<lambda>s. chunks (unat (ba_volume_bar_qty g)) (units (trades_of s ts))) s"
proof -
  obtain closed cur where c: "time_held g bars s closed cur"
    "\<And>us. time_blocks (ba_time_bar_ns g) [] (trades_of s ts @ us) = closed @ time_blocks (ba_time_bar_ns g) cur us"
    using assms(1,3) unfolding bars_ok_def time_ok_def by blast
  obtain cs r where r: "volume_held g bars s cs r" "units (trades_of s ts) = concat cs @ r"
    "\<forall>c \<in> set cs. length c = unat (ba_volume_bar_qty g)" "length r < unat (ba_volume_bar_qty g)"
    using assms(1,3) unfolding bars_ok_def volume_ok_def by blast
  have "length r < 2 ^ 64" using r(4) unsigned_less [of "ba_volume_bar_qty g", where 'a = nat] by simp
  then have "r = [] \<or> ac_volume (chunk_acc r) \<noteq> 0" using of_nat_u64_nonzero [of "length r"] by (cases "r = []") simp_all
  moreover have "chunks (unat (ba_volume_bar_qty g)) (units (trades_of s ts)) = cs @ (if r = [] then [] else [r])"
    unfolding r(2) using r(3,4) assms(2) by (intro chunks_concat) (simp_all add: unat_gt_0)
  ultimately show ?thesis using c(1) c(2) [of "[]"] r(1) unfolding part_of_def by (intro conjI exI) (assumption | simp)+
qed

text \<open>
  C7: The bar file is the reference. For trades of positive quantity and a volume bar
  quantity from 1 to \<open>2 ^ 63\<close>, aggregation and the final flush leave a file that the Python
  reader splits, for each of the 32 symbols, into the time bars of the blocks of its trades
  and the volume bars of the chunks of its traded units, in order: each with the symbol, the
  times and prices of the first and last trade, the extreme prices and the quantity.
\<close>

theorem bar_file_is_reference:
  assumes "volume_bar_qty \<noteq> 0" "volume_bar_qty \<le> 2 ^ 63" "\<forall>t \<in> set trades. te_qty t \<noteq> 0"
  shows "\<exists>g fs. bars_run (init_BarAggregator True time_bar_ns volume_bar_qty) trades = Some g \<and>
    read_bars (os_data (ba_out (flush_all g))) = Some fs \<and>
    (\<forall>s < 32. records_of s 0 fs = map (time_bar_of s) (time_blocks time_bar_ns [] (trades_of s trades)) \<and>
      records_of s 1 fs = map (volume_bar_of s) (chunks (unat volume_bar_qty) (units (trades_of s trades))))"
proof -
  let ?g0 = "init_BarAggregator True time_bar_ns volume_bar_qty"
  have q: "unat (ba_volume_bar_qty ?g0) \<le> 2 ^ 63" using assms(2) by (simp add: init_BarAggregator_def word_le_nat_alt)
  from bars_run_ok [OF bars_ok_init [OF assms(1)] q assms(3)]
  obtain g bars where g: "bars_run ?g0 trades = Some g" "bars_ok g bars trades"
    "ba_volume_bar_qty g = volume_bar_qty" "ba_time_bar_ns g = time_bar_ns" by (auto simp: init_BarAggregator_def)
  have p: "\<forall>s < kMaxSymbols. parts_ok g bars (\<lambda>s. time_blocks time_bar_ns [] (trades_of s trades))
      (\<lambda>s. chunks (unat volume_bar_qty) (units (trades_of s trades))) s"
    using bars_ok_parts [OF g(2)] assms(1) unfolding g(3,4) by blast
  from flush_all_parts [OF _ p] g(2) obtain bars' where b: "bar_log (flush_all g) bars'"
    "\<forall>s < kMaxSymbols. bars_of s 0 bars' = map (\<lambda>b. make_bar s (block_acc b) 0) (time_blocks time_bar_ns [] (trades_of s trades)) \<and>
      [] \<notin> set (time_blocks time_bar_ns [] (trades_of s trades)) \<and>
      bars_of s 1 bars' = map (\<lambda>b. make_bar s (chunk_acc b) 1) (chunks (unat volume_bar_qty) (units (trades_of s trades))) \<and>
      [] \<notin> set (chunks (unat volume_bar_qty) (units (trades_of s trades)))"
    unfolding bars_ok_def by blast
  have "read_bars (os_data (ba_out (flush_all g))) = Some (map fields_of_bar bars')"
    using b(1) read_bars_concat [of bars'] by (simp add: bar_log_def)
  moreover have "records_of s 0 (map fields_of_bar bars') = map (time_bar_of s) (time_blocks time_bar_ns [] (trades_of s trades))"
    "records_of s 1 (map fields_of_bar bars') = map (volume_bar_of s) (chunks (unat volume_bar_qty) (units (trades_of s trades)))"
    if "s < kMaxSymbols" for s
  proof -
    let ?B = "time_blocks time_bar_ns [] (trades_of s trades)" and ?C = "chunks (unat volume_bar_qty) (units (trades_of s trades))"
    have B: "b \<noteq> []" if "b \<in> set ?B" for b using b(2) \<open>s < kMaxSymbols\<close> that by metis
    have C: "c \<noteq> []" "length c < 2 ^ 64" if "c \<in> set ?C" for c
      using b(2) \<open>s < kMaxSymbols\<close> that chunks_short [OF that] unsigned_less [of volume_bar_qty, where 'a = nat] by (metis, simp)
    have "records_of s 0 (map fields_of_bar bars') = map (\<lambda>b. fields_of_bar (make_bar s (block_acc b) 0)) ?B"
      "records_of s 1 (map fields_of_bar bars') = map (\<lambda>b. fields_of_bar (make_bar s (chunk_acc b) 1)) ?C"
      using b(2) that records_of_bars [of s 0 bars'] records_of_bars [of s 1 bars'] by (simp_all add: comp_def)
    then show "records_of s 0 (map fields_of_bar bars') = map (time_bar_of s) ?B"
      "records_of s 1 (map fields_of_bar bars') = map (volume_bar_of s) ?C"
      using B C by (simp_all add: fields_block fields_chunk)
  qed
  ultimately show ?thesis using g(1) by (auto simp: kMaxSymbols_def)
qed

text \<open>Three trades: the third closes the time bar, and the five units make three volume bars.\<close>

definition sample_trades :: "TradeEvent list" where
  "sample_trades = [init_TradeEvent\<lparr>te_price := 7, te_qty := 1\<rparr>,
     init_TradeEvent\<lparr>te_price := 9, te_qty := 3, te_ts_ns := 500\<rparr>, init_TradeEvent\<lparr>te_price := 8, te_qty := 1, te_ts_ns := 1000\<rparr>]"

theorem bar_file_is_reference_witness:
  "\<exists>g fs. bars_run (init_BarAggregator True 1000 2) sample_trades = Some g \<and>
    read_bars (os_data (ba_out (flush_all g))) = Some fs \<and>
    map (\<lambda>f. (bf_open f, bf_high f, bf_low f, bf_close f, bf_volume f)) (records_of 0 0 fs) = [(7, 9, 7, 8, 5)] \<and>
    map (\<lambda>f. (bf_open f, bf_high f, bf_low f, bf_close f, bf_volume f)) (records_of 0 1 fs) =
      [(7, 9, 7, 9, 2), (9, 9, 9, 9, 2), (8, 8, 8, 8, 1)]"
proof -
  have q: "(2 :: u64) \<noteq> 0" "(2 :: u64) \<le> 2 ^ 63" "\<forall>t \<in> set sample_trades. te_qty t \<noteq> 0"
    by (simp_all add: sample_trades_def init_TradeEvent_def)
  have t: "trades_of 0 sample_trades = sample_trades" by (simp add: trades_of_def sample_trades_def init_TradeEvent_def)
  have u: "unat (2 :: u64) = 2" and z: "(0 :: u32) < 32" by simp_all
  have "time_blocks 1000 [] sample_trades = [sample_trades]" by (simp add: sample_trades_def init_TradeEvent_def)
  then have "map (\<lambda>f. (bf_open f, bf_high f, bf_low f, bf_close f, bf_volume f)) (map (time_bar_of 0) (time_blocks 1000 [] sample_trades)) =
      [(7, 9, 7, 8, 5)]" by (simp add: sample_trades_def init_TradeEvent_def time_bar_of_def bar_of_def)
  moreover have "map (\<lambda>f. (bf_open f, bf_high f, bf_low f, bf_close f, bf_volume f))
      (map (volume_bar_of 0) (chunks (unat (2 :: u64)) (units sample_trades))) = [(7, 9, 7, 9, 2), (9, 9, 9, 9, 2), (8, 8, 8, 8, 1)]"
  proof -
    obtain a b c where abc: "sample_trades = [a, b, c]" "unat (te_qty a) = Suc 0" "unat (te_qty b) = Suc (Suc (Suc 0))" "unat (te_qty c) = Suc 0"
      "te_price a = 7" "te_price b = 9" "te_price c = 8"
      unfolding sample_trades_def by (auto simp: numeral_3_eq_3 [symmetric])
    have "chunks 2 (concat [[a, b], [b, b]] @ [c]) = [[a, b], [b, b], [c]]"
      by (subst chunks_concat) simp_all
    moreover have "units sample_trades = concat [[a, b], [b, b]] @ [c]" by (simp add: abc units_def)
    ultimately show ?thesis by (simp add: u abc volume_bar_of_def bar_of_def)
  qed
  moreover obtain g fs where "bars_run (init_BarAggregator True 1000 2) sample_trades = Some g"
    "read_bars (os_data (ba_out (flush_all g))) = Some fs"
    "records_of 0 0 fs = map (time_bar_of 0) (time_blocks 1000 [] sample_trades)"
    "records_of 0 1 fs = map (volume_bar_of 0) (chunks (unat (2 :: u64)) (units sample_trades))"
    using that bar_file_is_reference [OF q, of 1000] z t by (metis (no_types))
  ultimately show ?thesis by (intro exI [of _ g] exI [of _ fs]) simp
qed

end
