(* ===== verification/Research.thy ===== *)
theory Research
  imports Consumers Instrumentation
begin

text \<open>
  The reader of bar files, \<^verbatim>\<open>python/research.py\<close>, as a program: \<^verbatim>\<open>main\<close> reads a file, reports the
  number of bars, and exports or plots them. The two libraries it imports on demand may be
  missing, which ends the program; what it hands to them is part of the model, what they do
  with it is not. Python's integers are exact, its floats are the doubles of \<open>Doubles\<close>.
\<close>

datatype py_error = File_not_found | Value_error | Zero_division | System_exit string

datatype research_event = Printed string
  | Parquet string "bar_fields list"
  | Plot string "int list" "real list"

record research_args =
  ra_bars :: string
  ra_parquet :: "string option"
  ra_plot :: "string option"

text \<open>The files that exist, and the packages that are installed.\<close>

record py_world =
  pw_files :: "string \<Rightarrow> bytes option"
  pw_pyarrow :: bool
  pw_matplotlib :: bool

definition export_parquet :: "py_world \<Rightarrow> bar_fields list \<Rightarrow> string \<Rightarrow> py_error + research_event list" where
  "export_parquet w bars out =
     (if \<not> pw_pyarrow w then Inl (System_exit ''pyarrow is required for parquet export'') else Inr [Parquet out bars])"

text \<open>The two series of the plot.\<close>

definition bar_spread :: "bar_fields \<Rightarrow> int" where
  "bar_spread b = int (bf_high b) - int (bf_low b)"

text \<open>\<^term>\<open>None\<close>: the division by zero that raises \<^verbatim>\<open>ZeroDivisionError\<close>.\<close>

definition bar_rate :: "bar_fields \<Rightarrow> real option" where
  "bar_rate b =
     (let dt = max (int (bf_end_ts_ns b) - int (bf_start_ts_ns b)) 1
      in case double_div (round_double (real_of_int dt)) 1000000000 of
           None \<Rightarrow> None
         | Some seconds \<Rightarrow> double_div (round_double (real (bf_volume b))) seconds)"

definition plot_session :: "py_world \<Rightarrow> bar_fields list \<Rightarrow> string \<Rightarrow> py_error + research_event list" where
  "plot_session w bars out =
     (if \<not> pw_matplotlib w then Inl (System_exit ''matplotlib is required for plotting'')
      else
        let time_bars = filter (\<lambda>b. bf_bar_type b = 0) bars
        in case those (map bar_rate time_bars) of
             None \<Rightarrow> Inl Zero_division
           | Some rates \<Rightarrow> Inr [Plot out (map bar_spread time_bars) rates])"

text \<open>The events come with the exception too: what was printed and written before it stays.\<close>

definition research_main :: "py_world \<Rightarrow> research_args \<Rightarrow> (py_error + int) \<times> research_event list" where
  "research_main w args =
     (case pw_files w (ra_bars args) of
        None \<Rightarrow> (Inl File_not_found, [])
      | Some data \<Rightarrow>
          (case read_bars data of
             None \<Rightarrow> (Inl Value_error, [])
           | Some bars \<Rightarrow>
               let es = [Printed (''bars='' @ dec (length bars))];
                   after = (case ra_parquet args of
                       None \<Rightarrow> Inr []
                     | Some out \<Rightarrow> map_sum id (\<lambda>fs. fs @ [Printed (''wrote '' @ out)]) (export_parquet w bars out))
               in case after of
                    Inl e \<Rightarrow> (Inl e, es)
                  | Inr fs \<Rightarrow>
                      (case ra_plot args of
                         None \<Rightarrow> (Inr 0, es @ fs)
                       | Some out \<Rightarrow>
                           (case plot_session w bars out of
                              Inl e \<Rightarrow> (Inl e, es @ fs)
                            | Inr gs \<Rightarrow> (Inr 0, es @ fs @ gs @ [Printed (''wrote '' @ out)])))))"

text \<open>Rate and range of a bar, as they should be.\<close>

definition exact_rate :: "bar_fields \<Rightarrow> real" where
  "exact_rate b = real (bf_volume b) * 1000000000 / real_of_int (max (int (bf_end_ts_ns b) - int (bf_start_ts_ns b)) 1)"

lemma unpacked_field_bound: "n = 8 \<Longrightarrow> field_nat off n d < 2 ^ 64"
proof -
  assume n: "n = 8"
  have "field_nat off n d < 256 ^ length (take n (drop off d))" unfolding field_nat_def by (rule le_value_bound)
  also have "\<dots> \<le> (256 :: nat) ^ 8" using n by (intro power_increasing) simp_all
  finally show ?thesis by simp
qed

lemma unpack_bars_from: "b \<in> set (unpack_bars n d) \<Longrightarrow> \<exists>e. b = unpack_bar e"
  by (induction n arbitrary: d) auto

lemma read_bars_bounds:
  assumes "read_bars data = Some bars" "b \<in> set bars"
  shows "bf_volume b < 2 ^ 64" "bf_end_ts_ns b < 2 ^ 64"
proof -
  have "b \<in> set (unpack_bars (length data div 52) data)" using assms by (auto simp: read_bars_def split: if_splits)
  then obtain e where "b = unpack_bar e" using unpack_bars_from by blast
  then show "bf_volume b < 2 ^ 64" "bf_end_ts_ns b < 2 ^ 64" using unpacked_field_bound by (simp_all add: unpack_bar_def)
qed

lemma bar_rate_accurate:
  assumes "bf_volume b < 2 ^ 64" "bf_end_ts_ns b < 2 ^ 64"
  shows "\<exists>v. bar_rate b = Some v \<and> \<bar>v - exact_rate b\<bar> \<le> 5 / 2 ^ 53 * exact_rate b"
proof -
  let ?t = "real_of_int (max (int (bf_end_ts_ns b) - int (bf_start_ts_ns b)) 1)"
  have "max (int (bf_end_ts_ns b) - int (bf_start_ts_ns b)) 1 \<le> 2 ^ 64" using assms(2) by simp
  then have "?t \<le> of_int (2 ^ 64)" by (simp only: of_int_le_iff)
  then have t: "1 \<le> ?t" "?t \<le> 2 ^ 64" by simp_all
  have "real (bf_volume b) \<le> real (2 ^ 64)" using assms(1) by (simp only: of_nat_le_iff less_imp_le)
  then have n: "real (bf_volume b) = 0 \<or> 1 \<le> real (bf_volume b)" "real (bf_volume b) \<le> 2 ^ 64" using assms(1) by auto
  show ?thesis
    by (rule rounded_per_second [OF t n]) (auto simp: bar_rate_def exact_rate_def Let_def)
qed

lemma those_rates:
  assumes "\<And>b. b \<in> set bs \<Longrightarrow> \<exists>v. bar_rate b = Some v \<and> P b v"
  shows "\<exists>rates. those (map bar_rate bs) = Some rates \<and> list_all2 P bs rates"
  using assms
proof (induction bs)
  case (Cons b bs)
  then obtain v rates where "bar_rate b = Some v" "P b v" "those (map bar_rate bs) = Some rates" "list_all2 P bs rates"
    by (metis list.set_intros)
  then show ?case by (intro exI [of _ "v # rates"]) simp
qed simp

text \<open>
  C34: From trades to the plot. For any trades and a positive volume bar quantity, the reader
  on the file that the aggregator leaves, asked for a plot, prints the number of bars. With
  \<^verbatim>\<open>matplotlib\<close> installed it then hands the time bars to the plot, in order, and returns 0: a
  range that is not negative, and a rate that is the volume per second with a relative error
  of at most \<open>5 \<cdot> 2 ^ -53\<close>, where an interval that is empty or runs backwards counts as one
  nanosecond; no division by zero occurs. Without \<^verbatim>\<open>matplotlib\<close> it exits with a message.
\<close>

theorem research_plots_bars:
  assumes "volume_bar_qty \<noteq> 0"
  shows "\<exists>g bars time_bars rates. bars_run (init_BarAggregator True time_bar_ns volume_bar_qty) trades = Some g \<and>
    read_bars (os_data (ba_out (flush_all g))) = Some bars \<and> time_bars = filter (\<lambda>b. bf_bar_type b = 0) bars \<and>
    (\<forall>b \<in> set time_bars. 0 \<le> bar_spread b) \<and>
    list_all2 (\<lambda>b v. \<bar>v - exact_rate b\<bar> \<le> 5 / 2 ^ 53 * exact_rate b) time_bars rates \<and>
    (\<forall>w path out. pw_files w path = Some (os_data (ba_out (flush_all g))) \<longrightarrow>
      research_main w \<lparr>ra_bars = path, ra_parquet = None, ra_plot = Some out\<rparr> =
        (if pw_matplotlib w then
           (Inr 0, [Printed (''bars='' @ dec (length bars)), Plot out (map bar_spread time_bars) rates, Printed (''wrote '' @ out)])
         else (Inl (System_exit ''matplotlib is required for plotting''), [Printed (''bars='' @ dec (length bars))])))"
proof -
  obtain g bs where g: "bars_run (init_BarAggregator True time_bar_ns volume_bar_qty) trades = Some g" "agg_inv g bs trades"
    using bars_run_total [OF assms] by blast
  from flushed_file [OF g(2)] obtain bars where b: "read_bars (os_data (ba_out (flush_all g))) = Some bars"
    "\<forall>f \<in> set bars. bf_low f \<le> bf_open f \<and> bf_open f \<le> bf_high f" by blast
  define tb where "tb = filter (\<lambda>b. bf_bar_type b = 0) bars"
  have sp: "\<forall>f \<in> set tb. 0 \<le> bar_spread f" using b(2) by (force simp: bar_spread_def tb_def)
  have "\<exists>v. bar_rate f = Some v \<and> \<bar>v - exact_rate f\<bar> \<le> 5 / 2 ^ 53 * exact_rate f" if "f \<in> set tb" for f
    using that read_bars_bounds [OF b(1)] by (intro bar_rate_accurate) (simp_all add: tb_def)
  from those_rates [of tb, OF this] obtain rates where r: "those (map bar_rate tb) = Some rates"
    "list_all2 (\<lambda>b v. \<bar>v - exact_rate b\<bar> \<le> 5 / 2 ^ 53 * exact_rate b) tb rates" by blast
  have m: "research_main w \<lparr>ra_bars = path, ra_parquet = None, ra_plot = Some out\<rparr> =
        (if pw_matplotlib w then
           (Inr 0, [Printed (''bars='' @ dec (length bars)), Plot out (map bar_spread tb) rates, Printed (''wrote '' @ out)])
         else (Inl (System_exit ''matplotlib is required for plotting''), [Printed (''bars='' @ dec (length bars))]))"
    if "pw_files w path = Some (os_data (ba_out (flush_all g)))" for w path out
    using that b(1) r(1) by (simp add: research_main_def plot_session_def Let_def tb_def [symmetric])
  show ?thesis
    by (rule exI [of _ g], rule exI [of _ bars], rule exI [of _ tb], rule exI [of _ rates])
      (use g(1) b(1) sp r(2) m in \<open>simp add: tb_def\<close>)
qed

text \<open>The other ways out.\<close>

lemma research_main_errors:
  "pw_files w (ra_bars args) = None \<Longrightarrow> research_main w args = (Inl File_not_found, [])"
  "pw_files w (ra_bars args) = Some data \<Longrightarrow> length data mod 52 \<noteq> 0 \<Longrightarrow> research_main w args = (Inl Value_error, [])"
  by (simp_all add: research_main_def read_bars_def)

theorem research_plots_bars_witness:
  "\<exists>g bars time_bars rates. bars_run (init_BarAggregator True 1000 100) [init_TradeEvent\<lparr>te_price := 7, te_qty := 250\<rparr>] = Some g \<and>
     list_all2 (\<lambda>b v. \<bar>v - exact_rate b\<bar> \<le> 5 / 2 ^ 53 * exact_rate b) time_bars rates \<and>
     research_main \<lparr>pw_files = (\<lambda>_. Some (os_data (ba_out (flush_all g)))), pw_pyarrow = False, pw_matplotlib = True\<rparr>
       \<lparr>ra_bars = ''bars.bin'', ra_parquet = None, ra_plot = Some ''p.png''\<rparr> =
       (Inr 0, [Printed (''bars='' @ dec (length (bars :: bar_fields list))), Plot ''p.png'' (map bar_spread time_bars) rates,
          Printed (''wrote '' @ ''p.png'')])"
proof -
  have "(100 :: u64) \<noteq> 0" by simp
  from research_plots_bars [OF this, of 1000 "[init_TradeEvent\<lparr>te_price := 7, te_qty := 250\<rparr>]"]
  obtain g bars tb rates where h: "bars_run (init_BarAggregator True 1000 100) [init_TradeEvent\<lparr>te_price := 7, te_qty := 250\<rparr>] = Some g"
    "list_all2 (\<lambda>b v. \<bar>v - exact_rate b\<bar> \<le> 5 / 2 ^ 53 * exact_rate b) tb rates"
    "\<forall>w path out. pw_files w path = Some (os_data (ba_out (flush_all g))) \<longrightarrow>
      research_main w \<lparr>ra_bars = path, ra_parquet = None, ra_plot = Some out\<rparr> =
        (if pw_matplotlib w then
           (Inr 0, [Printed (''bars='' @ dec (length (bars :: bar_fields list))), Plot out (map bar_spread tb) rates, Printed (''wrote '' @ out)])
         else (Inl (System_exit ''matplotlib is required for plotting''), [Printed (''bars='' @ dec (length bars))]))"
    by blast
  let ?w = "\<lparr>pw_files = (\<lambda>_ :: string. Some (os_data (ba_out (flush_all g)))), pw_pyarrow = False, pw_matplotlib = True\<rparr>"
  have "pw_files ?w ''bars.bin'' = Some (os_data (ba_out (flush_all g)))" "pw_matplotlib ?w" by simp_all
  then show ?thesis using h by (intro exI [of _ g] exI [of _ bars] exI [of _ tb] exI [of _ rates] conjI) simp_all
qed

end
