(* ===== verification/Benchmarks.thy ===== *)
theory Benchmarks
  imports Book_Builder
begin

text \<open>
  The workloads of the single-threaded benchmarks (\<^verbatim>\<open>benchmarks/bench_book.cpp\<close>,
  \<^verbatim>\<open>benchmarks/bench_parser.cpp\<close>). The benchmark library decides how often the body of the loop
  runs; the number of turns is an argument.
\<close>

section \<open>The book benchmark\<close>

definition kWindow :: nat where "kWindow = 4096"

text \<open>The add for order \<open>oid\<close> (with the value-initialised message type and length), and the delete.\<close>

definition bm_header :: "u64 \<Rightarrow> u64 \<Rightarrow> Header" where
  "bm_header seq ts_ns = \<lparr>hdr_type = MT_Other 0, hdr_length = 0, hdr_seq = seq, hdr_ts_ns = ts_ns\<rparr>"

definition bm_add :: "u64 \<Rightarrow> AddOrder" where
  "bm_add oid = \<lparr>ao_hdr = bm_header oid oid, ao_order_id = oid, ao_symbol_id = 0, ao_side = Buy,
     ao_price = ucast (1000 + oid mod 50), ao_qty = 1\<rparr>"

definition bm_delete :: "u64 \<Rightarrow> DeleteOrder" where
  "bm_delete oid = \<lparr>do_hdr = bm_header oid 0, do_order_id = oid - of_nat kWindow, do_symbol_id = 0\<rparr>"

text \<open>The warm-up loop, and one turn of the measured loop, on the book and \<^verbatim>\<open>oid\<close>.\<close>

definition bm_warm_turn :: "BookBuilder \<times> u64 \<Rightarrow> BookBuilder \<times> u64" where
  "bm_warm_turn s = (case s of (b, oid) \<Rightarrow> (fst (on_add b (bm_add oid)), oid + 1))"

definition bm_warm :: "BookBuilder \<times> u64" where
  "bm_warm = (bm_warm_turn ^^ kWindow) (init_BookBuilder, 1)"

definition bm_turn :: "BookBuilder \<times> u64 \<Rightarrow> BookBuilder \<times> u64" where
  "bm_turn s = (case s of (b, oid) \<Rightarrow> (fst (on_delete (fst (on_add b (bm_add oid))) (bm_delete oid)), oid + 1))"

definition BM_BookUpdate :: "nat \<Rightarrow> BookBuilder \<times> u64" where
  "BM_BookUpdate n = (bm_turn ^^ n) bm_warm"

section \<open>The live window\<close>

definition bm_orders :: "nat \<Rightarrow> nat \<Rightarrow> u64 \<rightharpoonup> OrderRecord" where
  "bm_orders lo hi = (\<lambda>k. if lo < unat k \<and> unat k \<le> hi then Some (live_record k 0 Buy (ucast (1000 + k mod 50)) 1) else None)"

lemma bm_price: "1 \<le> (ucast (1000 + k mod 50 :: u64) :: u32)" "(ucast (1000 + k mod 50 :: u64) :: u32) \<le> 4096"
proof -
  have m: "unat (k mod 50) < 50" by (simp add: unat_mod)
  then have "unat (1000 + k mod 50) = 1000 + unat (k mod 50)"
    by (subst unat_plus_simple [THEN iffD1]) (simp_all add: no_olen_add_nat)
  then have "unat (ucast (1000 + k mod 50) :: u32) = 1000 + unat (k mod 50)"
    using m by (simp add: unsigned_ucast_eq take_bit_nat_eq_self)
  then show "1 \<le> (ucast (1000 + k mod 50 :: u64) :: u32)" "(ucast (1000 + k mod 50 :: u64) :: u32) \<le> 4096"
    using m by (simp_all add: word_le_nat_alt)
qed

lemma card_bm_orders: "card (dom (bm_orders lo hi)) \<le> hi - lo"
proof -
  have "k \<in> of_nat ` {lo<..hi}" if "k \<in> dom (bm_orders lo hi)" for k
    using that by (intro image_eqI [of _ _ "unat k"]) (auto simp: bm_orders_def split: if_splits)
  then have "dom (bm_orders lo hi) \<subseteq> of_nat ` {lo<..hi}" by blast
  then have "card (dom (bm_orders lo hi)) \<le> card (of_nat ` {lo<..hi} :: u64 set)" by (rule card_mono [rotated]) simp
  also have "\<dots> \<le> card {lo<..hi}" by (rule card_image_le) simp
  finally show ?thesis by simp
qed

lemma unat_u64_eq: "unat a = unat b \<longleftrightarrow> a = (b :: u64)"
  using unsigned_word_eqI by blast

definition bm_state :: "nat \<Rightarrow> nat \<Rightarrow> BookBuilder \<times> u64 \<Rightarrow> bool" where
  "bm_state lo hi s \<longleftrightarrow> book_inv (fst s) \<and> orders_of (fst s) = bm_orders lo hi \<and> snd s = of_nat (hi + 1)"

lemma bm_add_step:
  assumes "bm_state lo hi (b, oid)" "lo \<le> hi" "hi - lo \<le> kWindow" "hi + 1 < 2 ^ 64"
  shows "book_inv (fst (on_add b (bm_add oid)))" "orders_of (fst (on_add b (bm_add oid))) = bm_orders lo (hi + 1)"
proof -
  have b: "book_inv b" "orders_of b = bm_orders lo hi" "oid = of_nat (hi + 1)" using assms(1) by (simp_all add: bm_state_def)
  show "book_inv (fst (on_add b (bm_add oid)))" using book_step_inv [OF b(1), of "P_AddOrder (bm_add oid)"] by simp
  have u: "unat oid = hi + 1" using assms(4) by (simp add: b(3) unat_of_nat take_bit_eq_mod del: of_nat_add of_nat_Suc)
  have "add_ok (bm_add oid)" using bm_price by (simp add: add_ok_def bm_add_def kMaxSymbols_def valid_price_def kPriceLevels_def)
  moreover have "card (dom (bm_orders lo hi)) < kOrderPool"
    using card_bm_orders [of lo hi] assms(3) by (simp add: kOrderPool_def kWindow_def)
  ultimately have "orders_of (fst (on_add b (bm_add oid))) = (bm_orders lo hi)(oid \<mapsto> record_of_add (bm_add oid))"
    using book_step_orders [OF b(1), of "P_AddOrder (bm_add oid)"] by (simp add: b(2) bm_add_def)
  also have "\<dots> = bm_orders lo (hi + 1)"
  proof
    fix k
    have "k = oid \<longleftrightarrow> unat k = hi + 1" using u by (metis unat_u64_eq)
    then show "((bm_orders lo hi)(oid \<mapsto> record_of_add (bm_add oid))) k = bm_orders lo (hi + 1) k"
      using assms(2) by (auto simp: bm_orders_def bm_add_def record_of_add_def le_Suc_eq)
  qed
  finally show "orders_of (fst (on_add b (bm_add oid))) = bm_orders lo (hi + 1)" .
qed

lemma bm_warm_state: "bm_state 0 kWindow bm_warm"
proof -
  have "bm_state 0 n ((bm_warm_turn ^^ n) (init_BookBuilder, 1))" if "n \<le> kWindow" for n
    using that
  proof (induction n)
    case 0
    have "orders_of init_BookBuilder = bm_orders 0 0"
      by (auto simp: init_BookBuilder_def pool_lookup_init bm_orders_def fun_eq_iff)
    then show ?case using book_inv_init by (simp add: bm_state_def)
  next
    case (Suc n)
    obtain b oid where s: "(bm_warm_turn ^^ n) (init_BookBuilder, 1) = (b, oid)" by fastforce
    then have st: "bm_state 0 n (b, oid)" using Suc by simp
    have "(bm_warm_turn ^^ Suc n) (init_BookBuilder, 1) = (fst (on_add b (bm_add oid)), oid + 1)"
      by (simp add: s) (simp add: bm_warm_turn_def)
    then show ?case using bm_add_step [OF st] st Suc.prems by (simp add: bm_state_def kWindow_def del: funpow.simps)
  qed
  then show ?thesis by (simp add: bm_warm_def)
qed

lemma bm_turn_state:
  assumes "bm_state n (n + kWindow) s" "n + kWindow + 1 < 2 ^ 64"
  shows "bm_state (Suc n) (Suc n + kWindow) (bm_turn s) \<and>
    (\<exists>r. orders_of (fst (on_add (fst s) (bm_add (snd s)))) (do_order_id (bm_delete (snd s))) = Some r)"
proof -
  obtain b oid where s: "s = (b, oid)" by fastforce
  let ?b = "fst (on_add b (bm_add oid))"
  have a: "book_inv ?b" "orders_of ?b = bm_orders n (n + kWindow + 1)"
    using bm_add_step [OF assms(1) [unfolded s]] assms(2) by (simp_all add: add.assoc)
  have oid: "oid = of_nat (n + kWindow + 1)" using assms(1) by (simp add: s bm_state_def)
  have d: "do_order_id (bm_delete oid) = of_nat (n + 1)" by (simp add: bm_delete_def oid)
  then have u: "unat (do_order_id (bm_delete oid)) = n + 1"
    using assms(2) by (simp add: unat_of_nat take_bit_eq_mod kWindow_def del: of_nat_add of_nat_Suc)
  have k: "k = do_order_id (bm_delete oid) \<longleftrightarrow> unat k = n + 1" for k
    using u by (metis unat_u64_eq)
  have "orders_of (fst (on_delete ?b (bm_delete oid))) = (bm_orders n (n + kWindow + 1))(do_order_id (bm_delete oid) := None)"
    using book_step_orders [OF a(1), of "P_DeleteOrder (bm_delete oid)"] by (simp add: a(2))
  also have "\<dots> = bm_orders (Suc n) (Suc n + kWindow)"
    by (rule ext) (auto simp: bm_orders_def k)
  finally have "bm_state (Suc n) (Suc n + kWindow) (bm_turn s)"
    using book_step_inv [OF a(1), of "P_DeleteOrder (bm_delete oid)"]
    by (simp add: bm_state_def bm_turn_def s oid)
  moreover have "orders_of ?b (do_order_id (bm_delete oid)) \<noteq> None"
    unfolding a(2) bm_orders_def u by (simp add: kWindow_def)
  ultimately show ?thesis by (simp add: s)
qed

text \<open>
  C39: The book benchmark measures a steady state. After the warm-up and any number of turns
  below \<open>2 ^ 64 - 4097\<close> the book holds exactly the 4096 orders added last, each at its price;
  and in every turn the add has been accepted and the delete has named a live order.
\<close>

theorem bench_book_steady:
  assumes "n + 4097 < 2 ^ 64"
  shows "pool_lookup (bb_pool (fst (BM_BookUpdate n))) =
      (\<lambda>k. if n < unat k \<and> unat k \<le> n + 4096 then Some (live_record k 0 Buy (ucast (1000 + k mod 50)) 1) else None) \<and>
    (\<forall>m < n. let (b, oid) = BM_BookUpdate m; b' = fst (on_add b (bm_add oid)) in
       pool_lookup (bb_pool b') oid \<noteq> None \<and> pool_lookup (bb_pool b') (do_order_id (bm_delete oid)) \<noteq> None)"
proof -
  have st: "bm_state m (m + kWindow) (BM_BookUpdate m)" if "m \<le> n" for m
    using that
  proof (induction m)
    case 0
    then show ?case using bm_warm_state by (simp add: BM_BookUpdate_def)
  next
    case (Suc m)
    then show ?case using bm_turn_state [of m "BM_BookUpdate m"] assms by (simp add: BM_BookUpdate_def kWindow_def)
  qed
  have "let (b, oid) = BM_BookUpdate m; b' = fst (on_add b (bm_add oid)) in
       orders_of b' oid \<noteq> None \<and> orders_of b' (do_order_id (bm_delete oid)) \<noteq> None" if m: "m < n" for m
  proof -
    obtain b oid where s: "BM_BookUpdate m = (b, oid)" by fastforce
    have bs: "bm_state m (m + kWindow) (b, oid)" using st [of m] m s by simp
    have "unat oid = m + kWindow + 1"
      using bs m assms by (simp add: bm_state_def unat_of_nat take_bit_eq_mod kWindow_def del: of_nat_add of_nat_Suc)
    then have "orders_of (fst (on_add b (bm_add oid))) oid \<noteq> None"
      using bm_add_step(2) [OF bs] m assms by (simp add: bm_orders_def kWindow_def)
    then show ?thesis using bm_turn_state [of m "(b, oid)"] bs m assms by (auto simp: s kWindow_def)
  qed
  then show ?thesis using st [of n] by (simp add: bm_state_def bm_orders_def kWindow_def)
qed

theorem bench_book_steady_witness:
  "pool_lookup (bb_pool (fst (BM_BookUpdate 3))) 3 = None \<and>
   pool_lookup (bb_pool (fst (BM_BookUpdate 3))) 4099 = Some (live_record 4099 0 Buy (ucast (1000 + 4099 mod 50 :: u64)) 1)"
  using bench_book_steady [of 3] by simp

section \<open>The parser benchmark\<close>

definition make_add :: bytes where
  "make_add = add_frame 1 1 1 0 Buy 1000 10"

definition BM_ParseAddOrder :: "nat \<Rightarrow> ParsedMessage list" where
  "BM_ParseAddOrder n = replicate n (parse_message make_add)"

lemma bench_parse_ok: "m \<in> set (BM_ParseAddOrder n) \<Longrightarrow> pm_status m = Ok \<and> pm_consumed m = length make_add"
proof -
  let ?a = "\<lparr>ao_hdr = \<lparr>hdr_type = MT_AddOrder, hdr_length = wire_length_for MT_AddOrder, hdr_seq = 1, hdr_ts_ns = 1\<rparr>,
    ao_order_id = 1, ao_symbol_id = 0, ao_side = Buy, ao_price = 1000, ao_qty = 10\<rparr>"
  have "payload_wf (P_AddOrder ?a)" by (simp add: payload_wf_def)
  from parse_payload_frame [OF this, of "[]"] show "m \<in> set (BM_ParseAddOrder n) \<Longrightarrow> pm_status m = Ok \<and> pm_consumed m = length make_add"
    by (auto simp: BM_ParseAddOrder_def make_add_def)
qed

end
