(* ===== verification/Queue_Benchmarks.thy ===== *)
theory Queue_Benchmarks
  imports Spsc_Queue
begin

text \<open>
  The two benchmarks of \<^verbatim>\<open>benchmarks/bench_spsc.cpp\<close>: the ring, and a \<^verbatim>\<open>std::queue\<close> under a mutex,
  between a feeding and a consuming thread. A step is a call of the ring or a section under
  the lock. The flag \<open>stale\<close> of a step lets a load of the ring or of \<^verbatim>\<open>run\<close> return an old value:
  then the call fails without effect, or the consumer goes round once more. After it has read
  \<^verbatim>\<open>run\<close> as false the consumer sees all that was pushed before the store.
\<close>

section \<open>The queue under a mutex\<close>

definition mutex_push :: "'a \<Rightarrow> 'a list \<Rightarrow> bool \<times> 'a list" where
  "mutex_push x q = (if length q < 4096 then (True, q @ [x]) else (False, q))"

definition mutex_pop :: "'a list \<Rightarrow> 'a option \<times> 'a list" where
  "mutex_pop q = (if q \<noteq> [] then (Some (hd q), tl q) else (None, q))"

fun mutex_drain :: "'a list \<Rightarrow> 'a list" where
  "mutex_drain q = (if q \<noteq> [] then mutex_drain (tl q) else q)"

declare mutex_drain.simps [simp del]

lemma mutex_drain_empty [simp]: "mutex_drain q = []"
  by (induction q rule: mutex_drain.induct) (simp add: mutex_drain.simps)

text \<open>It keeps the contract of the ring with 4096 slots, and gives the same results call by call.\<close>

interpretation mutex: bounded_fifo "\<lambda>q xs. q = xs \<and> length xs \<le> 4096" mutex_push mutex_pop 4096
  by unfold_locales (auto simp: mutex_push_def mutex_pop_def split: if_splits list.splits)

definition bench_cap :: u64 where "bench_cap = push_bit 12 1"

lemma bench_cap: "cap_ok bench_cap" "unat bench_cap = 4096"
  by (auto simp: bench_cap_def cap_ok_def intro!: exI [of _ "12 :: nat"])



section \<open>The benchmark of the ring\<close>

datatype bench_phase = Test_run | Test_empty | Pop | Left

text \<open>The state of the two threads; \<open>sb_pushed\<close> counts the successful pushes, for the statements only.\<close>

record spsc_bench =
  sb_queue :: "int SpscQueue"
  sb_run :: bool
  sb_popped :: u64
  sb_consumer :: bench_phase
  sb_turns :: nat
  sb_spins :: int
  sb_pushed :: nat

definition init_spsc_bench :: "nat \<Rightarrow> spsc_bench" where
  "init_spsc_bench n = \<lparr>sb_queue = init_SpscQueue 0, sb_run = True, sb_popped = 0, sb_consumer = Test_run,
     sb_turns = n, sb_spins = 0, sb_pushed = 0\<rparr>"

text \<open>A step of the loop that pushes; after its last turn, the store to \<^verbatim>\<open>run\<close>.\<close>

definition spsc_feed :: "bool \<Rightarrow> spsc_bench \<Rightarrow> spsc_bench" where
  "spsc_feed stale s =
     (case sb_turns s of
        0 \<Rightarrow> s\<lparr>sb_run := False\<rparr>
      | Suc n \<Rightarrow>
          let (ok, q) = (if stale then (False, sb_queue s) else try_push bench_cap 1 (sb_queue s))
          in if ok then s\<lparr>sb_queue := q, sb_turns := n, sb_spins := 0, sb_pushed := sb_pushed s + 1\<rparr>
             else if sb_spins s + 1 > 1000000 then s\<lparr>sb_turns := n, sb_spins := 0\<rparr>
             else s\<lparr>sb_spins := sb_spins s + 1\<rparr>)"

definition spsc_consume :: "bool \<Rightarrow> spsc_bench \<Rightarrow> spsc_bench" where
  "spsc_consume stale s =
     (case sb_consumer s of
        Test_run \<Rightarrow> s\<lparr>sb_consumer := (if sb_run s \<or> stale then Pop else Test_empty)\<rparr>
      | Test_empty \<Rightarrow> s\<lparr>sb_consumer := (if queue_empty (sb_queue s) then Left else Pop)\<rparr>
      | Pop \<Rightarrow>
          let (v, q) = (if stale then (None, sb_queue s) else try_pop bench_cap (sb_queue s))
          in s\<lparr>sb_queue := q, sb_popped := sb_popped s + (if v = None then 0 else 1), sb_consumer := Test_run\<rparr>
      | Left \<Rightarrow> s)"

inductive spsc_bench_step :: "spsc_bench \<Rightarrow> spsc_bench \<Rightarrow> bool" where
  spsc_feeds: "spsc_bench_step s (spsc_feed stale s)"
| spsc_consumes: "spsc_bench_step s (spsc_consume stale s)"

definition spsc_bench_inv :: "nat \<Rightarrow> spsc_bench \<Rightarrow> bool" where
  "spsc_bench_inv n s \<longleftrightarrow> (\<exists>xs. queue_rep bench_cap (sb_queue s) xs \<and>
     sb_popped s + of_nat (length xs) = of_nat (sb_pushed s) \<and> sb_pushed s + sb_turns s \<le> n \<and>
     (\<not> sb_run s \<longrightarrow> sb_turns s = 0) \<and> (sb_consumer s = Test_empty \<longrightarrow> \<not> sb_run s) \<and>
     (sb_consumer s = Left \<longrightarrow> \<not> sb_run s \<and> xs = []))"

lemma spsc_feed_inv: "spsc_bench_inv n s \<Longrightarrow> spsc_bench_inv n (spsc_feed stale s)"
proof (cases "sb_turns s")
  case (Suc m)
  assume "spsc_bench_inv n s"
  then obtain xs where xs: "queue_rep bench_cap (sb_queue s) xs"
    "sb_popped s + of_nat (length xs) = of_nat (sb_pushed s)" "sb_pushed s + sb_turns s \<le> n" "sb_run s"
    "sb_consumer s \<noteq> Test_empty" "sb_consumer s \<noteq> Left"
    using Suc unfolding spsc_bench_inv_def by auto
  obtain ok q where p: "try_push bench_cap 1 (sb_queue s) = (ok, q)" by fastforce
  have q: "ok \<Longrightarrow> queue_rep bench_cap q (xs @ [1])" using try_push_rep [OF xs(1) p] by auto
  show ?thesis
  proof (cases "\<not> stale \<and> ok")
    case True
    then show ?thesis using xs q Suc p
      by (auto simp: spsc_feed_def spsc_bench_inv_def add.assoc [symmetric] intro!: exI [of _ "xs @ [1]"])
  next
    case False
    then show ?thesis using xs Suc p by (auto simp: spsc_feed_def spsc_bench_inv_def intro!: exI [of _ xs])
  qed
qed (auto simp: spsc_bench_inv_def spsc_feed_def)

lemma spsc_consume_inv: "spsc_bench_inv n s \<Longrightarrow> spsc_bench_inv n (spsc_consume stale s)"
proof (cases "sb_consumer s")
  case Pop
  assume "spsc_bench_inv n s"
  then obtain xs where xs: "queue_rep bench_cap (sb_queue s) xs"
    "sb_popped s + of_nat (length xs) = of_nat (sb_pushed s)" "sb_pushed s + sb_turns s \<le> n" "\<not> sb_run s \<longrightarrow> sb_turns s = 0"
    unfolding spsc_bench_inv_def by auto
  obtain y q where p: "try_pop bench_cap (sb_queue s) = (y, q)" by fastforce
  show ?thesis
  proof (cases "stale \<or> xs = []")
    case True
    then show ?thesis using xs Pop try_pop_rep [OF xs(1) p] p
      by (auto simp: spsc_consume_def spsc_bench_inv_def intro!: exI [of _ xs])
  next
    case False
    then obtain x xs' where c: "xs = x # xs'" by (cases xs) auto
    then show ?thesis using False xs Pop try_pop_rep [OF xs(1) p] p
      by (auto simp: spsc_consume_def spsc_bench_inv_def algebra_simps intro!: exI [of _ xs'])
  qed
qed (auto simp: spsc_bench_inv_def spsc_consume_def queue_rep_empty)

interpretation spsc_bench_run: step_system "\<lambda>s. s = init_spsc_bench n" spsc_bench_step "spsc_bench_inv n"
proof
  show "spsc_bench_inv n s" if "s = init_spsc_bench n" for s
    using queue_rep_init [OF bench_cap(1), of 0] that
    by (auto simp: spsc_bench_inv_def init_spsc_bench_def intro!: exI [of _ "[]"])
  show "spsc_bench_inv n t" if "spsc_bench_inv n s" "spsc_bench_step s t" for s t
    using that(2,1) by cases (auto intro: spsc_feed_inv spsc_consume_inv)
qed

text \<open>
  Under every schedule the ring holds at most 4096 items; when the consumer has left, the
  feeding loop is over and every item it pushed has been popped.
\<close>

theorem spsc_bench_drained:
  assumes "spsc_bench_step\<^sup>*\<^sup>* (init_spsc_bench n) s"
  shows "unat (size_approx (sb_queue s)) \<le> 4096 \<and> sb_pushed s \<le> n \<and>
    (sb_consumer s = Left \<longrightarrow> sb_turns s = 0 \<and> queue_empty (sb_queue s) \<and> sb_popped s = of_nat (sb_pushed s))"
proof -
  from spsc_bench_run.inv_reachable [OF refl assms] obtain xs where "queue_rep bench_cap (sb_queue s) xs"
    "sb_popped s + of_nat (length xs) = of_nat (sb_pushed s)" "sb_pushed s + sb_turns s \<le> n"
    "\<not> sb_run s \<longrightarrow> sb_turns s = 0" "sb_consumer s = Left \<longrightarrow> \<not> sb_run s \<and> xs = []"
    unfolding spsc_bench_inv_def by blast
  then show ?thesis using queue_rep_size [of bench_cap "sb_queue s" xs] spsc.rep_room [of bench_cap "sb_queue s" xs]
    by (auto simp: bench_cap(2))
qed

text \<open>The feeding loop ends: each of its steps brings it closer to the end, also when every push fails.\<close>

definition feed_left :: "spsc_bench \<Rightarrow> int" where
  "feed_left s = 1000001 * int (sb_turns s) - sb_spins s"

lemma spsc_feed_progress:
  assumes "sb_turns s \<noteq> 0" "0 \<le> sb_spins s" "sb_spins s \<le> 1000000"
  shows "feed_left (spsc_feed stale s) < feed_left s" "0 \<le> sb_spins (spsc_feed stale s)" "sb_spins (spsc_feed stale s) \<le> 1000000"
    "feed_left (spsc_consume stale s) = feed_left s" "0 < feed_left s"
  using assms by (auto simp: spsc_feed_def spsc_consume_def feed_left_def Let_def split: nat.splits prod.splits bench_phase.splits)

section \<open>The benchmark of the queue under the mutex\<close>

datatype mutex_phase = M_Test | M_Pop | M_Drain | M_Left

record mutex_bench =
  mb_queue :: "int list"
  mb_run :: bool
  mb_consumer :: mutex_phase
  mb_turns :: nat
  mb_pushed :: nat

definition init_mutex_bench :: "nat \<Rightarrow> mutex_bench" where
  "init_mutex_bench n = \<lparr>mb_queue = [], mb_run = True, mb_consumer = M_Test, mb_turns = n, mb_pushed = 0\<rparr>"

definition mutex_feed :: "mutex_bench \<Rightarrow> mutex_bench" where
  "mutex_feed s =
     (case mb_turns s of
        0 \<Rightarrow> s\<lparr>mb_run := False\<rparr>
      | Suc n \<Rightarrow>
          (case mutex_push 1 (mb_queue s) of
             (True, q) \<Rightarrow> s\<lparr>mb_queue := q, mb_turns := n, mb_pushed := mb_pushed s + 1\<rparr>
           | (False, q) \<Rightarrow> s))"

definition mutex_consume :: "bool \<Rightarrow> mutex_bench \<Rightarrow> mutex_bench" where
  "mutex_consume stale s =
     (case mb_consumer s of
        M_Test \<Rightarrow> s\<lparr>mb_consumer := (if mb_run s \<or> stale then M_Pop else M_Drain)\<rparr>
      | M_Pop \<Rightarrow> s\<lparr>mb_queue := snd (mutex_pop (mb_queue s)), mb_consumer := M_Test\<rparr>
      | M_Drain \<Rightarrow> s\<lparr>mb_queue := mutex_drain (mb_queue s), mb_consumer := M_Left\<rparr>
      | M_Left \<Rightarrow> s)"

inductive mutex_bench_step :: "mutex_bench \<Rightarrow> mutex_bench \<Rightarrow> bool" where
  mutex_feeds: "mutex_bench_step s (mutex_feed s)"
| mutex_consumes: "mutex_bench_step s (mutex_consume stale s)"

definition mutex_bench_inv :: "nat \<Rightarrow> mutex_bench \<Rightarrow> bool" where
  "mutex_bench_inv n s \<longleftrightarrow> length (mb_queue s) \<le> 4096 \<and> mb_pushed s + mb_turns s = n \<and>
     (\<not> mb_run s \<longrightarrow> mb_turns s = 0) \<and> (mb_consumer s \<in> {M_Drain, M_Left} \<longrightarrow> \<not> mb_run s) \<and>
     (mb_consumer s = M_Left \<longrightarrow> mb_queue s = [])"

interpretation mutex_bench_run: step_system "\<lambda>s. s = init_mutex_bench n" mutex_bench_step "mutex_bench_inv n"
proof
  show "mutex_bench_inv n s" if "s = init_mutex_bench n" for s
    using that by (simp add: mutex_bench_inv_def init_mutex_bench_def)
  have f: "mutex_bench_inv n (mutex_feed s)" if "mutex_bench_inv n s" for s
    using that by (auto simp: mutex_bench_inv_def mutex_feed_def mutex_push_def split: nat.splits)
  have c: "mutex_bench_inv n (mutex_consume stale s)" if "mutex_bench_inv n s" for s stale
    using that by (cases "mb_consumer s") (auto simp: mutex_bench_inv_def mutex_consume_def mutex_pop_def)
  show "mutex_bench_inv n t" if "mutex_bench_inv n s" "mutex_bench_step s t" for s t
    using that(2,1) by cases (auto intro: f c)
qed

text \<open>
  Under every schedule the queue holds at most 4096 items; when the consumer has left, all
  \<open>n\<close> items have been pushed and none is left.
\<close>

theorem mutex_bench_drained:
  assumes "mutex_bench_step\<^sup>*\<^sup>* (init_mutex_bench n) s"
  shows "length (mb_queue s) \<le> 4096 \<and> (mb_consumer s = M_Left \<longrightarrow> mb_pushed s = n \<and> mb_queue s = [])"
  using mutex_bench_run.inv_reachable [OF refl assms] by (auto simp: mutex_bench_inv_def)

end
