(* ===== verification/Spec2Isabelle.thy ===== *)
theory Spec2Isabelle
  imports Timing Spsc_Memory Pipeline_Files Handler_Types Bar_Reference Research Benchmarks
    Queue_Benchmarks
begin

text \<open>
  A verification development for the market data pipeline under \<^verbatim>\<open>src/\<close>: a C++ feed handler
  that turns a lossy, reordered UDP feed of order messages into order books, tick and trade
  logs and bars, and the simulator it is run against.

  \<^bold>\<open>The program.\<close> The simulator (\<^verbatim>\<open>src/simulator_lib.cpp\<close>) generates a session of frames
  numbered 1, 2, 3, ..., sends them over UDP with configured loss and reorder rates, and
  serves ranges of the session over TCP. The feed handler (\<^verbatim>\<open>src/feed_handler.cpp\<close>) parses
  each datagram (\<^verbatim>\<open>src/parser.cpp\<close>, on the structures of \<^verbatim>\<open>protocol.hpp\<close> and the byte order
  helpers of \<^verbatim>\<open>bytes.hpp\<close>), hands it to the sequence tracker (\<^verbatim>\<open>src/sequence_tracker.cpp\<close>),
  recovers a gap over TCP, and applies the frames that are ready in order to the book
  (\<^verbatim>\<open>src/book.cpp\<close>). Ticks and trades go through the ring of \<^verbatim>\<open>spsc_queue.hpp\<close> to the consumer
  thread, which writes two text logs and a binary bar file (\<^verbatim>\<open>src/consumers.cpp\<close>); the bar
  file is read by \<^verbatim>\<open>python/research.py\<close>. \<^verbatim>\<open>src/instrumentation.cpp\<close> counts and times the
  stages and prints a report. \<^verbatim>\<open>src/handler_main.cpp\<close> and \<^verbatim>\<open>src/simulator_main.cpp\<close> read the
  command lines.

  \<^bold>\<open>The theories.\<close>
  \<^item> \<open>Mdp_Prelude\<close>: fixed-width integers as words, byte strings, arrays, the object
    representation of integers, and the interface \<open>step_system\<close> of a start state, a step
    relation and an invariant.
  \<^item> \<open>Bytes\<close> (\<^verbatim>\<open>bytes.hpp\<close>): the loads and stores with their byte-swap expressions; network
    byte order.
  \<^item> \<open>Protocol\<close> (\<^verbatim>\<open>protocol.hpp\<close>): one record per packed structure with its bytes, one record
    per host structure, the encoders.
  \<^item> \<open>Parser\<close> (\<^verbatim>\<open>parser.hpp\<close>, \<^verbatim>\<open>parser.cpp\<close>): \<^verbatim>\<open>parse_message\<close> with every status. It accepts
    exactly the well-formed frames, is inverse to the encoders in both directions (up to
    padding), and looks at no byte it does not consume.
  \<^item> \<open>Sequence_Tracker\<close> (\<^verbatim>\<open>sequence_tracker.hpp\<close>, \<^verbatim>\<open>sequence_tracker.cpp\<close>): the window of 64
    slots, the ready list and the gap. Whatever is pushed, the frames handed out are
    numbered consecutively, also across the wrap of the 64-bit numbers; a pending gap covers
    the number waited for; bursts of up to 64 frames need no recovery.
  \<^item> \<open>Order_Pool\<close>, \<open>Side_Book\<close>, \<open>Book_Builder\<close> (\<^verbatim>\<open>book.hpp\<close>, \<^verbatim>\<open>book.cpp\<close>): the open-addressed
    order table with backshift deletion implements a bounded map (interface \<open>order_store\<close>);
    the bitmap scans find what a walk over the levels finds; the builder holds the orders of
    the specification \<open>order_run\<close>, its levels are their totals as long as these are below
    \<open>2 ^ 32\<close>, and its ticks show its top.
  \<^item> \<open>Spsc_Queue\<close> (\<^verbatim>\<open>spsc_queue.hpp\<close>): the ring as functions, which implement the interface
    \<open>bounded_fifo\<close>, and as single loads and stores of two threads, which keep the items in
    order under every interleaving.
  \<^item> \<open>Atomics\<close>, \<open>Spsc_Memory\<close>: the release and acquire part of the C++ memory model with
    time stamps and views, and the ring on top of it with the memory orders of the code,
    driven by the feed thread and by \<^verbatim>\<open>consumer_loop\<close>. With all stale loads the model allows
    there is no data race on the slots, the items stay in order, and the consumer leaves its
    loop only when it has popped everything. This is for the stop request that
    \<^verbatim>\<open>run\<close> makes itself at its end.
  \<^item> \<open>Text_Output\<close>, \<open>Consumers\<close> (\<^verbatim>\<open>consumers.hpp\<close>, \<^verbatim>\<open>consumers.cpp\<close>, \<^verbatim>\<open>read_bars\<close> of
    \<^verbatim>\<open>research.py\<close>): the logs read back to what was logged; the bars conserve the traded
    volume, and the loop that writes volume bars ends unless the bar quantity is 0.
  \<^item> \<open>Bar_Reference\<close>: what the bars of a list of trades should be, without accumulators (time
    bars from blocks of trades, volume bars from chunks of traded units), and that the file
    of the aggregator, read back, holds exactly these bars.
  \<^item> \<open>Research\<close> (\<^verbatim>\<open>research.py\<close>): \<^verbatim>\<open>main\<close>, \<^verbatim>\<open>export_parquet\<close> and \<^verbatim>\<open>plot_session\<close>; what is handed to
    the plot, and how accurate its rates are.
  \<^item> \<open>Doubles\<close>: rounding to IEEE doubles, its error, and division that may not be finite.
  \<^item> \<open>Instrumentation\<close> (\<^verbatim>\<open>instrumentation.hpp\<close>, \<^verbatim>\<open>instrumentation.cpp\<close>): counters, the report
    and the accuracy of its throughput figure.
  \<^item> \<open>Feed_Handler\<close> (\<^verbatim>\<open>feed_handler.hpp\<close>, \<^verbatim>\<open>feed_handler.cpp\<close>): the state of the handler as one
    record; \<^verbatim>\<open>publish\<close>, \<^verbatim>\<open>consumer_loop\<close>, \<^verbatim>\<open>try_recover\<close>, \<^verbatim>\<open>handle_parsed\<close>,
    \<^verbatim>\<open>process_datagram\<close> and \<^verbatim>\<open>run\<close>. The interface \<open>recovery_service\<close> states what the handler
    relies on when it recovers; without it, whatever the network does, the book still comes
    from consecutively numbered frames that have arrived, as many at least as arrived in
    order, and the consumers see their events in order. Every outcome of a recovery attempt
    is described.
  \<^item> \<open>Pipeline_Files\<close>: from datagrams to files: the two logs and the bar file of any run, read
    back, in terms of the messages the run accepted.
  \<^item> \<open>Handler_Types\<close>: the fixed-size arrays of the handler are never written out of bounds.
  \<^item> \<open>Simulator\<close> (\<^verbatim>\<open>simulator_lib.cpp\<close>): the generator, the answer to a recovery request and the
    sender; \<open>recovery_service\<close> is interpreted on the server.
  \<^item> \<open>Sockets\<close> (\<^verbatim>\<open>feed_handler.cpp\<close>, \<^verbatim>\<open>simulator_lib.cpp\<close>): the socket calls of the recovery
    client, of \<^verbatim>\<open>run_recovery_server\<close>, of the two \<^verbatim>\<open>run\<close> functions and of the destructor. The
    server answers each connection as specified, a datagram that leaves a gap has it closed
    over the connection, and no path leaks a descriptor.
  \<^item> \<open>Command_Line\<close> (\<^verbatim>\<open>handler_main.cpp\<close>, \<^verbatim>\<open>simulator_main.cpp\<close>): the argument loops and the
    conversions of option values.
  \<^item> \<open>Timing\<close>: the deadline of the receive loop in \<^verbatim>\<open>FeedHandler::run\<close> and the pacing of the
    sender in \<^verbatim>\<open>FeedSimulator::run\<close>. When the handler ends, whatever its command line, and when
    a silent recovery server keeps it from ending; the sender keeps to its rate.
  \<^item> \<open>Benchmarks\<close> (\<^verbatim>\<open>bench_book.cpp\<close>, \<^verbatim>\<open>bench_parser.cpp\<close>): the workloads; that of the book is a
    steady state.
  \<^item> \<open>Queue_Benchmarks\<close> (\<^verbatim>\<open>bench_spsc.cpp\<close>): the ring and a queue under a mutex between two
    threads. Both keep the contract \<open>bounded_fifo\<close> and give the same results call by call; under
    every schedule the consumer leaves only when all is popped.
  \<^item> This theory: the two programs together.

  \<^bold>\<open>Effects.\<close> State is passed explicitly, in records named after the classes. A loop that
  need not end is a \<^theory_text>\<open>partial_function\<close> whose value \<^term>\<open>None\<close> is not returning: the volume
  bar loop, the server's range loop, and the end of the consumer loop; each has theorems
  for when it returns, and the first two for when they do not. All other loops are total
  functions with termination proofs; there is no fuel. Exceptions and error returns are
  values of sum or option types. What is not in the repository is a parameter: the clock,
  the HDR histogram, the random engine and its distributions, the outcomes of socket calls
  and the list of datagrams received, the opening of files,
  the scheduling of the consumer thread, the printing of doubles and
  \<^verbatim>\<open>std::stod\<close>. Hypotheses on these are named definitions: \<open>draws_in_range\<close> and
  \<open>tcp_split\<close>.

  \<^bold>\<open>Not modelled.\<close> Load buffering, which the C++ standard does not exclude for relaxed
  accesses, is outside the memory model of \<open>Atomics\<close>. Within the handler the consumer runs
  in whole calls of the ring, at the points a schedule gives: by \<open>Spsc_Queue\<close> and by
  \<open>ring_calls_atomic\<close> of \<open>Spsc_Memory\<close> every call of the ring is atomic, and one that fails on
  a stale value has no effect. Except in \<open>Timing\<close> a run is given by the turns of its receive
  loop, any number of them. Socket calls that never return are left out except in \<open>Timing\<close>.
  Also left out are stop requests from other threads in \<open>Spsc_Memory\<close>, a second \<^verbatim>\<open>run\<close> of the
  same handler, partial \<^verbatim>\<open>send\<close> calls, errors while writing to an open file, the text of usage
  and error messages, the destructors of the histograms and streams, the tests, and
  the work of the libraries that \<^verbatim>\<open>research.py\<close> calls.
\<close>

section \<open>From the simulator to the consumers\<close>

lemma generated_session:
  assumes "draws_in_range r" "1 \<le> sc_symbols cfg" "sc_symbols cfg \<le> 32" "0 \<le> sc_messages cfg"
    "44 * sc_messages cfg < 2 ^ 32" "generate_session r cfg = Inr session"
  shows "numbered_session session" "length session = nat (sc_messages cfg)"
    "sc_messages cfg \<le> 65536 \<longrightarrow> dom (order_run (map frame_payload session)) = foldl live_step {} (map frame_payload session)"
proof -
  have "sc_messages cfg < 2 ^ 31" using assms(5) by simp
  from generate_session_ok [OF assms(1-4) this]
  obtain ps where g: "generate_session r cfg = Inr (map payload_frame ps)" "length ps = nat (sc_messages cfg)" "session_ok {} ps"
    "\<forall>j < length ps. payload_wf (ps ! j) \<and> (\<exists>h. payload_header (ps ! j) = Some h \<and> hdr_seq h = of_nat (j + 1))" by blast
  have ps: "session = map payload_frame ps" using g(1) assms(6) by simp
  have f: "session_frame (payload_frame (ps ! j)) (j + 1)" "frame_payload (payload_frame (ps ! j)) = ps ! j"
    if "j < length ps" for j using g(4) that payload_session_frame by blast+
  show "length session = nat (sc_messages cfg)" using ps g(2) by simp
  then show "numbered_session session" using ps f(1) assms(5) g(2) unfolding numbered_session_def by auto
  have "map frame_payload session = ps" unfolding ps by (intro nth_equalityI) (simp_all add: f(2))
  then show "sc_messages cfg \<le> 65536 \<longrightarrow> dom (order_run (map frame_payload session)) = foldl live_step {} (map frame_payload session)"
    using session_ok_orders [of Map.empty ps] g(2,3) by (simp add: order_run_def kOrderPool_def)
qed

lemma sent_from_session: "set (send_session r cfg session) \<subseteq> set session"
  using set_mset_mono [OF send_session_mset(1)] by simp

lemma session_upto:
  assumes "n \<le> length session"
  shows "map (\<lambda>i. session ! (i - 1)) [1..<n + 1] = take n session"
  using assms by (intro nth_equalityI) (simp_all del: upt_Suc)

text \<open>The highest number received is that of the last frame, once it has been received.\<close>

lemma top_seq_ge: "d \<in> set turns \<Longrightarrow> turn_seq d \<le> top_seq turns"
proof (induction turns rule: rev_induct)
  case (snoc x xs)
  then show ?case by (auto simp: top_seq_def)
qed simp

lemma turn_seq_frame:
  assumes "session_frame f i" "i < 2 ^ 64"
  shows "turn_seq (Some f) = i"
proof -
  have "length f \<le> 44" using session_frame_legal [OF assms(1)] by (simp add: legal_frame_def)
  then show ?thesis using assms by (simp add: session_frame_def unat_of_nat take_bit_eq_mod)
qed

text \<open>
  C1: The two programs together. The simulator generates a session, sends it with any loss
  and reorder rates, and serves recovery requests; the network in between loses, repeats
  and reorders datagrams at will, and TCP cuts the replies into any chunks. Then the run of
  the handler returns 0, and its book is the book of the session up to the highest frame
  received, as if nothing had been lost: when the last frame is received, of the whole
  session, whose live orders are those of the simulator (for at most 65536 messages). When
  the consumer keeps up and the files can be opened, they read back to all its ticks, all
  its trades and its traded quantities.
\<close>

theorem lossy_feed_rebuilds_session:
  fixes r :: "'g rng" and hdr_init :: "int \<Rightarrow> int \<Rightarrow> int \<Rightarrow> 'h option"
  assumes sim: "draws_in_range r" "1 \<le> sc_symbols scfg" "sc_symbols scfg \<le> 32" "0 \<le> sc_messages scfg"
      "44 * sc_messages scfg < 2 ^ 32" "generate_session r scfg = Inr session"
    and net: "tcp_split split" "ev_net env = simulator_net split host_now_ns session"
    and turns: "set turns \<subseteq> insert None (Some ` set (send_session r scfg session))"
    and vol: "hc_volume_bar_qty cfg \<noteq> 0"
  shows "\<exists>h' n ps. n = top_seq turns \<and> n \<le> length session \<and> ps = map frame_payload (take n session) \<and>
    run env True turns (init_FeedHandler hdr_init opened cfg) = Some (0, h') \<and>
    fh_book h' = book_run init_BookBuilder ps \<and>
    (session \<noteq> [] \<and> Some (last session) \<in> set turns \<longrightarrow> n = length session \<and>
      (sc_messages scfg \<le> 65536 \<longrightarrow> dom (pool_lookup (bb_pool (fh_book h'))) = foldl live_step {} ps)) \<and>
    ((\<forall>n. 1 \<le> ev_turns env n) \<and> opened (hc_bbo_path cfg) \<and> opened (hc_tape_path cfg) \<and> opened (hc_bars_path cfg) \<longrightarrow>
      files_read_back h' ps)"
proof -
  let ?F = "\<lambda>i. session ! (i - 1)" and ?n = "top_seq turns"
  note g = generated_session [OF sim]
  have N: "served split session = length session" using net(1) g(1) by (simp add: served_def)
  have st: "\<forall>d \<in> set turns. session_turn ?F (served split session) d"
  proof
    fix d assume "d \<in> set turns"
    then have "d = None \<or> (\<exists>f \<in> set session. d = Some f)" using turns sent_from_session by fastforce
    then show "session_turn ?F (served split session) d"
      unfolding N by (auto simp: session_turn_def in_set_conv_nth intro!: bexI [of _ "Suc _"])
  qed
  have le: "?n \<le> length session"
    using sim.feed_delivers_session [OF net(2), of "start_run env (init_FeedHandler hdr_init opened cfg)" turns False]
      st N by simp
  define ps where "ps = map frame_payload (take ?n session)"
  have ps: "ps = map frame_payload (map ?F [1..<?n + 1])" unfolding ps_def session_upto [OF le] ..
  obtain h' acc g' where h': "run env True turns (init_FeedHandler hdr_init opened cfg) = Some (0, h')"
    "fh_book h' = book_run init_BookBuilder ps"
    "(\<forall>n. 1 \<le> ev_turns env n) \<longrightarrow> acc = session_events init_BookBuilder ps"
    "fh_bbo h' = foldl bbo_on_tick (fh_bbo (init_FeedHandler hdr_init opened cfg)) (tick_list acc)"
    "fh_tape h' = foldl tape_on_trade (fh_tape (init_FeedHandler hdr_init opened cfg)) (trade_list acc)"
    "bars_run (fh_bars (init_FeedHandler hdr_init opened cfg)) (trade_list acc) = Some g'" "fh_bars h' = flush_all g'"
    using sim.run_session [where h = "init_FeedHandler hdr_init opened cfg" and hdr_init = hdr_init and opened = opened
        and cfg = cfg and k = "\<forall>n. 1 \<le> ev_turns env n", OF refl net(2) vol st _ ps] by blast
  have whole: "?n = length session" if "session \<noteq> []" "Some (last session) \<in> set turns"
  proof -
    have "session_frame (last session) (length session)" "length session < 2 ^ 64"
      using g(1) that(1) by (auto simp: numbered_session_def last_conv_nth dest: spec [of _ "length session - 1"])
    then show ?thesis using top_seq_ge [OF that(2)] turn_seq_frame le by force
  qed
  then have "dom (pool_lookup (bb_pool (fh_book h'))) = foldl live_step {} ps"
    if "session \<noteq> []" "Some (last session) \<in> set turns" "sc_messages scfg \<le> 65536"
    using g(3) that book_run_inv [of ps] h'(2) by (simp add: ps_def)
  moreover have "files_read_back h' ps"
    if "\<forall>n. 1 \<le> ev_turns env n" "opened (hc_bbo_path cfg)" "opened (hc_tape_path cfg)" "opened (hc_bars_path cfg)"
    using consumed_files_read_back [OF that(2-4) vol refl _ h'(4-7)] h'(3) that(1) by blast
  ultimately show ?thesis using h'(1,2) whole le ps_def by (intro exI [of _ h'] exI [of _ ?n] exI [of _ ps]) blast
qed

text \<open>A network that delivers every reply in one piece.\<close>

definition one_chunk :: "nat \<Rightarrow> bytes \<Rightarrow> bytes list" where
  "one_chunk k bs = (if bs = [] then [] else [bs])"

definition served_env :: "bytes list \<Rightarrow> unit env" where
  "served_env session = quiet_env\<lparr>ev_net := simulator_net one_chunk of_nat session\<rparr>"

theorem lossy_feed_rebuilds_session_witness:
  "\<exists>session h'. generate_session low_rng small_config = Inr session \<and> length session = 3 \<and>
     run (served_env session) True (map Some (send_session low_rng small_config session))
       (init_FeedHandler (\<lambda>_ _ _. Some ()) (\<lambda>_. True) init_HandlerConfig) = Some (0, h') \<and>
     fh_book h' = book_run init_BookBuilder (map frame_payload session) \<and>
     dom (pool_lookup (bb_pool (fh_book h'))) = foldl live_step {} (map frame_payload session) \<and>
     files_read_back h' (map frame_payload session)"
proof -
  have c: "1 \<le> sc_symbols small_config" "sc_symbols small_config \<le> 32" "0 \<le> sc_messages small_config"
    "44 * sc_messages small_config < 2 ^ 32" "sc_messages small_config \<le> 65536" by simp_all
  obtain session where s: "generate_session low_rng small_config = Inr session"
    by (simp add: generate_session_def)
  note g = generated_session [OF low_rng_in_range c(1-4) s]
  let ?turns = "map Some (send_session low_rng small_config session)"
  have send: "send_session low_rng small_config session = session" by (rule send_session_plain) simp_all
  have ne: "session \<noteq> []" using g(2) by auto
  then have l: "Some (last session) \<in> set ?turns" unfolding send by simp
  have n: "tcp_split one_chunk" "ev_net (served_env session) = simulator_net one_chunk of_nat session"
    by (auto simp: tcp_split_def one_chunk_def served_env_def)
  have t: "set ?turns \<subseteq> insert None (Some ` set (send_session low_rng small_config session))" by auto
  have f: "hc_volume_bar_qty init_HandlerConfig \<noteq> 0" "\<forall>n. 1 \<le> ev_turns (served_env session) n"
    by (simp_all add: init_HandlerConfig_def served_env_def quiet_env_def)
  from lossy_feed_rebuilds_session [OF low_rng_in_range c(1-4) s n t f(1), of "\<lambda>_ _ _. Some ()" "\<lambda>_. True"] ne l c(5) f(2)
  obtain h' n ps where "n = length session" "ps = map frame_payload (take n session)"
    "run (served_env session) True ?turns (init_FeedHandler (\<lambda>_ _ _. Some ()) (\<lambda>_. True) init_HandlerConfig) = Some (0, h')"
    "fh_book h' = book_run init_BookBuilder ps"
    "dom (pool_lookup (bb_pool (fh_book h'))) = foldl live_step {} ps" "files_read_back h' ps" by blast
  then show ?thesis using s g(2) by (intro exI [of _ session] exI [of _ h']) simp
qed

end
